(* ===== verification/Sw_Prelude.thy ===== *)
theory Sw_Prelude
  imports Main "HOL-Library.Word" "HOL-Library.Code_Target_Nat"
begin

text \<open>
  The shared layer of the development. It holds the types of the model (machine words,
  byte buffers), the two calling conventions of the C++ code as combinators, and the
  generic facts the component theories rest on:

  \<^item> \<open>writer\<close>: an encoder \<open>bool f(..., SwByteArray& out, SwString* error)\<close>. It takes the
    output buffer and returns the buffer it leaves behind (also when it fails half way)
    and the error message, \<open>None\<close> standing for \<open>return true\<close>.
  \<^item> \<open>reader\<close>: a decoder \<open>bool f(const SwByteArray& in, std::size_t& offset, T& result,
    SwString* error)\<close>. It takes the input and the offset and returns either the error
    message (\<open>Inl\<close>) or the result (\<open>Inr\<close>), and the offset it leaves behind in either case.
  \<^item> \<open>appends\<close>, \<open>reads\<close>, \<open>safe_reader\<close>, \<open>consuming\<close>: what the components prove of
    their writers and readers, with one composition lemma for each combinator.
  \<^item> the locales \<open>wire_format\<close> and \<open>wire_sequence\<close>: the contract of a self-delimiting
    wire format, and of a loop that reads items to the end of a buffer.

  \<open>std::size_t\<close> values are natural numbers; where the code subtracts them the wrap-around
  is written out by \<open>size_sub\<close>. \<open>static_cast<int>\<close> of a size is \<open>to_int\<close>.
\<close>

unbundle bit_operations_syntax

type_synonym u8 = "8 word"
type_synonym u32 = "32 word"
type_synonym u64 = "64 word"
type_synonym bytes = "u8 list"
type_synonym 'a reader = "bytes \<Rightarrow> nat \<Rightarrow> (string + 'a) \<times> nat"
type_synonym writer = "bytes \<Rightarrow> bytes \<times> string option"

named_theorems appends_intros "how the buffer grows under the encoders"
named_theorems reads_intros "which bytes the decoders read as which value"
named_theorems safe_intros "the decoders stay inside their buffer"

subsection \<open>Sizes and casts\<close>

definition size_max :: nat where
  "size_max = 2 ^ 64 - 1"

definition size_sub :: "nat \<Rightarrow> nat \<Rightarrow> nat" where
  "size_sub a b = (if b \<le> a then a - b else 2 ^ 64 + a - b)"

definition int_max :: nat where
  "int_max = 2 ^ 31 - 1"

definition to_int :: "nat \<Rightarrow> int" where
  "to_int n = sint (word_of_nat n :: 32 word)"

lemma size_sub_le [simp]: "b \<le> a \<Longrightarrow> size_sub a b = a - b"
  by (simp add: size_sub_def)

lemma to_int_small: "n < 2 ^ 31 \<Longrightarrow> to_int n = int n"
  by (simp add: to_int_def signed_of_nat signed_take_bit_int_eq_self)

text \<open>Word arithmetic read in the natural numbers, where it does not wrap around.\<close>

lemma unat_succ: "a < b \<Longrightarrow> unat (a + 1) = Suc (unat a)" for a b :: u64
proof -
  assume "a < b"
  then have "unat a + 1 < 2 ^ 64"
    using unsigned_less [of b, where 'a = nat] by (simp add: word_less_nat_alt)
  then show ?thesis by (simp add: unat_word_ariths)
qed

lemma unat_minus: "b \<le> a \<Longrightarrow> unat (a - b) = unat a - unat b" for a b :: u64
  by (simp add: unat_sub_if_size word_le_nat_alt)

lemma unat_plus: "unat a + unat b < 2 ^ 64 \<Longrightarrow> unat (a + b) = unat a + unat b" for a b :: u64
  by (simp add: unat_word_ariths)

lemmas word_nat = word_le_nat_alt word_less_nat_alt word_unat_eq_iff

subsection \<open>The two calling conventions\<close>

definition seqW :: "writer \<Rightarrow> writer \<Rightarrow> writer" where
  "seqW f g out = (case f out of (out', None) \<Rightarrow> g out' | (out', Some e) \<Rightarrow> (out', Some e))"

definition returnW :: writer where
  "returnW out = (out, None)"

definition failW :: "string \<Rightarrow> writer" where
  "failW e out = (out, Some e)"

definition putW :: "bytes \<Rightarrow> writer" where
  "putW bs out = (out @ bs, None)"

definition bindR :: "'a reader \<Rightarrow> ('a \<Rightarrow> 'b reader) \<Rightarrow> 'b reader" where
  "bindR r k buf off =
     (case r buf off of (Inl e, off') \<Rightarrow> (Inl e, off') | (Inr x, off') \<Rightarrow> k x buf off')"

definition returnR :: "'a \<Rightarrow> 'a reader" where
  "returnR x buf off = (Inr x, off)"

definition failR :: "string \<Rightarrow> 'a reader" where
  "failR e buf off = (Inl e, off)"

subsection \<open>What the encoders append\<close>

definition appends :: "writer \<Rightarrow> bytes \<Rightarrow> bool" where
  "appends w bs \<longleftrightarrow> (\<forall>out. w out = (out @ bs, None))"

lemma appendsD: "appends w bs \<Longrightarrow> w out = (out @ bs, None)"
  by (simp add: appends_def)

lemma appends_fst: "appends w bs \<Longrightarrow> fst (w []) = bs"
  by (simp add: appends_def)

lemma appends_putW [appends_intros]: "appends (putW bs) bs"
  by (simp add: appends_def putW_def)

lemma appends_returnW [appends_intros]: "appends returnW []"
  by (simp add: appends_def returnW_def)

lemma appends_seqW [appends_intros]:
  "appends f bs \<Longrightarrow> appends g cs \<Longrightarrow> appends (seqW f g) (bs @ cs)"
  by (simp add: appends_def seqW_def)

lemma appends_seqW_Cons:
  "appends f [b] \<Longrightarrow> appends g cs \<Longrightarrow> appends (seqW f g) (b # cs)"
  using appends_seqW by fastforce

lemma seqW_None_iff:
  "seqW f g out = (out', None) \<longleftrightarrow> (\<exists>mid. f out = (mid, None) \<and> g mid = (out', None))"
  by (auto simp: seqW_def split: prod.splits option.splits)

subsection \<open>What the decoders read\<close>

text \<open>
  \<open>reads r bs x\<close>: wherever the bytes \<open>bs\<close> stand in a buffer, \<open>r\<close> returns \<open>x\<close> and leaves
  the offset right behind them. The buffer is shorter than \<open>2 ^ 31\<close>, the range in which
  \<open>static_cast<int>\<close> of an offset keeps its value.
\<close>

definition reads :: "'a reader \<Rightarrow> bytes \<Rightarrow> 'a \<Rightarrow> bool" where
  "reads r bs x \<longleftrightarrow> (\<forall>pre suf. length (pre @ bs @ suf) < 2 ^ 31 \<longrightarrow>
     r (pre @ bs @ suf) (length pre) = (Inr x, length pre + length bs))"

lemma readsI:
  "(\<And>pre suf. length (pre @ bs @ suf) < 2 ^ 31 \<Longrightarrow>
     r (pre @ bs @ suf) (length pre) = (Inr x, length pre + length bs)) \<Longrightarrow> reads r bs x"
  by (simp add: reads_def)

lemma readsD:
  "reads r bs x \<Longrightarrow> length (pre @ bs @ suf) < 2 ^ 31 \<Longrightarrow>
     r (pre @ bs @ suf) (length pre) = (Inr x, length pre + length bs)"
  by (simp add: reads_def)

lemma readsD0:
  "reads r bs x \<Longrightarrow> length bs < 2 ^ 31 \<Longrightarrow> r bs 0 = (Inr x, length bs)"
  using readsD [of r bs x "[]" "[]"] by simp

lemma reads_returnR [reads_intros]: "reads (returnR x) [] x"
  by (simp add: reads_def returnR_def)

lemma reads_bindR [reads_intros]:
  assumes "reads r bs x" and "reads (k x) cs y"
  shows "reads (bindR r k) (bs @ cs) y"
proof (rule readsI)
  fix pre suf :: bytes
  assume len: "length (pre @ (bs @ cs) @ suf) < 2 ^ 31"
  have "r (pre @ bs @ (cs @ suf)) (length pre) = (Inr x, length pre + length bs)"
    using len by (intro readsD [OF assms(1)]) simp
  moreover have "k x ((pre @ bs) @ cs @ suf) (length (pre @ bs)) =
      (Inr y, length (pre @ bs) + length cs)"
    using len by (intro readsD [OF assms(2)]) simp
  ultimately show "bindR r k (pre @ (bs @ cs) @ suf) (length pre) =
      (Inr y, length pre + length (bs @ cs))"
    by (simp add: bindR_def add.assoc)
qed

lemma reads_bindR_Cons:
  "reads r [b] x \<Longrightarrow> reads (k x) cs y \<Longrightarrow> reads (bindR r k) (b # cs) y"
  using reads_bindR [of r "[b]" x k cs y] by simp

lemma bindR_Inr_iff:
  "bindR r k buf off = (Inr y, off'') \<longleftrightarrow>
     (\<exists>x off'. r buf off = (Inr x, off') \<and> k x buf off' = (Inr y, off''))"
  by (auto simp: bindR_def split: prod.splits sum.splits)

text \<open>
  \<open>reads_at r pre bs suf x\<close>: the same in one buffer, for readers whose result depends on
  where they are or on how many bytes follow.
\<close>

definition reads_at :: "'a reader \<Rightarrow> bytes \<Rightarrow> bytes \<Rightarrow> bytes \<Rightarrow> 'a \<Rightarrow> bool" where
  "reads_at r pre bs suf x \<longleftrightarrow> (length (pre @ bs @ suf) < 2 ^ 31 \<longrightarrow>
     r (pre @ bs @ suf) (length pre) = (Inr x, length pre + length bs))"

lemma reads_at_reads: "reads r bs x \<Longrightarrow> reads_at r pre bs suf x"
  by (simp add: reads_at_def reads_def)

lemma reads_at_bindR:
  assumes "reads_at r pre bs (cs @ suf) x" and "reads_at (k x) (pre @ bs) cs suf y"
  shows "reads_at (bindR r k) pre (bs @ cs) suf y"
  using assms by (simp add: reads_at_def bindR_def add.assoc)

lemma reads_at_step:
  assumes "reads r bs x" and "reads_at (k x) (pre @ bs) cs suf y"
  shows "reads_at (bindR r k) pre (bs @ cs) suf y"
  by (rule reads_at_bindR [where x = x]) (rule reads_at_reads, rule assms(1), rule assms(2))

lemma reads_at_here:
  assumes "reads_at r pre [] (bs @ suf) x" and "reads_at (k x) pre bs suf y"
  shows "reads_at (bindR r k) pre bs suf y"
  using reads_at_bindR [of r pre "[]" bs suf x k y] assms by simp

lemma reads_unique:
  assumes "reads r bs x" and "reads r cs y" and "bs @ s = cs @ t" and "length (bs @ s) < 2 ^ 31"
  shows "x = y \<and> bs = cs \<and> s = t"
proof -
  have 1: "r (bs @ s) 0 = (Inr x, length bs)"
    using readsD [OF assms(1), of "[]" s] assms(4) by simp
  have 2: "r (cs @ t) 0 = (Inr y, length cs)"
    using readsD [OF assms(2), of "[]" t] assms(3,4) by simp
  from 1 2 assms(3) have "x = y" and "length bs = length cs" by auto
  with assms(3) show ?thesis by simp
qed

subsection \<open>Where the decoders stop\<close>

text \<open>
  \<open>safe_reader r\<close>: from an offset inside the buffer, \<open>r\<close> leaves an offset inside the buffer
  that is not before the one it got, whether it fails or not. \<open>consuming r\<close>: when it
  succeeds it has moved on.
\<close>

definition safe_reader :: "'a reader \<Rightarrow> bool" where
  "safe_reader r \<longleftrightarrow> (\<forall>buf off. off \<le> length buf \<longrightarrow>
     off \<le> snd (r buf off) \<and> snd (r buf off) \<le> length buf)"

definition consuming :: "'a reader \<Rightarrow> bool" where
  "consuming r \<longleftrightarrow> (\<forall>buf off x off'. off \<le> length buf \<longrightarrow> r buf off = (Inr x, off') \<longrightarrow>
     off < off' \<and> off' \<le> length buf)"

lemma safe_readerI:
  "(\<And>buf off. off \<le> length buf \<Longrightarrow> off \<le> snd (r buf off) \<and> snd (r buf off) \<le> length buf)
    \<Longrightarrow> safe_reader r"
  by (simp add: safe_reader_def)

lemma safe_readerD:
  "safe_reader r \<Longrightarrow> off \<le> length buf \<Longrightarrow> r buf off = (v, off') \<Longrightarrow> off \<le> off' \<and> off' \<le> length buf"
  by (metis safe_reader_def snd_conv)

lemma consumingD:
  "consuming r \<Longrightarrow> off \<le> length buf \<Longrightarrow> r buf off = (Inr x, off') \<Longrightarrow> off < off' \<and> off' \<le> length buf"
  by (simp add: consuming_def)

lemma safe_returnR [safe_intros]: "safe_reader (returnR x)"
  by (simp add: safe_reader_def returnR_def)

lemma safe_failR [safe_intros]: "safe_reader (failR e)"
  by (simp add: safe_reader_def failR_def)

lemma safe_bindR [safe_intros]:
  assumes r: "safe_reader r" and k: "\<And>x. safe_reader (k x)"
  shows "safe_reader (bindR r k)"
proof (rule safe_readerI)
  fix buf :: bytes and off :: nat
  assume off: "off \<le> length buf"
  obtain v off' where v: "r buf off = (v, off')" by fastforce
  with r off have 1: "off \<le> off' \<and> off' \<le> length buf" by (auto dest: safe_readerD)
  show "off \<le> snd (bindR r k buf off) \<and> snd (bindR r k buf off) \<le> length buf"
  proof (cases v)
    case (Inl e)
    with v 1 show ?thesis by (simp add: bindR_def)
  next
    case (Inr x)
    obtain w off'' where w: "k x buf off' = (w, off'')" by fastforce
    with k 1 have "off' \<le> off'' \<and> off'' \<le> length buf" by (blast dest: safe_readerD)
    with Inr v w 1 show ?thesis by (simp add: bindR_def)
  qed
qed

lemma safe_if [safe_intros]:
  "safe_reader r \<Longrightarrow> safe_reader r' \<Longrightarrow> safe_reader (if c then r else r')"
  by simp

lemma consuming_bindR:
  assumes r: "consuming r" and k: "\<And>x. safe_reader (k x)"
  shows "consuming (bindR r k)"
  unfolding consuming_def
proof (intro allI impI)
  fix buf :: bytes and off y off''
  assume off: "off \<le> length buf" and eq: "bindR r k buf off = (Inr y, off'')"
  then obtain x off' where x: "r buf off = (Inr x, off')" and y: "k x buf off' = (Inr y, off'')"
    by (auto simp: bindR_def split: prod.splits sum.splits)
  from r off x have 1: "off < off' \<and> off' \<le> length buf" by (rule consumingD)
  with k y have "off' \<le> off'' \<and> off'' \<le> length buf" by (blast dest: safe_readerD)
  with 1 show "off < off'' \<and> off'' \<le> length buf" by simp
qed

subsection \<open>Self-delimiting wire formats\<close>

locale wire_format =
  fixes enc :: "'a \<Rightarrow> bytes"
    and rd :: "'a reader"
    and ok :: "'a \<Rightarrow> bool"
  assumes rd_enc: "ok x \<Longrightarrow> reads rd (enc x) x"
    and enc_nonempty: "ok x \<Longrightarrow> enc x \<noteq> []"
begin

lemma enc_prefix_free:
  assumes "ok x" and "ok y" and "enc x @ s = enc y @ t" and "length (enc x @ s) < 2 ^ 31"
  shows "x = y \<and> s = t"
  using reads_unique [OF rd_enc [OF assms(1)] rd_enc [OF assms(2)] assms(3,4)] by blast

lemma enc_concat_inj:
  assumes "\<forall>x\<in>set xs. ok x" and "\<forall>y\<in>set ys. ok y"
    and "concat (map enc xs) = concat (map enc ys)"
    and "length (concat (map enc xs)) < 2 ^ 31"
  shows "xs = ys"
  using assms
proof (induction xs arbitrary: ys)
  case Nil
  then have "enc y = []" and "ok y" if "y \<in> set ys" for y
    using that by auto
  then show ?case using enc_nonempty by (cases ys) auto
next
  case (Cons x xs)
  have "ok x" using Cons.prems(1) by simp
  then have "enc x \<noteq> []" by (rule enc_nonempty)
  with Cons.prems(3) have "ys \<noteq> []" by auto
  then obtain y zs where ys: "ys = y # zs" by (cases ys) auto
  have eq: "x = y \<and> concat (map enc xs) = concat (map enc zs)"
    using Cons.prems ys by (intro enc_prefix_free) auto
  then have "xs = zs"
    using Cons.prems ys by (intro Cons.IH) auto
  with eq ys show ?case by simp
qed

end

locale wire_sequence = wire_format enc rd ok
  for enc :: "'a \<Rightarrow> bytes" and rd :: "'a reader" and ok :: "'a \<Rightarrow> bool" +
  fixes loop :: "bytes \<Rightarrow> nat \<Rightarrow> 's \<Rightarrow> 'r"
    and step :: "'s \<Rightarrow> 'a \<Rightarrow> 's"
    and finish :: "'s \<Rightarrow> 'r"
  assumes loop_done: "length buf \<le> off \<Longrightarrow> loop buf off s = finish s"
    and loop_step: "off < length buf \<Longrightarrow> ok x \<Longrightarrow> rd buf off = (Inr x, off') \<Longrightarrow>
      loop buf off s = loop buf off' (step s x)"
begin

lemma loop_reads_prefix:
  assumes "\<forall>x\<in>set xs. ok x" and "length (pre @ concat (map enc xs) @ suf) < 2 ^ 31"
  shows "loop (pre @ concat (map enc xs) @ suf) (length pre) s =
    loop (pre @ concat (map enc xs) @ suf) (length (pre @ concat (map enc xs))) (foldl step s xs)"
  using assms
proof (induction xs arbitrary: pre s)
  case Nil
  then show ?case by simp
next
  case (Cons x xs)
  let ?rest = "concat (map enc xs)"
  have okx: "ok x" using Cons.prems by simp
  have rx: "rd (pre @ enc x @ (?rest @ suf)) (length pre) = (Inr x, length pre + length (enc x))"
    using Cons.prems by (intro readsD [OF rd_enc [OF okx]]) simp
  have "loop (pre @ enc x @ (?rest @ suf)) (length pre) s =
      loop ((pre @ enc x) @ ?rest @ suf) (length (pre @ enc x)) (step s x)"
    using loop_step [OF _ okx rx] enc_nonempty [OF okx] by simp
  also have "\<dots> = loop ((pre @ enc x) @ ?rest @ suf) (length ((pre @ enc x) @ ?rest))
      (foldl step (step s x) xs)"
    using Cons.prems by (intro Cons.IH) auto
  finally show ?case by simp
qed

lemma loop_reads_all:
  assumes "\<forall>x\<in>set xs. ok x" and "length (pre @ concat (map enc xs)) < 2 ^ 31"
  shows "loop (pre @ concat (map enc xs)) (length pre) s = finish (foldl step s xs)"
  using loop_reads_prefix [OF assms(1), of pre "[]" s] assms(2) by (simp add: loop_done)

end

subsection \<open>Short runs of a step relation\<close>

lemma one_step: "r a b \<Longrightarrow> r\<^sup>*\<^sup>* a b"
  by (rule r_into_rtranclp)

lemma two_steps: "r a b \<Longrightarrow> r b c \<Longrightarrow> r\<^sup>*\<^sup>* a c"
  by (meson converse_rtranclp_into_rtranclp r_into_rtranclp)

subsection \<open>Big-endian byte strings\<close>

definition be_bytes :: "nat \<Rightarrow> u64 \<Rightarrow> bytes" where
  "be_bytes n v = map (\<lambda>i. ucast (drop_bit ((n - 1 - i) * 8) v AND 0xff)) [0..<n]"

definition be_value :: "u64 \<Rightarrow> bytes \<Rightarrow> u64" where
  "be_value a bs = foldl (\<lambda>acc b. push_bit 8 acc OR ucast b) a bs"

lemma be_bytes_0 [simp]: "be_bytes 0 v = []"
  by (simp add: be_bytes_def)

lemma be_bytes_Suc: "be_bytes (Suc n) v = ucast (drop_bit (n * 8) v AND 0xff) # be_bytes n v"
proof -
  have "[0..<Suc n] = 0 # map Suc [0..<n]"
    by (simp add: map_Suc_upt upt_conv_Cons del: upt_Suc)
  then show ?thesis
    by (simp add: be_bytes_def o_def del: upt_Suc)
qed

lemma length_be_bytes [simp]: "length (be_bytes n v) = n"
  by (simp add: be_bytes_def)

lemma be_value_be_bytes: "be_value a (be_bytes n v) = push_bit (8 * n) a OR take_bit (8 * n) v"
proof (induction n arbitrary: a)
  case 0
  then show ?case by (simp add: be_value_def)
next
  case (Suc n)
  have ff: "(0xff :: u64) = mask 8" by (simp add: mask_eq_exp_minus_1)
  have "be_value a (be_bytes (Suc n) v) =
      be_value (push_bit 8 a OR ucast (ucast (drop_bit (n * 8) v AND 0xff) :: u8)) (be_bytes n v)"
    by (simp add: be_bytes_Suc be_value_def)
  also have "\<dots> = push_bit (8 * n) (push_bit 8 a OR ucast (ucast (drop_bit (n * 8) v AND 0xff) :: u8))
       OR take_bit (8 * n) v"
    by (rule Suc.IH)
  also have "\<dots> = push_bit (8 * Suc n) a OR take_bit (8 * Suc n) v"
    unfolding ff by (rule bit_word_eqI) (auto simp: bit_simps ac_simps)
  finally show ?case .
qed

lemma foldl_append_map: "foldl (\<lambda>acc x. acc @ [f x]) out xs = out @ map f xs"
  by (induction xs arbitrary: out) auto

lemma map_nth_slice:
  "map (\<lambda>i. (pre @ bs @ suf) ! (length pre + i)) [0..<length bs] = bs"
  by (rule nth_equalityI) (auto simp: nth_append)

end
