(* ===== verification/Quic_Frame.thy ===== *)
theory Quic_Frame
  imports Sw_Prelude
begin

text \<open>
  \<open>SwQuicFrame\<close> (\<open>src/core/io/quic/SwQuicFrame.h\<close>): the frame object shared by the codec, the
  acknowledgement tracker and the streams. The class keeps the fields of every kind of
  frame side by side; the record does the same, with one field per member, and one
  definition per factory. \<open>frame\<close> is the private constructor: every field at its default.
\<close>

datatype frame_Type =
    Padding | Ping | Ack | ResetStream | ResetStreamAt | StopSending | Crypto | NewToken
  | Stream | MaxData | MaxStreamData | MaxStreams | DataBlocked | StreamDataBlocked
  | StreamsBlocked | NewConnectionId | RetireConnectionId | PathChallenge | PathResponse
  | ConnectionClose | HandshakeDone | Datagram

record AckRange =
  gap :: u64
  rangeLength :: u64

record SwQuicFrame =
  frameType :: frame_Type
  paddingLength :: nat
  largestAcknowledged :: u64
  ackDelay :: u64
  firstAckRange :: u64
  ackRanges :: "AckRange list"
  hasEcn :: bool
  ect0Count :: u64
  ect1Count :: u64
  ecnCeCount :: u64
  streamId :: u64
  offset :: u64
  data :: bytes
  fin :: bool
  finalSize :: u64
  reliableSize :: u64
  maximum :: u64
  isBidirectional :: bool
  sequenceNumber :: u64
  retirePriorTo :: u64
  connectionId :: bytes
  statelessResetToken :: bytes
  errorCode :: u64
  errorFrameType :: u64
  reasonPhrase :: bytes
  isApplicationClose :: bool

definition frame :: "frame_Type \<Rightarrow> SwQuicFrame" where
  "frame t =
     \<lparr>frameType = t, paddingLength = 1, largestAcknowledged = 0, ackDelay = 0,
      firstAckRange = 0, ackRanges = [], hasEcn = False, ect0Count = 0, ect1Count = 0,
      ecnCeCount = 0, streamId = 0, offset = 0, data = [], fin = False, finalSize = 0,
      reliableSize = 0, maximum = 0, isBidirectional = True, sequenceNumber = 0,
      retirePriorTo = 0, connectionId = [], statelessResetToken = [], errorCode = 0,
      errorFrameType = 0, reasonPhrase = [], isApplicationClose = False\<rparr>"

definition padding :: "nat \<Rightarrow> SwQuicFrame" where
  "padding len = (frame Padding)\<lparr>paddingLength := (if len = 0 then 1 else len)\<rparr>"

definition ping :: SwQuicFrame where
  "ping = frame Ping"

definition ack :: "u64 \<Rightarrow> u64 \<Rightarrow> u64 \<Rightarrow> AckRange list \<Rightarrow> SwQuicFrame" where
  "ack largest delay first ranges =
     (frame Ack)\<lparr>largestAcknowledged := largest, ackDelay := delay, firstAckRange := first,
       ackRanges := ranges\<rparr>"

definition ackWithEcn ::
  "u64 \<Rightarrow> u64 \<Rightarrow> u64 \<Rightarrow> AckRange list \<Rightarrow> u64 \<Rightarrow> u64 \<Rightarrow> u64 \<Rightarrow> SwQuicFrame" where
  "ackWithEcn largest delay first ranges ect0 ect1 ecnCe =
     (ack largest delay first ranges)\<lparr>hasEcn := True, ect0Count := ect0, ect1Count := ect1,
       ecnCeCount := ecnCe\<rparr>"

definition resetStream :: "u64 \<Rightarrow> u64 \<Rightarrow> u64 \<Rightarrow> SwQuicFrame" where
  "resetStream sid code final =
     (frame ResetStream)\<lparr>streamId := sid, errorCode := code, finalSize := final\<rparr>"

definition resetStreamAt :: "u64 \<Rightarrow> u64 \<Rightarrow> u64 \<Rightarrow> u64 \<Rightarrow> SwQuicFrame" where
  "resetStreamAt sid code final reliable =
     (frame ResetStreamAt)\<lparr>streamId := sid, errorCode := code, finalSize := final,
       reliableSize := reliable\<rparr>"

definition stopSending :: "u64 \<Rightarrow> u64 \<Rightarrow> SwQuicFrame" where
  "stopSending sid code = (frame StopSending)\<lparr>streamId := sid, errorCode := code\<rparr>"

definition crypto :: "u64 \<Rightarrow> bytes \<Rightarrow> SwQuicFrame" where
  "crypto off d = (frame Crypto)\<lparr>offset := off, data := d\<rparr>"

definition newToken :: "bytes \<Rightarrow> SwQuicFrame" where
  "newToken token = (frame NewToken)\<lparr>data := token\<rparr>"

definition stream :: "u64 \<Rightarrow> u64 \<Rightarrow> bytes \<Rightarrow> bool \<Rightarrow> SwQuicFrame" where
  "stream sid off d f =
     (frame Stream)\<lparr>streamId := sid, offset := off, data := d, fin := f\<rparr>"

definition maxData :: "u64 \<Rightarrow> SwQuicFrame" where
  "maxData m = (frame MaxData)\<lparr>maximum := m\<rparr>"

definition maxStreamData :: "u64 \<Rightarrow> u64 \<Rightarrow> SwQuicFrame" where
  "maxStreamData sid m = (frame MaxStreamData)\<lparr>streamId := sid, maximum := m\<rparr>"

definition maxStreams :: "bool \<Rightarrow> u64 \<Rightarrow> SwQuicFrame" where
  "maxStreams bidi m = (frame MaxStreams)\<lparr>isBidirectional := bidi, maximum := m\<rparr>"

definition dataBlocked :: "u64 \<Rightarrow> SwQuicFrame" where
  "dataBlocked limit = (frame DataBlocked)\<lparr>maximum := limit\<rparr>"

definition streamDataBlocked :: "u64 \<Rightarrow> u64 \<Rightarrow> SwQuicFrame" where
  "streamDataBlocked sid limit = (frame StreamDataBlocked)\<lparr>streamId := sid, maximum := limit\<rparr>"

definition streamsBlocked :: "bool \<Rightarrow> u64 \<Rightarrow> SwQuicFrame" where
  "streamsBlocked bidi limit = (frame StreamsBlocked)\<lparr>isBidirectional := bidi, maximum := limit\<rparr>"

definition newConnectionId :: "u64 \<Rightarrow> u64 \<Rightarrow> bytes \<Rightarrow> bytes \<Rightarrow> SwQuicFrame" where
  "newConnectionId seq retire cid token =
     (frame NewConnectionId)\<lparr>sequenceNumber := seq, retirePriorTo := retire,
       connectionId := cid, statelessResetToken := token\<rparr>"

definition retireConnectionId :: "u64 \<Rightarrow> SwQuicFrame" where
  "retireConnectionId seq = (frame RetireConnectionId)\<lparr>sequenceNumber := seq\<rparr>"

definition pathChallenge :: "bytes \<Rightarrow> SwQuicFrame" where
  "pathChallenge d = (frame PathChallenge)\<lparr>data := d\<rparr>"

definition pathResponse :: "bytes \<Rightarrow> SwQuicFrame" where
  "pathResponse d = (frame PathResponse)\<lparr>data := d\<rparr>"

definition connectionClose :: "u64 \<Rightarrow> u64 \<Rightarrow> bytes \<Rightarrow> SwQuicFrame" where
  "connectionClose code ftype reason =
     (frame ConnectionClose)\<lparr>errorCode := code, errorFrameType := ftype,
       reasonPhrase := reason, isApplicationClose := False\<rparr>"

definition applicationClose :: "u64 \<Rightarrow> bytes \<Rightarrow> SwQuicFrame" where
  "applicationClose code reason =
     (frame ConnectionClose)\<lparr>errorCode := code, reasonPhrase := reason,
       isApplicationClose := True\<rparr>"

definition handshakeDone :: SwQuicFrame where
  "handshakeDone = frame HandshakeDone"

definition datagram :: "bytes \<Rightarrow> SwQuicFrame" where
  "datagram d = (frame Datagram)\<lparr>data := d\<rparr>"

lemmas factory_defs =
  padding_def ping_def ack_def ackWithEcn_def resetStream_def resetStreamAt_def
  stopSending_def crypto_def newToken_def stream_def maxData_def maxStreamData_def
  maxStreams_def dataBlocked_def streamDataBlocked_def streamsBlocked_def
  newConnectionId_def retireConnectionId_def pathChallenge_def pathResponse_def
  connectionClose_def applicationClose_def handshakeDone_def datagram_def

end
