(* ===== verification/Sw_ByteArray.thy ===== *)
theory Sw_ByteArray
  imports Sw_Prelude
begin

text \<open>
  The slicing operation of \<open>SwByteArray\<close> (\<open>src/core/types/SwByteArray.h\<close>), which every codec
  uses on its input. A byte array is its list of bytes; the flag that tells a null array
  from an empty one is not part of the model, because no modelled operation reads it.
  \<open>mid\<close> takes two C \<open>int\<close>s, so a caller that holds \<open>std::size_t\<close> values casts them first.
\<close>

definition sanitizePosition :: "int \<Rightarrow> nat \<Rightarrow> nat" where
  "sanitizePosition pos limit =
     (if pos < 0 then 0 else if nat pos > limit then limit else nat pos)"

definition slice :: "bytes \<Rightarrow> nat \<Rightarrow> nat \<Rightarrow> bytes" where
  "slice b pos len = (if len = 0 then [] else take len (drop pos b))"

definition mid :: "bytes \<Rightarrow> int \<Rightarrow> int \<Rightarrow> bytes" where
  "mid b pos len =
     (let start = sanitizePosition pos (length b);
          n = (if len < 0 then length b - start else min (nat len) (length b - start))
      in slice b start n)"

lemma slice_eq: "slice b pos len = take len (drop pos b)"
  by (simp add: slice_def)

lemma mid_to_int:
  assumes "pos + len \<le> length b" and "pos < 2 ^ 31" and "len < 2 ^ 31"
  shows "mid b (to_int pos) (to_int len) = take len (drop pos b)"
  using assms by (simp add: mid_def to_int_small sanitizePosition_def slice_eq)

lemma mid_cast:
  assumes "pos + len \<le> length b" and "length b < 2 ^ 31"
  shows "mid b (to_int pos) (to_int len) = take len (drop pos b)"
  using assms by (intro mid_to_int) simp_all

lemma mid_append:
  assumes "length (pre @ bs @ suf) < 2 ^ 31"
  shows "mid (pre @ bs @ suf) (to_int (length pre)) (to_int (length bs)) = bs"
  using assms by (subst mid_cast) auto

lemma mid_length_le: "length (mid b pos len) \<le> length b"
  by (auto simp: mid_def slice_eq Let_def min_def)

end
