(* ===== verification/Quic_VarInt.thy ===== *)
theory Quic_VarInt
  imports Sw_ByteArray
begin

text \<open>
  \<open>SwQuicVarIntCodec\<close> (\<open>src/core/io/quic/SwQuicVarIntCodec.h\<close>): QUIC variable-length integers
  of 1, 2, 4 or 8 bytes, the two top bits of the first byte giving the length. The theory
  shows that decoding inverts encoding, that a decoder never leaves its buffer and always
  moves on, and that the integers form a prefix-free wire format.
\<close>

definition maxValue :: u64 where
  "maxValue = 0x3fffffffffffffff"

definition appendByte :: "bytes \<Rightarrow> u8 \<Rightarrow> bytes" where
  "appendByte outBytes value = outBytes @ [value]"

definition appendBigEndian :: "bytes \<Rightarrow> u64 \<Rightarrow> nat \<Rightarrow> bytes" where
  "appendBigEndian outBytes value byteCount =
     foldl (\<lambda>out i. let shift = (byteCount - 1 - i) * 8
                    in appendByte out (ucast (drop_bit shift value AND 0xff)))
       outBytes [0..<byteCount]"

definition VarInt_encode :: "u64 \<Rightarrow> writer" where
  "VarInt_encode value outBytes =
     (if value > maxValue then (outBytes, Some ''QUIC variable integer is too large'')
      else if value \<le> 0x3f then (appendByte outBytes (ucast value), None)
      else if value \<le> 0x3fff then (appendBigEndian outBytes (value OR 0x4000) 2, None)
      else if value \<le> 0x3fffffff then (appendBigEndian outBytes (value OR 0x80000000) 4, None)
      else (appendBigEndian outBytes (value OR 0xc000000000000000) 8, None))"

definition VarInt_decode :: "u64 reader" where
  "VarInt_decode bytes offset =
     (if offset \<ge> length bytes then (Inl ''QUIC variable integer is missing'', offset)
      else
        let first = bytes ! offset;
            prefix = drop_bit 6 first;
            byteCount = (push_bit (unat prefix) 1 :: nat)
        in if size_sub (length bytes) offset < byteCount
           then (Inl ''QUIC variable integer is truncated'', offset)
           else
             let encoded = foldl (\<lambda>acc i. push_bit 8 acc OR ucast (bytes ! (offset + i)))
                             (0 :: u64) [0..<byteCount];
                 outValue = (if byteCount = 1 then encoded AND 0x3f
                             else if byteCount = 2 then encoded AND 0x3fff
                             else if byteCount = 4 then encoded AND 0x3fffffff
                             else encoded AND maxValue)
             in (Inr outValue, offset + byteCount))"

definition VarInt_encodedSize :: "u64 \<Rightarrow> nat \<times> bool" where
  "VarInt_encodedSize value =
     (if value \<le> 0x3f then 1
      else if value \<le> 0x3fff then 2
      else if value \<le> 0x3fffffff then 4
      else if value \<le> maxValue then 8
      else 0, value \<le> maxValue)"

subsection \<open>The bytes of a variable-length integer\<close>

definition varint_bytes :: "u64 \<Rightarrow> bytes" where
  "varint_bytes v = fst (VarInt_encode v [])"

lemma appendBigEndian_eq: "appendBigEndian out v n = out @ be_bytes n v"
  by (simp add: appendBigEndian_def appendByte_def be_bytes_def foldl_append_map Let_def)

lemma VarInt_encode_eq:
  "VarInt_encode v out =
     (if v > maxValue then (out, Some ''QUIC variable integer is too large'')
      else (out @ varint_bytes v, None))"
  by (simp add: varint_bytes_def VarInt_encode_def appendBigEndian_eq appendByte_def)

lemma appends_VarInt [appends_intros]:
  "v \<le> maxValue \<Longrightarrow> appends (VarInt_encode v) (varint_bytes v)"
  by (simp add: appends_def VarInt_encode_eq)

lemma be_bytes_hd: "n > 0 \<Longrightarrow> be_bytes n v ! 0 = ucast (drop_bit ((n - 1) * 8) v AND 0xff)"
  by (cases n) (simp_all add: be_bytes_Suc)

lemma decode_loop_eq:
  "foldl (\<lambda>acc i. push_bit 8 acc OR ucast ((pre @ bs @ suf) ! (length pre + i))) a [0..<length bs]
    = be_value a bs"
proof -
  have "foldl (\<lambda>acc i. push_bit 8 acc OR ucast ((pre @ bs @ suf) ! (length pre + i))) a [0..<length bs]
      = be_value a (map (\<lambda>i. (pre @ bs @ suf) ! (length pre + i)) [0..<length bs])"
    by (simp add: be_value_def foldl_map)
  then show ?thesis by (simp only: map_nth_slice)
qed

text \<open>The length tag sits in the two bits above the value; neither disturbs the other.\<close>

lemma tag_value:
  fixes v t :: u64
  assumes "take_bit m v = v"
  shows "(v OR push_bit m t) AND mask m = v"
  by (subst (2) assms [symmetric]) (rule bit_word_eqI, auto simp: bit_simps)

lemma tag_bits:
  fixes v t :: u64
  assumes "take_bit (k + 6) v = v" and "take_bit 2 t = t" and "k + 8 \<le> 64"
  shows "drop_bit 6 (ucast (drop_bit k (v OR push_bit (k + 6) t) AND 0xff) :: u8) = ucast t"
proof -
  have ff: "(0xff :: u64) = mask 8" by (simp add: mask_eq_exp_minus_1)
  have v: "i < k + 6" if "bit v i" for i
    using assms(1) that by (metis bit_take_bit_iff)
  have t: "i < 2" if "bit t i" for i
    using assms(2) that by (metis bit_take_bit_iff)
  show ?thesis unfolding ff
    using assms(3) by (intro bit_word_eqI) (auto simp: bit_simps dest: v t)
qed

lemma take_bit_self: "unat v < 2 ^ n \<Longrightarrow> take_bit n v = v" for v :: u64
  by (simp add: word_unat_eq_iff unsigned_take_bit_eq take_bit_nat_eq_self)

lemma ucast_and_ff: "(ucast (v AND 0xff) :: u8) = ucast v" for v :: u64
proof -
  have ff: "(0xff :: u64) = mask 8" by (simp add: mask_eq_exp_minus_1)
  show ?thesis unfolding ff by (rule bit_word_eqI) (auto simp: bit_simps)
qed

lemma VarInt_decode_at:
  assumes "bs \<noteq> []" and "length bs = push_bit (unat (drop_bit 6 (bs ! 0))) 1"
  shows "VarInt_decode (pre @ bs @ suf) (length pre) =
    (Inr (be_value 0 bs AND
        (if length bs = 1 then 0x3f else if length bs = 2 then 0x3fff
         else if length bs = 4 then 0x3fffffff else maxValue)),
     length pre + length bs)"
proof -
  have hd: "(pre @ bs @ suf) ! length pre = bs ! 0"
    using assms(1) by (simp add: nth_append)
  show ?thesis
    unfolding VarInt_decode_def hd assms(2) [symmetric] Let_def decode_loop_eq
    using assms(1) by simp
qed

lemma be_tagged:
  fixes v t :: u64
  assumes "n = push_bit (unat t) 1" and "unat v < 2 ^ (8 * n - 2)" and "unat t < 4"
  defines "bs \<equiv> be_bytes n (v OR push_bit (8 * n - 2) t)"
  shows "drop_bit 6 (bs ! 0) = ucast t" and "be_value 0 bs AND mask (8 * n - 2) = v"
    and "length bs = push_bit (unat (drop_bit 6 (bs ! 0))) 1"
proof -
  have n: "1 \<le> n \<and> n \<le> 8"
  proof -
    have "unat t = 0 \<or> unat t = 1 \<or> unat t = 2 \<or> unat t = 3" using assms(3) by linarith
    then show ?thesis using assms(1) by (auto simp: push_bit_eq_mult)
  qed
  have t2: "take_bit 2 t = t" using assms(3) by (intro take_bit_self) simp
  have vs: "take_bit (8 * n - 2) v = v" using assms(2) by (rule take_bit_self)
  have k: "(n - 1) * 8 + 6 = 8 * n - 2" using n by arith
  have "bs ! 0 = ucast (drop_bit ((n - 1) * 8) (v OR push_bit ((n - 1) * 8 + 6) t) AND 0xff)"
    unfolding bs_def k using n by (intro be_bytes_hd) simp
  moreover have "drop_bit 6 (ucast (drop_bit ((n - 1) * 8) (v OR push_bit ((n - 1) * 8 + 6) t) AND 0xff) :: u8)
      = ucast t"
    by (rule tag_bits) (use vs t2 n k in auto)
  ultimately show tag: "drop_bit 6 (bs ! 0) = ucast t" by (simp only:)
  have "take_bit (8 * n) (v OR push_bit (8 * n - 2) t) AND mask (8 * n - 2)
      = (v OR push_bit (8 * n - 2) t) AND mask (8 * n - 2)"
    by (rule bit_word_eqI) (auto simp: bit_simps)
  then show "be_value 0 bs AND mask (8 * n - 2) = v"
    unfolding bs_def be_value_be_bytes using tag_value [OF vs, of t] by simp
  have "unat (ucast t :: u8) = unat t"
    using assms(3) by (simp add: unsigned_ucast_eq take_bit_nat_eq_self)
  moreover have "length bs = n" by (simp add: bs_def)
  ultimately show "length bs = push_bit (unat (drop_bit 6 (bs ! 0))) 1"
    using assms(1) tag by simp
qed

lemma VarInt_decode_varint_bytes:
  assumes "v \<le> maxValue"
  shows "VarInt_decode (pre @ varint_bytes v @ suf) (length pre) =
    (Inr v, length pre + length (varint_bytes v))"
proof -
  have reads_be: "VarInt_decode (pre @ bs @ suf) (length pre) = (Inr v, length pre + length bs)"
    if "bs = be_bytes n (v OR push_bit (8 * n - 2) t)" and "n = push_bit (unat t) 1"
      and "unat t < 4" and "unat v < 2 ^ (8 * n - 2)" for n t and bs
  proof -
    note tagged = be_tagged [OF that(2,4,3), folded that(1)]
    have n: "n = 1 \<or> n = 2 \<or> n = 4 \<or> n = 8"
    proof -
      have "unat t = 0 \<or> unat t = 1 \<or> unat t = 2 \<or> unat t = 3" using that(3) by linarith
      then show ?thesis using that(2) by (auto simp: push_bit_eq_mult)
    qed
    then have "bs \<noteq> []" using that(1) by (metis length_be_bytes length_0_conv zero_neq_numeral zero_neq_one)
    moreover have "(if length bs = 1 then 0x3f else if length bs = 2 then 0x3fff
         else if length bs = 4 then 0x3fffffff else maxValue) = (mask (8 * n - 2) :: u64)"
      using n that(1) by (auto simp: maxValue_def mask_eq_exp_minus_1)
    ultimately show "VarInt_decode (pre @ bs @ suf) (length pre) = (Inr v, length pre + length bs)"
      using VarInt_decode_at [OF _ tagged(3)] tagged(2) by simp
  qed
  consider "v \<le> 0x3f" | "0x3f < v" "v \<le> 0x3fff" | "0x3fff < v" "v \<le> 0x3fffffff"
    | "0x3fffffff < v" by fastforce
  then show ?thesis
  proof cases
    case 1
    have "varint_bytes v = be_bytes 1 (v OR push_bit (8 * 1 - 2) 0)"
      using 1 assms
      by (simp add: varint_bytes_def VarInt_encode_def appendByte_def be_bytes_def ucast_and_ff leD)
    then show ?thesis
      by (rule reads_be [where t = 0]) (use 1 in \<open>simp_all add: word_le_nat_alt\<close>)
  next
    case 2
    have "varint_bytes v = be_bytes 2 (v OR push_bit (8 * 2 - 2) 1)"
      using 2 assms by (simp add: varint_bytes_def VarInt_encode_def appendBigEndian_eq leD linorder_not_le [symmetric])
    then show ?thesis
      by (rule reads_be [where t = 1]) (use 2 in \<open>simp_all add: word_le_nat_alt push_bit_eq_mult\<close>)
  next
    case 3
    have "0x3f < v" by (rule less_trans [OF _ 3(1)]) simp
    then have "varint_bytes v = be_bytes 4 (v OR push_bit (8 * 4 - 2) 2)"
      using 3 assms by (simp add: varint_bytes_def VarInt_encode_def appendBigEndian_eq leD linorder_not_le [symmetric])
    then show ?thesis
      by (rule reads_be [where t = 2]) (use 3 in \<open>simp_all add: word_le_nat_alt push_bit_eq_mult\<close>)
  next
    case 4
    have "0x3f < v" "0x3fff < v" by (rule less_trans [OF _ 4], simp)+
    then have "varint_bytes v = be_bytes 8 (v OR push_bit (8 * 8 - 2) 3)"
      using 4 assms by (simp add: varint_bytes_def VarInt_encode_def appendBigEndian_eq leD linorder_not_le [symmetric])
    then show ?thesis
      by (rule reads_be [where t = 3])
        (use assms in \<open>simp_all add: word_le_nat_alt push_bit_eq_mult maxValue_def\<close>)
  qed
qed

lemma reads_VarInt [reads_intros]:
  "v \<le> maxValue \<Longrightarrow> reads VarInt_decode (varint_bytes v) v"
  by (rule readsI) (rule VarInt_decode_varint_bytes)

lemma varint_bytes_length:
  "v \<le> maxValue \<Longrightarrow> length (varint_bytes v) = fst (VarInt_encodedSize v)"
  by (simp add: varint_bytes_def VarInt_encode_def VarInt_encodedSize_def appendBigEndian_eq
      appendByte_def leD)

lemma varint_bytes_nonempty: "v \<le> maxValue \<Longrightarrow> varint_bytes v \<noteq> []"
  using varint_bytes_length [of v] by (auto simp: VarInt_encodedSize_def split: if_splits)

lemma byteCount_cases:
  fixes b :: u8
  defines "n \<equiv> (push_bit (unat (drop_bit 6 b)) 1 :: nat)"
  shows "n = 1 \<or> n = 2 \<or> n = 4 \<or> n = 8"
proof -
  have "unat (drop_bit 6 b) < 4"
    using unsigned_less [of b, where 'a = nat] by (simp add: unat_div_distrib drop_bit_eq_div)
  then have "unat (drop_bit 6 b) = 0 \<or> unat (drop_bit 6 b) = 1 \<or> unat (drop_bit 6 b) = 2 \<or>
      unat (drop_bit 6 b) = 3" by linarith
  then show ?thesis by (auto simp: n_def push_bit_eq_mult)
qed

lemma VarInt_decode_cases:
  obtains (missing) "offset \<ge> length bytes"
      "VarInt_decode bytes offset = (Inl ''QUIC variable integer is missing'', offset)"
    | (truncated) "offset < length bytes"
      "VarInt_decode bytes offset = (Inl ''QUIC variable integer is truncated'', offset)"
    | (decoded) v n where "VarInt_decode bytes offset = (Inr v, offset + n)" "1 \<le> n"
      "offset + n \<le> length bytes" "v \<le> maxValue" "fst (VarInt_encodedSize v) \<le> n"
proof (cases "offset < length bytes")
  case True
  define n where "n = (push_bit (unat (drop_bit 6 (bytes ! offset))) 1 :: nat)"
  have n: "1 \<le> n" by (simp add: n_def push_bit_eq_mult)
  show thesis
  proof (cases "length bytes - offset < n")
    case True
    with \<open>offset < length bytes\<close> that(2) show thesis
      by (simp add: VarInt_decode_def n_def Let_def)
  next
    case False
    define e where "e = foldl (\<lambda>acc i. push_bit 8 acc OR ucast (bytes ! (offset + i))) (0 :: u64) [0..<n]"
    define m where "m = (if n = 1 then 0x3f else if n = 2 then 0x3fff
      else if n = 4 then 0x3fffffff else maxValue)"
    have dec: "VarInt_decode bytes offset = (Inr (e AND m), offset + n)"
      using \<open>offset < length bytes\<close> False
      unfolding VarInt_decode_def Let_def n_def [symmetric] e_def [symmetric] m_def by simp
    have max: "e AND m \<le> maxValue"
      by (rule order.trans [OF word_and_le1]) (simp add: m_def maxValue_def)
    have size: "fst (VarInt_encodedSize (e AND m)) \<le> n"
    proof -
      have le: "e AND m \<le> m" by (rule word_and_le1)
      have "n = 1 \<or> n = 2 \<or> n = 4 \<or> n = 8"
        unfolding n_def by (rule byteCount_cases)
      then show ?thesis using le by (elim disjE) (simp_all add: m_def VarInt_encodedSize_def)
    qed
    have "offset + n \<le> length bytes" using \<open>offset < length bytes\<close> False by simp
    with dec n show thesis using max size by (rule that(3))
  qed
qed (use that(1) in \<open>simp add: VarInt_decode_def\<close>)

lemma safe_VarInt [safe_intros]: "safe_reader VarInt_decode"
proof (rule safe_readerI)
  fix buf :: bytes and off
  assume "off \<le> length buf"
  then show "off \<le> snd (VarInt_decode buf off) \<and> snd (VarInt_decode buf off) \<le> length buf"
    by (cases rule: VarInt_decode_cases [of buf off]) auto
qed

lemma consuming_VarInt: "consuming VarInt_decode"
  unfolding consuming_def
proof (intro allI impI)
  fix buf :: bytes and off v off'
  assume "VarInt_decode buf off = (Inr v, off')"
  then show "off < off' \<and> off' \<le> length buf"
    by (cases rule: VarInt_decode_cases [of buf off]) auto
qed

lemma VarInt_decode_max: "VarInt_decode buf off = (Inr v, off') \<Longrightarrow> v \<le> maxValue"
  by (cases rule: VarInt_decode_cases [of buf off]) auto

lemma VarInt_decode_shortest:
  assumes "VarInt_decode buf off = (Inr v, off')"
  shows "length (varint_bytes v) \<le> off' - off" and "off < off'" and "off' \<le> length buf"
proof -
  have "fst (VarInt_encodedSize v) \<le> off' - off \<and> off < off' \<and> off' \<le> length buf \<and> v \<le> maxValue"
    using assms by (cases rule: VarInt_decode_cases [of buf off]) auto
  then show "length (varint_bytes v) \<le> off' - off" "off < off'" "off' \<le> length buf"
    using varint_bytes_length [of v] by simp_all
qed

lemma small_le_max: "n < 2 ^ 32 \<Longrightarrow> (word_of_nat n :: u64) \<le> maxValue"
  by (simp add: maxValue_def word_le_nat_alt unsigned_of_nat take_bit_nat_eq_self)

lemma length_le_max: "n < 2 ^ 31 \<Longrightarrow> (word_of_nat n :: u64) \<le> maxValue"
  by (rule small_le_max) simp

lemma varint_bytes_short: "v \<le> maxValue \<Longrightarrow> length (varint_bytes v) < 2 ^ 31"
  by (simp add: varint_bytes_length VarInt_encodedSize_def)

lemma varint_bytes_mono:
  assumes "a \<le> b" and "b \<le> maxValue"
  shows "length (varint_bytes a) \<le> length (varint_bytes b)"
proof -
  have "a \<le> maxValue" using assms by simp
  with assms show ?thesis
    by (simp add: varint_bytes_length VarInt_encodedSize_def word_le_nat_alt)
qed

interpretation varint: wire_format varint_bytes VarInt_decode "\<lambda>v. v \<le> maxValue"
  by unfold_locales (simp_all add: reads_VarInt varint_bytes_nonempty)

subsection \<open>Properties of the codec\<close>

text \<open>
  C3. A value up to \<open>maxValue\<close> is appended in exactly \<open>encodedSize\<close> bytes and read back from
  wherever these bytes stand, with the offset right behind them; a larger value is refused
  and leaves the output buffer as it was.
\<close>

theorem VarInt_decode_encode:
  "if v \<le> maxValue
   then \<exists>bs. VarInt_encode v out = (out @ bs, None) \<and> VarInt_encodedSize v = (length bs, True) \<and>
          VarInt_decode (out @ bs @ suf) (length out) = (Inr v, length (out @ bs))
   else VarInt_encode v out = (out, Some ''QUIC variable integer is too large'') \<and>
        VarInt_encodedSize v = (0, False)"
proof (cases "v \<le> maxValue")
  case True
  have "VarInt_encodedSize v = (length (varint_bytes v), True)"
    using True varint_bytes_length [OF True] by (simp add: VarInt_encodedSize_def)
  with True show ?thesis
    using VarInt_decode_varint_bytes [OF True] by (auto simp: VarInt_encode_eq leD)
next
  case False
  then have "\<not> v \<le> 0x3f" "\<not> v \<le> 0x3fff" "\<not> v \<le> 0x3fffffff"
    by (auto simp: maxValue_def word_le_nat_alt)
  with False show ?thesis by (simp add: VarInt_encode_eq VarInt_encodedSize_def)
qed

text \<open>
  The decoder never reads past the buffer and always moves on; it accepts encodings
  longer than needed, and encoding what it read never takes more bytes than it consumed.
\<close>

theorem VarInt_decode_bounds:
  assumes "VarInt_decode buf off = (Inr v, off')"
  shows "off < off' \<and> off' \<le> length buf \<and> v \<le> maxValue \<and>
    length (fst (VarInt_encode v [])) \<le> off' - off"
proof -
  show ?thesis
    using VarInt_decode_shortest [OF assms] VarInt_decode_max [OF assms] by (simp add: varint_bytes_def)
qed

theorem VarInt_decode_bounds_witness:
  "VarInt_decode [0xff, 0x40, 0x25] 1 = (Inr 0x25, 3) \<and> length (fst (VarInt_encode 0x25 [])) \<le> 2"
proof -
  have "VarInt_decode [0xff, 0x40, 0x25] 1 = (Inr 0x25, 3)"
    using VarInt_decode_at [of "[0x40, 0x25]" "[0xff]" "[]"] by (simp add: be_value_def)
  with VarInt_decode_bounds [of "[0xff, 0x40, 0x25]" 1 "0x25" 3] show ?thesis by simp
qed

end
