(* ===== verification/Quic_FrameCodec.thy ===== *)
theory Quic_FrameCodec
  imports Quic_Frame Quic_VarInt
begin

text \<open>
  \<open>SwQuicFrameCodec\<close> (\<open>src/core/io/quic/SwQuicFrameCodec.h\<close>): one encoder and one decoder for
  each kind of frame, the dispatch on the type byte, and the loops over whole packet
  payloads. The theory shows that every decoder stays inside the payload and moves on
  (so the payload loop terminates), and that decoding inverts encoding, with a run of
  adjacent PADDING frames coming back as one.
\<close>

subsection \<open>Helpers of the codec\<close>

definition putByte :: "u8 \<Rightarrow> writer" where
  "putByte v = putW [v]"

definition readByte :: "u8 reader" where
  "readByte buf off =
     (if off \<ge> length buf then (Inl ''QUIC frame is truncated'', off)
      else (Inr (buf ! off), off + 1))"

definition appendVarInt :: "u64 \<Rightarrow> writer" where
  "appendVarInt v = VarInt_encode v"

definition readVarInt :: "u64 reader" where
  "readVarInt = VarInt_decode"

definition ensureSizeFits :: "u64 \<Rightarrow> bool" where
  "ensureSizeFits v \<longleftrightarrow> \<not> (unat v > int_max)"

definition readSlice :: "u64 \<Rightarrow> bytes reader" where
  "readSlice len buf off =
     (if \<not> ensureSizeFits len
      then (Inl ''QUIC frame field is too large for SwByteArray slicing'', off)
      else if unat len > size_sub (length buf) off
      then (Inl ''QUIC frame field is truncated'', off)
      else (Inr (mid buf (to_int off) (to_int (unat len))), off + unat len))"

text \<open>\<open>payload.size() - offset\<close>, read at the current offset.\<close>

definition remainingBytes :: "u64 reader" where
  "remainingBytes buf off = (Inr (word_of_nat (size_sub (length buf) off)), off)"

subsection \<open>Encoders\<close>

primrec encodeAckRanges :: "AckRange list \<Rightarrow> writer" where
  "encodeAckRanges [] = returnW"
| "encodeAckRanges (r # rs) =
     seqW (appendVarInt (gap r)) (seqW (appendVarInt (rangeLength r)) (encodeAckRanges rs))"

definition encodeAck :: "SwQuicFrame \<Rightarrow> writer" where
  "encodeAck f =
     seqW (putByte (if hasEcn f then 0x03 else 0x02))
     (seqW (appendVarInt (largestAcknowledged f))
     (seqW (appendVarInt (ackDelay f))
     (seqW (appendVarInt (word_of_nat (length (ackRanges f))))
     (seqW (appendVarInt (firstAckRange f))
     (seqW (encodeAckRanges (ackRanges f))
       (if hasEcn f
        then seqW (appendVarInt (ect0Count f))
               (seqW (appendVarInt (ect1Count f)) (appendVarInt (ecnCeCount f)))
        else returnW))))))"

definition encodeResetStream :: "SwQuicFrame \<Rightarrow> writer" where
  "encodeResetStream f =
     seqW (putByte 0x04) (seqW (appendVarInt (streamId f))
       (seqW (appendVarInt (errorCode f)) (appendVarInt (finalSize f))))"

definition encodeResetStreamAt :: "SwQuicFrame \<Rightarrow> writer" where
  "encodeResetStreamAt f =
     seqW (putByte 0x24) (seqW (appendVarInt (streamId f)) (seqW (appendVarInt (errorCode f))
       (seqW (appendVarInt (finalSize f)) (appendVarInt (reliableSize f)))))"

definition encodeStopSending :: "SwQuicFrame \<Rightarrow> writer" where
  "encodeStopSending f =
     seqW (putByte 0x05) (seqW (appendVarInt (streamId f)) (appendVarInt (errorCode f)))"

definition encodeCrypto :: "SwQuicFrame \<Rightarrow> writer" where
  "encodeCrypto f =
     seqW (putByte 0x06) (seqW (appendVarInt (offset f))
       (seqW (appendVarInt (word_of_nat (length (data f)))) (putW (data f))))"

definition encodeNewToken :: "SwQuicFrame \<Rightarrow> writer" where
  "encodeNewToken f =
     seqW (putByte 0x07) (seqW (appendVarInt (word_of_nat (length (data f)))) (putW (data f)))"

definition encodeStream :: "SwQuicFrame \<Rightarrow> writer" where
  "encodeStream f =
     (let t0 = 0x08 OR 0x02;
          t1 = (if offset f > 0 then t0 OR 0x04 else t0);
          t2 = (if fin f then t1 OR 0x01 else t1)
      in seqW (putByte t2)
         (seqW (appendVarInt (streamId f))
         (seqW (if offset f > 0 then appendVarInt (offset f) else returnW)
         (seqW (appendVarInt (word_of_nat (length (data f)))) (putW (data f))))))"

definition encodeNewConnectionId :: "SwQuicFrame \<Rightarrow> writer" where
  "encodeNewConnectionId f =
     (if length (connectionId f) < 1 \<or> length (connectionId f) > 20
      then failW ''QUIC NEW_CONNECTION_ID length is invalid''
      else if length (statelessResetToken f) \<noteq> 16
      then failW ''QUIC NEW_CONNECTION_ID stateless reset token must be 16 bytes''
      else seqW (putByte 0x18)
        (seqW (appendVarInt (sequenceNumber f))
        (seqW (appendVarInt (retirePriorTo f))
        (seqW (putByte (word_of_nat (length (connectionId f))))
        (seqW (putW (connectionId f)) (putW (statelessResetToken f)))))))"

definition encodePathData :: "SwQuicFrame \<Rightarrow> writer" where
  "encodePathData f =
     (if length (data f) \<noteq> 8 then failW ''QUIC PATH_CHALLENGE/PATH_RESPONSE must carry 8 bytes''
      else seqW (putByte (if frameType f = PathResponse then 0x1b else 0x1a)) (putW (data f)))"

definition encodeConnectionClose :: "SwQuicFrame \<Rightarrow> writer" where
  "encodeConnectionClose f =
     seqW (putByte (if isApplicationClose f then 0x1d else 0x1c))
     (seqW (appendVarInt (errorCode f))
     (seqW (if \<not> isApplicationClose f then appendVarInt (errorFrameType f) else returnW)
     (seqW (appendVarInt (word_of_nat (length (reasonPhrase f)))) (putW (reasonPhrase f)))))"

definition encodeDatagram :: "SwQuicFrame \<Rightarrow> writer" where
  "encodeDatagram f =
     seqW (putByte 0x31) (seqW (appendVarInt (word_of_nat (length (data f)))) (putW (data f)))"

definition encodeFrame :: "SwQuicFrame \<Rightarrow> writer" where
  "encodeFrame f =
     (case frameType f of
        Padding \<Rightarrow> putW (replicate (paddingLength f) 0x00)
      | Ping \<Rightarrow> putByte 0x01
      | Ack \<Rightarrow> encodeAck f
      | ResetStream \<Rightarrow> encodeResetStream f
      | ResetStreamAt \<Rightarrow> encodeResetStreamAt f
      | StopSending \<Rightarrow> encodeStopSending f
      | Crypto \<Rightarrow> encodeCrypto f
      | NewToken \<Rightarrow> encodeNewToken f
      | Stream \<Rightarrow> encodeStream f
      | MaxData \<Rightarrow> seqW (putByte 0x10) (appendVarInt (maximum f))
      | MaxStreamData \<Rightarrow>
          seqW (putByte 0x11) (seqW (appendVarInt (streamId f)) (appendVarInt (maximum f)))
      | MaxStreams \<Rightarrow>
          seqW (putByte (if isBidirectional f then 0x12 else 0x13)) (appendVarInt (maximum f))
      | DataBlocked \<Rightarrow> seqW (putByte 0x14) (appendVarInt (maximum f))
      | StreamDataBlocked \<Rightarrow>
          seqW (putByte 0x15) (seqW (appendVarInt (streamId f)) (appendVarInt (maximum f)))
      | StreamsBlocked \<Rightarrow>
          seqW (putByte (if isBidirectional f then 0x16 else 0x17)) (appendVarInt (maximum f))
      | NewConnectionId \<Rightarrow> encodeNewConnectionId f
      | RetireConnectionId \<Rightarrow> seqW (putByte 0x19) (appendVarInt (sequenceNumber f))
      | PathChallenge \<Rightarrow> encodePathData f
      | PathResponse \<Rightarrow> encodePathData f
      | ConnectionClose \<Rightarrow> encodeConnectionClose f
      | HandshakeDone \<Rightarrow> putByte 0x1e
      | Datagram \<Rightarrow> encodeDatagram f)"

primrec encodeFrames_loop :: "SwQuicFrame list \<Rightarrow> writer" where
  "encodeFrames_loop [] = returnW"
| "encodeFrames_loop (f # fs) = seqW (encodeFrame f) (encodeFrames_loop fs)"

definition encodeFrames :: "SwQuicFrame list \<Rightarrow> writer" where
  "encodeFrames fs out = encodeFrames_loop fs []"

subsection \<open>Decoders\<close>

primrec decodeAckRanges :: "nat \<Rightarrow> AckRange list \<Rightarrow> AckRange list reader" where
  "decodeAckRanges 0 ranges = returnR ranges"
| "decodeAckRanges (Suc n) ranges =
     bindR readVarInt (\<lambda>g. bindR readVarInt (\<lambda>l.
       decodeAckRanges n (ranges @ [\<lparr>gap = g, rangeLength = l\<rparr>])))"

definition decodeAck :: "bool \<Rightarrow> SwQuicFrame reader" where
  "decodeAck ecn =
     bindR readVarInt (\<lambda>largest. bindR readVarInt (\<lambda>delay.
     bindR readVarInt (\<lambda>count. bindR readVarInt (\<lambda>first.
       if count > 8192 then failR ''QUIC ACK frame has too many ranges for this decoder''
       else bindR (decodeAckRanges (unat count) []) (\<lambda>ranges.
         if \<not> ecn then returnR (ack largest delay first ranges)
         else bindR readVarInt (\<lambda>ect0. bindR readVarInt (\<lambda>ect1. bindR readVarInt (\<lambda>ecnCe.
           returnR (ackWithEcn largest delay first ranges ect0 ect1 ecnCe)))))))))"

definition decodeResetStream :: "SwQuicFrame reader" where
  "decodeResetStream =
     bindR readVarInt (\<lambda>sid. bindR readVarInt (\<lambda>code. bindR readVarInt (\<lambda>final.
       returnR (resetStream sid code final))))"

definition decodeResetStreamAt :: "SwQuicFrame reader" where
  "decodeResetStreamAt =
     bindR readVarInt (\<lambda>sid. bindR readVarInt (\<lambda>code. bindR readVarInt (\<lambda>final.
     bindR readVarInt (\<lambda>reliable.
       if reliable > final then failR ''RESET_STREAM_AT reliable size exceeds final size''
       else returnR (resetStreamAt sid code final reliable)))))"

definition decodeStopSending :: "SwQuicFrame reader" where
  "decodeStopSending =
     bindR readVarInt (\<lambda>sid. bindR readVarInt (\<lambda>code. returnR (stopSending sid code)))"

definition decodeCrypto :: "SwQuicFrame reader" where
  "decodeCrypto =
     bindR readVarInt (\<lambda>foff. bindR readVarInt (\<lambda>len. bindR (readSlice len) (\<lambda>d.
       returnR (crypto foff d))))"

definition decodeNewToken :: "SwQuicFrame reader" where
  "decodeNewToken =
     bindR readVarInt (\<lambda>len. bindR (readSlice len) (\<lambda>token. returnR (newToken token)))"

definition decodeStream :: "u8 \<Rightarrow> SwQuicFrame reader" where
  "decodeStream t =
     (let hasOffset = (t AND 0x04 \<noteq> 0); hasLength = (t AND 0x02 \<noteq> 0); f = (t AND 0x01 \<noteq> 0)
      in bindR readVarInt (\<lambda>sid.
         bindR (if hasOffset then readVarInt else returnR 0) (\<lambda>streamOffset.
         bindR (if hasLength then readVarInt else remainingBytes) (\<lambda>len.
         bindR (readSlice len) (\<lambda>d.
           returnR (stream sid streamOffset d f))))))"

definition decodeMaxData :: "SwQuicFrame reader" where
  "decodeMaxData = bindR readVarInt (\<lambda>m. returnR (maxData m))"

definition decodeMaxStreamData :: "SwQuicFrame reader" where
  "decodeMaxStreamData =
     bindR readVarInt (\<lambda>sid. bindR readVarInt (\<lambda>m. returnR (maxStreamData sid m)))"

definition decodeMaxStreams :: "bool \<Rightarrow> SwQuicFrame reader" where
  "decodeMaxStreams bidi = bindR readVarInt (\<lambda>m. returnR (maxStreams bidi m))"

definition decodeDataBlocked :: "SwQuicFrame reader" where
  "decodeDataBlocked = bindR readVarInt (\<lambda>limit. returnR (dataBlocked limit))"

definition decodeStreamDataBlocked :: "SwQuicFrame reader" where
  "decodeStreamDataBlocked =
     bindR readVarInt (\<lambda>sid. bindR readVarInt (\<lambda>limit. returnR (streamDataBlocked sid limit)))"

definition decodeStreamsBlocked :: "bool \<Rightarrow> SwQuicFrame reader" where
  "decodeStreamsBlocked bidi = bindR readVarInt (\<lambda>limit. returnR (streamsBlocked bidi limit))"

definition decodeNewConnectionId :: "SwQuicFrame reader" where
  "decodeNewConnectionId =
     bindR readVarInt (\<lambda>seq. bindR readVarInt (\<lambda>retire.
       if retire > seq then failR ''QUIC NEW_CONNECTION_ID retires a future sequence number''
       else bindR readByte (\<lambda>len.
         if len < 1 \<or> len > 20 then failR ''QUIC NEW_CONNECTION_ID length is invalid''
         else bindR (readSlice (ucast len)) (\<lambda>cid. bindR (readSlice 16) (\<lambda>token.
           returnR (newConnectionId seq retire cid token))))))"

definition decodeRetireConnectionId :: "SwQuicFrame reader" where
  "decodeRetireConnectionId = bindR readVarInt (\<lambda>seq. returnR (retireConnectionId seq))"

definition decodePathData :: "bool \<Rightarrow> SwQuicFrame reader" where
  "decodePathData response =
     bindR (readSlice 8) (\<lambda>d. returnR (if response then pathResponse d else pathChallenge d))"

definition decodeConnectionClose :: "bool \<Rightarrow> SwQuicFrame reader" where
  "decodeConnectionClose app =
     bindR readVarInt (\<lambda>code.
     bindR (if \<not> app then readVarInt else returnR 0) (\<lambda>ftype.
     bindR readVarInt (\<lambda>len. bindR (readSlice len) (\<lambda>reason.
       returnR (if app then applicationClose code reason
                else connectionClose code ftype reason)))))"

definition decodeDatagram :: "bool \<Rightarrow> SwQuicFrame reader" where
  "decodeDatagram hasLength =
     bindR (if hasLength then readVarInt else remainingBytes) (\<lambda>len.
     bindR (readSlice len) (\<lambda>d. returnR (datagram d)))"

definition decodeFrameBody :: "u8 \<Rightarrow> SwQuicFrame reader" where
  "decodeFrameBody t =
     (if t = 0x00 then returnR (padding 1)
      else if t = 0x01 then returnR ping
      else if t = 0x02 \<or> t = 0x03 then decodeAck (t = 0x03)
      else if t = 0x04 then decodeResetStream
      else if t = 0x05 then decodeStopSending
      else if t = 0x06 then decodeCrypto
      else if t = 0x07 then decodeNewToken
      else if t \<in> {0x08, 0x09, 0x0a, 0x0b, 0x0c, 0x0d, 0x0e, 0x0f} then decodeStream t
      else if t = 0x10 then decodeMaxData
      else if t = 0x11 then decodeMaxStreamData
      else if t = 0x12 \<or> t = 0x13 then decodeMaxStreams (t = 0x12)
      else if t = 0x14 then decodeDataBlocked
      else if t = 0x15 then decodeStreamDataBlocked
      else if t = 0x16 \<or> t = 0x17 then decodeStreamsBlocked (t = 0x16)
      else if t = 0x18 then decodeNewConnectionId
      else if t = 0x19 then decodeRetireConnectionId
      else if t = 0x1a then decodePathData False
      else if t = 0x1b then decodePathData True
      else if t = 0x1c \<or> t = 0x1d then decodeConnectionClose (t = 0x1d)
      else if t = 0x1e then returnR handshakeDone
      else if t = 0x24 then decodeResetStreamAt
      else if t = 0x30 \<or> t = 0x31 then decodeDatagram (t = 0x31)
      else failR ''Unsupported QUIC frame type'')"

definition decodeFrame :: "SwQuicFrame reader" where
  "decodeFrame = bindR readByte decodeFrameBody"

subsection \<open>The decoders stay inside the payload and move on\<close>

lemma safe_readByte [safe_intros]: "safe_reader readByte"
  by (auto simp: safe_reader_def readByte_def)

lemma consuming_readByte: "consuming readByte"
  by (auto simp: consuming_def readByte_def split: if_splits)

lemma safe_readVarInt [safe_intros]: "safe_reader readVarInt"
  by (simp add: readVarInt_def safe_VarInt)

lemma safe_readSlice [safe_intros]: "safe_reader (readSlice len)"
  by (auto simp: safe_reader_def readSlice_def size_sub_def)

lemma safe_remainingBytes [safe_intros]: "safe_reader remainingBytes"
  by (simp add: safe_reader_def remainingBytes_def)

lemma safe_decodeAckRanges [safe_intros]: "safe_reader (decodeAckRanges n ranges)"
  by (induction n arbitrary: ranges) (auto intro!: safe_intros)

lemmas decoder_defs =
  decodeAck_def decodeResetStream_def decodeResetStreamAt_def decodeStopSending_def
  decodeCrypto_def decodeNewToken_def decodeStream_def decodeMaxData_def
  decodeMaxStreamData_def decodeMaxStreams_def decodeDataBlocked_def
  decodeStreamDataBlocked_def decodeStreamsBlocked_def decodeNewConnectionId_def
  decodeRetireConnectionId_def decodePathData_def decodeConnectionClose_def
  decodeDatagram_def

lemma safe_decodeFrameBody [safe_intros]: "safe_reader (decodeFrameBody t)"
  unfolding decodeFrameBody_def decoder_defs Let_def by (intro safe_intros)

lemma safe_decodeFrame: "safe_reader decodeFrame"
  unfolding decodeFrame_def by (intro safe_intros)

lemma consuming_decodeFrame: "consuming decodeFrame"
  unfolding decodeFrame_def by (rule consuming_bindR [OF consuming_readByte safe_decodeFrameBody])

subsection \<open>Whole payloads\<close>

text \<open>The inner loop over a run of zero bytes: the first offset past the run.\<close>

function skipZeros :: "bytes \<Rightarrow> nat \<Rightarrow> nat" where
  "skipZeros buf off = (if off < length buf \<and> buf ! off = 0 then skipZeros buf (off + 1) else off)"
  by pat_completeness auto
termination
  by (relation "measure (\<lambda>(buf, off). length buf - off)") auto

declare skipZeros.simps [simp del]

lemma skipZeros_ge: "off \<le> skipZeros buf off"
proof (induction buf off rule: skipZeros.induct)
  case (1 buf off)
  then show ?case by (subst skipZeros.simps) auto
qed

function decodeFrames_loop ::
  "bytes \<Rightarrow> nat \<Rightarrow> SwQuicFrame list \<Rightarrow> SwQuicFrame list \<times> string option" where
  "decodeFrames_loop buf off out =
     (if off < length buf then
        if buf ! off = 0 then
          let stop = skipZeros buf (off + 1)
          in decodeFrames_loop buf stop (out @ [padding (stop - off)])
        else
          (case decodeFrame buf off of
             (Inl e, off') \<Rightarrow> (out, Some e)
           | (Inr f, off') \<Rightarrow> decodeFrames_loop buf off' (out @ [f]))
      else (out, None))"
  by pat_completeness auto
termination
proof (relation "measure (\<lambda>(buf, off, out). length buf - off)", goal_cases)
  case (2 buf off out x)
  then show ?case using skipZeros_ge [of "off + 1" buf] by auto
next
  case (3 buf off out v off' f)
  then show ?case using consumingD [OF consuming_decodeFrame, of off buf f off'] by auto
qed simp

declare decodeFrames_loop.simps [simp del]

definition decodeFrames :: "bytes \<Rightarrow> SwQuicFrame list \<times> string option" where
  "decodeFrames payload = decodeFrames_loop payload 0 []"

subsection \<open>Frames the wire can carry\<close>

abbreviation vi :: "u64 \<Rightarrow> bool" where
  "vi v \<equiv> v \<le> maxValue"

text \<open>
  \<open>wf_frame f\<close>: \<open>f\<close> is what one of the factories builds, from values the wire format can
  carry. These are the frames the encoder accepts and the decoder gives back.
\<close>

definition wf_frame :: "SwQuicFrame \<Rightarrow> bool" where
  "wf_frame f \<longleftrightarrow>
     (case frameType f of
        Padding \<Rightarrow> 0 < paddingLength f \<and> f = padding (paddingLength f)
      | Ping \<Rightarrow> f = ping
      | Ack \<Rightarrow> vi (largestAcknowledged f) \<and> vi (ackDelay f) \<and> vi (firstAckRange f) \<and>
          length (ackRanges f) \<le> 8192 \<and>
          list_all (\<lambda>r. vi (gap r) \<and> vi (rangeLength r)) (ackRanges f) \<and>
          (if hasEcn f
           then vi (ect0Count f) \<and> vi (ect1Count f) \<and> vi (ecnCeCount f) \<and>
             f = ackWithEcn (largestAcknowledged f) (ackDelay f) (firstAckRange f) (ackRanges f)
                   (ect0Count f) (ect1Count f) (ecnCeCount f)
           else f = ack (largestAcknowledged f) (ackDelay f) (firstAckRange f) (ackRanges f))
      | ResetStream \<Rightarrow> vi (streamId f) \<and> vi (errorCode f) \<and> vi (finalSize f) \<and>
          f = resetStream (streamId f) (errorCode f) (finalSize f)
      | ResetStreamAt \<Rightarrow> vi (streamId f) \<and> vi (errorCode f) \<and> vi (finalSize f) \<and>
          reliableSize f \<le> finalSize f \<and>
          f = resetStreamAt (streamId f) (errorCode f) (finalSize f) (reliableSize f)
      | StopSending \<Rightarrow> vi (streamId f) \<and> vi (errorCode f) \<and>
          f = stopSending (streamId f) (errorCode f)
      | Crypto \<Rightarrow> vi (offset f) \<and> length (data f) < 2 ^ 31 \<and> f = crypto (offset f) (data f)
      | NewToken \<Rightarrow> length (data f) < 2 ^ 31 \<and> f = newToken (data f)
      | Stream \<Rightarrow> vi (streamId f) \<and> vi (offset f) \<and> length (data f) < 2 ^ 31 \<and>
          f = stream (streamId f) (offset f) (data f) (fin f)
      | MaxData \<Rightarrow> vi (maximum f) \<and> f = maxData (maximum f)
      | MaxStreamData \<Rightarrow> vi (streamId f) \<and> vi (maximum f) \<and>
          f = maxStreamData (streamId f) (maximum f)
      | MaxStreams \<Rightarrow> vi (maximum f) \<and> f = maxStreams (isBidirectional f) (maximum f)
      | DataBlocked \<Rightarrow> vi (maximum f) \<and> f = dataBlocked (maximum f)
      | StreamDataBlocked \<Rightarrow> vi (streamId f) \<and> vi (maximum f) \<and>
          f = streamDataBlocked (streamId f) (maximum f)
      | StreamsBlocked \<Rightarrow> vi (maximum f) \<and> f = streamsBlocked (isBidirectional f) (maximum f)
      | NewConnectionId \<Rightarrow> vi (sequenceNumber f) \<and> retirePriorTo f \<le> sequenceNumber f \<and>
          1 \<le> length (connectionId f) \<and> length (connectionId f) \<le> 20 \<and>
          length (statelessResetToken f) = 16 \<and>
          f = newConnectionId (sequenceNumber f) (retirePriorTo f) (connectionId f)
                (statelessResetToken f)
      | RetireConnectionId \<Rightarrow> vi (sequenceNumber f) \<and> f = retireConnectionId (sequenceNumber f)
      | PathChallenge \<Rightarrow> length (data f) = 8 \<and> f = pathChallenge (data f)
      | PathResponse \<Rightarrow> length (data f) = 8 \<and> f = pathResponse (data f)
      | ConnectionClose \<Rightarrow> vi (errorCode f) \<and> length (reasonPhrase f) < 2 ^ 31 \<and>
          (if isApplicationClose f then f = applicationClose (errorCode f) (reasonPhrase f)
           else vi (errorFrameType f) \<and>
             f = connectionClose (errorCode f) (errorFrameType f) (reasonPhrase f))
      | HandshakeDone \<Rightarrow> f = handshakeDone
      | Datagram \<Rightarrow> length (data f) < 2 ^ 31 \<and> f = datagram (data f))"

definition frame_bytes :: "SwQuicFrame \<Rightarrow> bytes" where
  "frame_bytes f = fst (encodeFrame f [])"

subsection \<open>One lemma per kind of frame\<close>

lemma appends_putByte [appends_intros]: "appends (putByte b) [b]"
  by (simp add: putByte_def appends_putW)

lemma appends_appendVarInt [appends_intros]:
  "vi v \<Longrightarrow> appends (appendVarInt v) (varint_bytes v)"
  by (simp add: appendVarInt_def appends_VarInt)

lemma reads_readByte [reads_intros]: "reads readByte [b] b"
  by (simp add: reads_def readByte_def)

lemma reads_readVarInt [reads_intros]: "vi v \<Longrightarrow> reads readVarInt (varint_bytes v) v"
  by (simp add: readVarInt_def reads_VarInt)

lemma vi_length: "length d < 2 ^ 31 \<Longrightarrow> vi (word_of_nat (length d))"
  by (simp add: maxValue_def word_le_nat_alt unsigned_of_nat take_bit_nat_eq_self)

lemma unat_length: "length d < 2 ^ 31 \<Longrightarrow> unat (word_of_nat (length d) :: u64) = length d"
  by (simp add: unsigned_of_nat take_bit_nat_eq_self)

lemma reads_readSlice:
  assumes "unat len = length d"
  shows "reads (readSlice len) d d"
proof (rule readsI)
  fix pre suf :: bytes
  assume len: "length (pre @ d @ suf) < 2 ^ 31"
  have "mid (pre @ d @ suf) (to_int (length pre)) (to_int (length d)) = d"
    using len by (rule mid_append)
  moreover have "length d \<le> int_max" using len by (simp add: int_max_def)
  ultimately show "readSlice len (pre @ d @ suf) (length pre) = (Inr d, length pre + length d)"
    using assms by (simp add: readSlice_def ensureSizeFits_def)
qed

text \<open>
  Conditional rewrite rules: a sequence of reads over a buffer written piece by piece is
  discharged by rewriting, one piece at a time, the guards of the decoder included.
\<close>

lemma appends_pieces:
  "appends g cs \<Longrightarrow> appends (seqW (putByte b) g) (b # cs)"
  "vi v \<Longrightarrow> appends g cs \<Longrightarrow> appends (seqW (appendVarInt v) g) (varint_bytes v @ cs)"
  "appends g cs \<Longrightarrow> appends (seqW (putW d) g) (d @ cs)"
  "appends g cs \<Longrightarrow> appends (seqW returnW g) cs"
  using appends_seqW_Cons [OF appends_putByte] appends_seqW [OF appends_appendVarInt]
    appends_seqW [OF appends_putW] appends_seqW [OF appends_returnW] by fastforce+

lemma reads_pieces:
  "reads (k1 b) cs y \<Longrightarrow> reads (bindR readByte k1) (b # cs) y"
  "vi v \<Longrightarrow> reads (k2 v) cs y \<Longrightarrow> reads (bindR readVarInt k2) (varint_bytes v @ cs) y"
  "unat len = length d \<Longrightarrow> reads (k3 d) cs y \<Longrightarrow> reads (bindR (readSlice len) k3) (d @ cs) y"
  "reads (k4 x) cs y \<Longrightarrow> reads (bindR (returnR x) k4) cs y"
  using reads_bindR_Cons [OF reads_readByte] reads_bindR [OF reads_readVarInt]
    reads_bindR [OF reads_readSlice] reads_bindR [OF reads_returnR] by fastforce+

lemma reads_last:
  "vi v \<Longrightarrow> k1 v = returnR y \<Longrightarrow> reads (bindR readVarInt k1) (varint_bytes v) y"
  "unat len = length d \<Longrightarrow> k2 d = returnR y \<Longrightarrow> reads (bindR (readSlice len) k2) d y"
  using reads_pieces(2) [of v k1 "[]" y] reads_pieces(3) [of len d k2 "[]" y]
  by (simp_all add: reads_returnR)

lemmas codec_pieces =
  appends_pieces appends_appendVarInt appends_putByte appends_putW appends_returnW
  reads_pieces reads_last reads_returnR vi_length unat_length

lemmas encoder_defs =
  encodeAck_def encodeResetStream_def encodeResetStreamAt_def encodeStopSending_def
  encodeCrypto_def encodeNewToken_def encodeStream_def encodeNewConnectionId_def
  encodePathData_def encodeConnectionClose_def encodeDatagram_def

definition frame_codec :: "SwQuicFrame \<Rightarrow> bool" where
  "frame_codec f \<longleftrightarrow> (\<exists>t bs. t \<noteq> 0 \<and> appends (encodeFrame f) (t # bs) \<and> reads decodeFrame (t # bs) f)"

lemma frame_codecI:
  assumes "t \<noteq> 0" and "appends (encodeFrame f) (t # bs)" and "reads (decodeFrameBody t) bs f"
  shows "frame_codec f"
  using assms reads_pieces(1) [of decodeFrameBody t bs f] unfolding frame_codec_def decodeFrame_def
  by blast

lemmas codec_simps =
  encodeFrame_def encoder_defs factory_defs frame_def decodeFrameBody_def decoder_defs Let_def

lemma codec_values:
  assumes [simp]: "vi a" "vi b" "vi c"
  shows "frame_codec ping" and "frame_codec handshakeDone"
    and "frame_codec (resetStream a b c)" and "frame_codec (stopSending a b)"
    and "frame_codec (maxData a)" and "frame_codec (maxStreamData a b)"
    and "frame_codec (maxStreams bidi a)" and "frame_codec (dataBlocked a)"
    and "frame_codec (streamDataBlocked a b)" and "frame_codec (streamsBlocked bidi a)"
    and "frame_codec (retireConnectionId a)"
proof -
  note [simp] = codec_simps codec_pieces
  let ?a = "varint_bytes a" and ?ab = "varint_bytes a @ varint_bytes b"
  show "frame_codec ping" by (rule frame_codecI [where t = "0x01" and bs = "[]"]) simp_all
  show "frame_codec handshakeDone"
    by (rule frame_codecI [where t = "0x1e" and bs = "[]"]) simp_all
  show "frame_codec (resetStream a b c)"
    by (rule frame_codecI [where t = "0x04" and bs = "varint_bytes a @ varint_bytes b @ varint_bytes c"]) simp_all
  show "frame_codec (stopSending a b)"
    by (rule frame_codecI [where t = "0x05" and bs = ?ab]) simp_all
  show "frame_codec (maxData a)" by (rule frame_codecI [where t = "0x10" and bs = ?a]) simp_all
  show "frame_codec (maxStreamData a b)"
    by (rule frame_codecI [where t = "0x11" and bs = ?ab]) simp_all
  show "frame_codec (maxStreams bidi a)"
    by (rule frame_codecI [where t = "if bidi then 0x12 else 0x13" and bs = ?a]) simp_all
  show "frame_codec (dataBlocked a)" by (rule frame_codecI [where t = "0x14" and bs = ?a]) simp_all
  show "frame_codec (streamDataBlocked a b)"
    by (rule frame_codecI [where t = "0x15" and bs = ?ab]) simp_all
  show "frame_codec (streamsBlocked bidi a)"
    by (rule frame_codecI [where t = "if bidi then 0x16 else 0x17" and bs = ?a]) simp_all
  show "frame_codec (retireConnectionId a)"
    by (rule frame_codecI [where t = "0x19" and bs = ?a]) simp_all
qed

lemma codec_resetStreamAt:
  assumes [simp]: "vi a" "vi b" "vi c" "d \<le> c"
  shows "frame_codec (resetStreamAt a b c d)"
proof -
  have [simp]: "vi d" using assms(3,4) by (rule order.trans [rotated])
  have [simp]: "\<not> c < d" by (rule leD [OF assms(4)])
  show ?thesis
    by (rule frame_codecI [where t = "0x24" and bs = "varint_bytes a @ varint_bytes b @ varint_bytes c @ varint_bytes d"])
      (simp_all add: codec_simps codec_pieces)
qed

lemma codec_sized:
  fixes d :: bytes
  assumes [simp]: "vi a" "vi b" and "length d < 2 ^ 31"
  shows "frame_codec (crypto a d)" and "frame_codec (newToken d)" and "frame_codec (datagram d)"
    and "frame_codec (connectionClose a b d)" and "frame_codec (applicationClose a d)"
proof -
  note [simp] = codec_simps codec_pieces vi_length [OF assms(3)] unat_length [OF assms(3), simplified]
  let ?d = "varint_bytes (word_of_nat (length d)) @ d"
  show "frame_codec (crypto a d)"
    by (rule frame_codecI [where t = "0x06" and bs = "varint_bytes a @ ?d"]) simp_all
  show "frame_codec (newToken d)" by (rule frame_codecI [where t = "0x07" and bs = ?d]) simp_all
  show "frame_codec (datagram d)" by (rule frame_codecI [where t = "0x31" and bs = ?d]) simp_all
  show "frame_codec (connectionClose a b d)"
    by (rule frame_codecI [where t = "0x1c" and bs = "varint_bytes a @ varint_bytes b @ ?d"]) simp_all
  show "frame_codec (applicationClose a d)"
    by (rule frame_codecI [where t = "0x1d" and bs = "varint_bytes a @ ?d"]) simp_all
qed

lemma codec_path:
  assumes "length d = 8"
  shows "frame_codec (pathChallenge d)" and "frame_codec (pathResponse d)"
  by (rule frame_codecI [where t = "0x1a" and bs = d] frame_codecI [where t = "0x1b" and bs = d];
      simp add: assms codec_simps codec_pieces)+

lemma codec_stream:
  assumes [simp]: "vi a" "vi b" and "length d < 2 ^ 31"
  shows "frame_codec (stream a b d fi)"
proof -
  note [simp] = codec_simps codec_pieces vi_length [OF assms(3)] unat_length [OF assms(3), simplified]
  let ?d = "varint_bytes (word_of_nat (length d)) @ d"
  show ?thesis
  proof (cases "b = 0")
    case True
    then show ?thesis
      by (intro frame_codecI [where t = "if fi then 0x0b else 0x0a" and bs = "varint_bytes a @ ?d"])
        simp_all
  next
    case False
    then have "0 < b" by (simp add: word_neq_0_conv)
    then show ?thesis
      by (intro frame_codecI [where t = "if fi then 0x0f else 0x0e" and bs = "varint_bytes a @ varint_bytes b @ ?d"])
        simp_all
  qed
qed

definition ackRanges_bytes :: "AckRange list \<Rightarrow> bytes" where
  "ackRanges_bytes rs = concat (map (\<lambda>r. varint_bytes (gap r) @ varint_bytes (rangeLength r)) rs)"

lemma appends_ackRanges:
  "list_all (\<lambda>r. vi (gap r) \<and> vi (rangeLength r)) rs \<Longrightarrow>
     appends (encodeAckRanges rs) (ackRanges_bytes rs)"
  by (induction rs) (simp_all add: ackRanges_bytes_def appends_returnW appends_pieces)

lemma reads_ackRanges:
  "list_all (\<lambda>r. vi (gap r) \<and> vi (rangeLength r)) rs \<Longrightarrow>
     reads (decodeAckRanges (length rs) acc) (ackRanges_bytes rs) (acc @ rs)"
proof (induction rs arbitrary: acc)
  case Nil
  then show ?case by (simp add: ackRanges_bytes_def reads_returnR)
next
  case (Cons r rs)
  have r: "\<lparr>gap = gap r, rangeLength = rangeLength r\<rparr> = r" by (cases r) simp
  have IH: "reads (decodeAckRanges (length rs) (acc @ [\<lparr>gap = gap r, rangeLength = rangeLength r\<rparr>]))
      (ackRanges_bytes rs) (acc @ r # rs)"
    unfolding r using Cons.IH [of "acc @ [r]"] Cons.prems by simp
  have bytes: "ackRanges_bytes (r # rs) =
      varint_bytes (gap r) @ varint_bytes (rangeLength r) @ ackRanges_bytes rs"
    by (simp add: ackRanges_bytes_def)
  show ?case unfolding bytes list.size add_0_right add_Suc_right decodeAckRanges.simps
    by (rule reads_pieces(2) reads_pieces(2) IH | use Cons.prems in simp)+
qed

lemma codec_ack:
  fixes rs :: "AckRange list"
  assumes [simp]: "vi a" "vi b" "vi c" and len: "length rs \<le> 8192"
    and rs: "list_all (\<lambda>r. vi (gap r) \<and> vi (rangeLength r)) rs"
  shows "frame_codec (ack a b c rs)"
    and "\<lbrakk>vi x; vi y; vi z\<rbrakk> \<Longrightarrow> frame_codec (ackWithEcn a b c rs x y z)"
proof -
  let ?n = "word_of_nat (length rs) :: u64"
  have un: "unat ?n = length rs" using len by (simp add: unsigned_of_nat take_bit_nat_eq_self)
  have [simp]: "vi ?n" "\<not> 8192 < ?n"
    using len un by (simp_all add: maxValue_def word_le_nat_alt word_less_nat_alt)
  let ?pre = "varint_bytes a @ varint_bytes b @ varint_bytes ?n @ varint_bytes c"
  note enc = appends_seqW [OF appends_ackRanges [OF rs]]
  have dec: "reads (bindR (decodeAckRanges (unat ?n) []) k) (ackRanges_bytes rs @ cs) y"
    if "reads (k rs) cs y" for k cs and y :: SwQuicFrame
    using reads_bindR [OF reads_ackRanges [OF rs, of "[]"], of k cs y] that un by simp
  note [simp del] = unsigned_of_nat
  note [simp] = codec_simps codec_pieces enc dec
  show "frame_codec (ack a b c rs)"
    by (rule frame_codecI [where t = "0x02" and bs = "?pre @ ackRanges_bytes rs @ []"])
      (simp_all del: append_Nil2)
  show "frame_codec (ackWithEcn a b c rs x y z)" if [simp]: "vi x" "vi y" "vi z"
    by (rule frame_codecI [where t = "0x03" and
          bs = "?pre @ ackRanges_bytes rs @ varint_bytes x @ varint_bytes y @ varint_bytes z"])
      simp_all
qed

lemma codec_newConnectionId:
  assumes [simp]: "vi a" "b \<le> a" "1 \<le> length cid" "length cid \<le> 20" "length tok = 16"
  shows "frame_codec (newConnectionId a b cid tok)"
proof -
  let ?n = "word_of_nat (length cid) :: u8"
  have "length cid < 2 ^ 8" by (rule le_less_trans [OF assms(4)]) simp
  then have un: "unat ?n = length cid" by (simp add: unsigned_of_nat take_bit_nat_eq_self)
  have [simp]: "unat (ucast ?n :: u64) = length cid"
    using un \<open>length cid < 2 ^ 8\<close> by (simp add: unsigned_ucast_eq take_bit_nat_eq_self)
  have [simp]: "cid \<noteq> []" using assms(3) by (auto simp del: assms(3))
  have [simp]: "\<not> ?n < 1" "\<not> 20 < ?n" "\<not> length cid < 1" "\<not> 20 < length cid"
    using assms(4) un by (simp_all add: word_less_nat_alt del: assms(4) unsigned_of_nat)
  have [simp]: "vi b" using assms(1,2) by (rule order.trans [rotated])
  have [simp]: "\<not> a < b" by (rule leD [OF assms(2)])
  show ?thesis
    by (rule frame_codecI [where t = "0x18" and
          bs = "varint_bytes a @ varint_bytes b @ ?n # cid @ tok"])
      (simp_all add: codec_simps codec_pieces del: unsigned_of_nat word_less_1)
qed

subsection \<open>Decoding inverts encoding\<close>

lemma frame_codec_wf:
  assumes wf: "wf_frame f" and np: "frameType f \<noteq> Padding"
  shows "frame_codec f"
proof -
  note [simp] = wf_frame_def
  show ?thesis
  proof (cases "frameType f")
    case Padding
    with np show ?thesis by simp
  next
    case Ping
    with wf codec_values(1) [of 0 0 0] show ?thesis by simp
  next
    case Ack
    show ?thesis
    proof (cases "hasEcn f")
      case True
      with wf Ack codec_ack(2) [of "largestAcknowledged f" "ackDelay f" "firstAckRange f" "ackRanges f"
          "ect0Count f" "ect1Count f" "ecnCeCount f"] show ?thesis by simp
    next
      case False
      with wf Ack codec_ack(1) [of "largestAcknowledged f" "ackDelay f" "firstAckRange f" "ackRanges f"]
      show ?thesis by simp
    qed
  next
    case ResetStream
    with wf codec_values(3) [of "streamId f" "errorCode f" "finalSize f"] show ?thesis by simp
  next
    case ResetStreamAt
    with wf codec_resetStreamAt [of "streamId f" "errorCode f" "finalSize f" "reliableSize f"]
    show ?thesis by simp
  next
    case StopSending
    with wf codec_values(4) [of "streamId f" "errorCode f" 0] show ?thesis by simp
  next
    case Crypto
    with wf codec_sized(1) [of "offset f" 0 "data f"] show ?thesis by simp
  next
    case NewToken
    with wf codec_sized(2) [of 0 0 "data f"] show ?thesis by simp
  next
    case Stream
    with wf codec_stream [of "streamId f" "offset f" "data f" "fin f"] show ?thesis by simp
  next
    case MaxData
    with wf codec_values(5) [of "maximum f" 0 0] show ?thesis by simp
  next
    case MaxStreamData
    with wf codec_values(6) [of "streamId f" "maximum f" 0] show ?thesis by simp
  next
    case MaxStreams
    with wf codec_values(7) [of "maximum f" 0 0 "isBidirectional f"] show ?thesis by simp
  next
    case DataBlocked
    with wf codec_values(8) [of "maximum f" 0 0] show ?thesis by simp
  next
    case StreamDataBlocked
    with wf codec_values(9) [of "streamId f" "maximum f" 0] show ?thesis by simp
  next
    case StreamsBlocked
    with wf codec_values(10) [of "maximum f" 0 0 "isBidirectional f"] show ?thesis by simp
  next
    case NewConnectionId
    with wf codec_newConnectionId [of "sequenceNumber f" "retirePriorTo f" "connectionId f"
        "statelessResetToken f"] show ?thesis by simp
  next
    case RetireConnectionId
    with wf codec_values(11) [of "sequenceNumber f" 0 0] show ?thesis by simp
  next
    case PathChallenge
    with wf codec_path(1) [of "data f"] show ?thesis by simp
  next
    case PathResponse
    with wf codec_path(2) [of "data f"] show ?thesis by simp
  next
    case ConnectionClose
    show ?thesis
    proof (cases "isApplicationClose f")
      case True
      with wf ConnectionClose codec_sized(5) [of "errorCode f" 0 "reasonPhrase f"]
      show ?thesis by simp
    next
      case False
      with wf ConnectionClose
        codec_sized(4) [of "errorCode f" "errorFrameType f" "reasonPhrase f"]
      show ?thesis by simp
    qed
  next
    case HandshakeDone
    with wf codec_values(2) [of 0 0 0] show ?thesis by simp
  next
    case Datagram
    with wf codec_sized(3) [of 0 0 "data f"] show ?thesis by simp
  qed
qed

lemma frame_codecD:
  assumes "frame_codec f"
  shows "appends (encodeFrame f) (frame_bytes f)" and "reads decodeFrame (frame_bytes f) f"
    and "frame_bytes f \<noteq> []" and "hd (frame_bytes f) \<noteq> 0"
proof -
  obtain t bs where t: "t \<noteq> 0" "appends (encodeFrame f) (t # bs)" "reads decodeFrame (t # bs) f"
    using assms unfolding frame_codec_def by blast
  then have "frame_bytes f = t # bs" by (simp add: frame_bytes_def appends_fst)
  with t show "appends (encodeFrame f) (frame_bytes f)" and "reads decodeFrame (frame_bytes f) f"
    and "frame_bytes f \<noteq> []" and "hd (frame_bytes f) \<noteq> 0" by simp_all
qed

interpretation frames: wire_format frame_bytes decodeFrame
  "\<lambda>f. wf_frame f \<and> frameType f \<noteq> Padding"
  by unfold_locales (use frame_codec_wf frame_codecD in blast)+

lemma padding_bytes: "frame_bytes (padding n) = replicate (if n = 0 then 1 else n) 0"
  by (simp add: frame_bytes_def encodeFrame_def padding_def frame_def putW_def)

lemma appends_padding: "frameType f = Padding \<Longrightarrow> appends (encodeFrame f) (frame_bytes f)"
  by (simp add: frame_bytes_def encodeFrame_def putW_def appends_def)

lemma appends_wf: "wf_frame f \<Longrightarrow> appends (encodeFrame f) (frame_bytes f)"
  using appends_padding frame_codecD(1) frame_codec_wf by blast

lemma encodeFrames_wf:
  assumes "\<forall>f\<in>set fs. wf_frame f"
  shows "encodeFrames fs out = (concat (map frame_bytes fs), None)"
proof -
  have "appends (encodeFrames_loop fs) (concat (map frame_bytes fs))"
    using assms by (induction fs) (auto intro!: appends_seqW appends_wf appends_returnW)
  then show ?thesis by (simp add: encodeFrames_def appends_def)
qed

text \<open>The decoder reports a maximal run of zero bytes as one PADDING frame.\<close>

fun coalesce :: "SwQuicFrame list \<Rightarrow> SwQuicFrame list" where
  "coalesce [] = []"
| "coalesce (f # fs) =
     (case coalesce fs of
        [] \<Rightarrow> [f]
      | g # gs \<Rightarrow>
          if frameType f = Padding \<and> frameType g = Padding
          then padding (paddingLength f + paddingLength g) # gs
          else f # g # gs)"

fun separated :: "SwQuicFrame list \<Rightarrow> bool" where
  "separated (f # g # fs) \<longleftrightarrow>
     \<not> (frameType f = Padding \<and> frameType g = Padding) \<and> separated (g # fs)"
| "separated _ \<longleftrightarrow> True"

lemma frameType_padding [simp]: "frameType (padding n) = Padding"
  by (simp add: padding_def frame_def)

lemma paddingLength_padding [simp]: "paddingLength (padding n) = (if n = 0 then 1 else n)"
  by (simp add: padding_def)

lemma wf_padding [simp]: "wf_frame (padding n)"
  by (simp add: wf_frame_def padding_def frame_def)

lemma wf_paddingD:
  assumes "wf_frame f" and "frameType f = Padding"
  shows "f = padding (paddingLength f)" and "0 < paddingLength f"
    and "frame_bytes f = replicate (paddingLength f) 0"
proof -
  show f: "f = padding (paddingLength f)" and pos: "0 < paddingLength f"
    using assms by (simp_all add: wf_frame_def)
  show "frame_bytes f = replicate (paddingLength f) 0"
    using pos by (subst f) (simp add: padding_bytes)
qed

lemma separated_Cons:
  "separated (f # fs) \<longleftrightarrow> (fs = [] \<or> \<not> (frameType f = Padding \<and> frameType (hd fs) = Padding) \<and> separated fs)"
  by (cases fs) auto

lemma coalesce_separated: "separated (coalesce fs)"
proof (induction fs)
  case (Cons f fs)
  then show ?case by (auto simp: separated_Cons split: list.splits)
qed simp

lemma coalesce_wf: "\<forall>f\<in>set fs. wf_frame f \<Longrightarrow> \<forall>f\<in>set (coalesce fs). wf_frame f"
  by (induction fs) (auto split: list.splits)

lemma coalesce_bytes:
  assumes "\<forall>f\<in>set fs. wf_frame f"
  shows "concat (map frame_bytes (coalesce fs)) = concat (map frame_bytes fs)"
  using assms
proof (induction fs)
  case (Cons f fs)
  show ?case
  proof (cases "coalesce fs")
    case Nil
    with Cons show ?thesis by simp
  next
    case (Cons g gs)
    have wf: "wf_frame f" "wf_frame g"
      using Cons.prems coalesce_wf [of fs] Cons by auto
    show ?thesis
    proof (cases "frameType f = Padding \<and> frameType g = Padding")
      case True
      have "frame_bytes (padding (paddingLength f + paddingLength g)) = frame_bytes f @ frame_bytes g"
        using wf_paddingD [of f] wf_paddingD [of g] wf True
        by (simp add: padding_bytes replicate_add)
      with True Cons Cons.IH Cons.prems show ?thesis by simp
    next
      case False
      with Cons Cons.IH Cons.prems show ?thesis by auto
    qed
  qed
qed simp

lemma coalesce_id: "separated fs \<Longrightarrow> coalesce fs = fs"
  by (induction fs rule: separated.induct) (auto split: list.splits)

lemma skipZeros_run:
  assumes "suf = [] \<or> hd suf \<noteq> 0"
  shows "skipZeros (pre @ replicate n 0 @ suf) (length pre) = length pre + n"
proof (induction n arbitrary: pre)
  case 0
  then show ?case using assms by (cases suf) (auto simp: skipZeros.simps nth_append)
next
  case (Suc n)
  have eq: "pre @ replicate (Suc n) 0 @ suf = (pre @ [0]) @ replicate n 0 @ suf" by simp
  have "skipZeros (pre @ replicate (Suc n) 0 @ suf) (length pre) =
      skipZeros ((pre @ [0]) @ replicate n 0 @ suf) (length (pre @ [0]))"
    by (subst skipZeros.simps) simp
  also have "\<dots> = length (pre @ [0]) + n" by (rule Suc.IH)
  finally show ?case by simp
qed

lemma decodeFrames_loop_padding:
  assumes "0 < n" and "suf = [] \<or> hd suf \<noteq> 0"
  shows "decodeFrames_loop (pre @ replicate n 0 @ suf) (length pre) out =
    decodeFrames_loop ((pre @ replicate n 0) @ suf) (length (pre @ replicate n 0)) (out @ [padding n])"
proof -
  have "skipZeros (pre @ replicate n 0 @ suf) (length pre) = length pre + n"
    using assms(2) by (rule skipZeros_run)
  moreover have "skipZeros (pre @ replicate n 0 @ suf) (length pre) =
      skipZeros (pre @ replicate n 0 @ suf) (Suc (length pre))"
    using assms(1) by (subst skipZeros.simps) (auto simp: nth_append)
  ultimately show ?thesis
    using assms(1) by (subst decodeFrames_loop.simps) (simp add: nth_append Let_def)
qed

lemma hd_frames:
  assumes "\<forall>f\<in>set fs. wf_frame f" and "fs \<noteq> []" and "frameType (hd fs) \<noteq> Padding"
  shows "hd (concat (map frame_bytes fs)) \<noteq> 0"
proof -
  obtain f gs where fs: "fs = f # gs" using assms(2) by (cases fs) auto
  then have "frame_codec f" using assms by (simp add: frame_codec_wf)
  with fs show ?thesis using frame_codecD(3,4) by (simp add: hd_append)
qed

lemma decodeFrames_loop_separated:
  assumes "\<forall>f\<in>set fs. wf_frame f" and "separated fs"
    and "length (pre @ concat (map frame_bytes fs)) < 2 ^ 31"
  shows "decodeFrames_loop (pre @ concat (map frame_bytes fs)) (length pre) out = (out @ fs, None)"
  using assms
proof (induction fs arbitrary: pre out)
  case Nil
  then show ?case by (simp add: decodeFrames_loop.simps)
next
  case (Cons f fs)
  let ?rest = "concat (map frame_bytes fs)"
  have IH: "decodeFrames_loop ((pre @ frame_bytes f) @ ?rest) (length (pre @ frame_bytes f)) (out @ [f])
      = ((out @ [f]) @ fs, None)"
    using Cons.prems by (intro Cons.IH) (auto simp: separated_Cons)
  have wf: "wf_frame f" using Cons.prems(1) by simp
  show ?case
  proof (cases "frameType f = Padding")
    case True
    have "fs = [] \<or> frameType (hd fs) \<noteq> Padding"
      using Cons.prems(2) True by (auto simp: separated_Cons)
    then have "?rest = [] \<or> hd ?rest \<noteq> 0"
      using hd_frames [of fs] Cons.prems(1) by (cases "fs = []") simp_all
    with wf_paddingD [OF wf True] IH show ?thesis
      using decodeFrames_loop_padding [of "paddingLength f" ?rest pre out] by simp
  next
    case False
    note codec = frame_codecD [OF frame_codec_wf [OF wf False]]
    have "decodeFrame (pre @ frame_bytes f @ ?rest) (length pre) = (Inr f, length pre + length (frame_bytes f))"
      using Cons.prems(3) by (intro readsD [OF codec(2)]) simp
    moreover have "(pre @ frame_bytes f @ ?rest) ! length pre \<noteq> 0"
      using codec(3,4) by (simp add: nth_append hd_conv_nth)
    ultimately show ?thesis
      using IH codec(3) by (subst decodeFrames_loop.simps) simp
  qed
qed

lemma decodeFrames_separated:
  assumes "\<forall>f\<in>set fs. wf_frame f" and "separated fs"
    and "length (concat (map frame_bytes fs)) < 2 ^ 31"
  shows "decodeFrames (concat (map frame_bytes fs)) = (fs, None)"
  using decodeFrames_loop_separated [OF assms(1,2), of "[]" "[]"] assms(3)
  by (simp add: decodeFrames_def)

subsection \<open>What the decoder delivers\<close>

text \<open>\<open>yields r P\<close>: every value \<open>r\<close> returns satisfies \<open>P\<close>.\<close>

definition yields :: "'a reader \<Rightarrow> ('a \<Rightarrow> bool) \<Rightarrow> bool" where
  "yields r P \<longleftrightarrow> (\<forall>buf off x off'. length buf < 2 ^ 31 \<longrightarrow> off \<le> length buf \<longrightarrow>
     r buf off = (Inr x, off') \<longrightarrow> P x)"

lemma yieldsD:
  "yields r P \<Longrightarrow> length buf < 2 ^ 31 \<Longrightarrow> off \<le> length buf \<Longrightarrow> r buf off = (Inr x, off') \<Longrightarrow> P x"
  unfolding yields_def by blast

lemma yields_bindR:
  assumes r: "yields r Q" and safe: "safe_reader r" and k: "\<And>x. Q x \<Longrightarrow> yields (k x) P"
  shows "yields (bindR r k) P"
  unfolding yields_def
proof (intro allI impI)
  fix buf off y off''
  assume len: "length buf < 2 ^ 31" and off: "off \<le> length buf"
    and eq: "bindR r k buf off = (Inr y, off'')"
  then obtain x off' where x: "r buf off = (Inr x, off')" and y: "k x buf off' = (Inr y, off'')"
    by (auto simp: bindR_def split: prod.splits sum.splits)
  have "off' \<le> length buf" using safe_readerD [OF safe off x] by simp
  moreover have "Q x" using r len off x by (rule yieldsD)
  ultimately show "P y" using yieldsD [OF k len _ y] by blast
qed

lemma yields_readVarInt: "yields readVarInt vi"
  unfolding yields_def readVarInt_def by (auto dest: VarInt_decode_max)

lemma yields_readSlice: "yields (readSlice len) (\<lambda>d. length d = unat len \<and> length d < 2 ^ 31)"
  unfolding yields_def
proof (intro allI impI)
  fix buf :: bytes and off d off'
  assume buf: "length buf < 2 ^ 31" and off: "off \<le> length buf"
    and eq: "readSlice len buf off = (Inr d, off')"
  have fits: "off + unat len \<le> length buf"
    and d: "d = mid buf (to_int off) (to_int (unat len))"
    using eq off by (auto simp: readSlice_def split: if_splits)
  have "d = take (unat len) (drop off buf)"
    unfolding d using fits buf by (rule mid_cast)
  with fits buf show "length d = unat len \<and> length d < 2 ^ 31" by simp
qed

lemma yields_returnR: "P x \<Longrightarrow> yields (returnR x) P"
  by (simp add: yields_def returnR_def)

lemma yields_failR: "yields (failR e) P"
  by (simp add: yields_def failR_def)

lemma yields_if: "(c \<Longrightarrow> yields r P) \<Longrightarrow> (\<not> c \<Longrightarrow> yields r' P) \<Longrightarrow> yields (if c then r else r') P"
  by simp

lemma yields_True: "yields r (\<lambda>_. True)"
  by (simp add: yields_def)

lemmas yields_VarInt_bind = yields_bindR [OF yields_readVarInt safe_readVarInt]
lemmas yields_Slice_bind = yields_bindR [OF yields_readSlice safe_readSlice]
lemmas yields_Byte_bind = yields_bindR [OF yields_True safe_readByte]

lemma yields_ackRanges:
  "list_all (\<lambda>r. vi (gap r) \<and> vi (rangeLength r)) acc \<Longrightarrow>
   yields (decodeAckRanges n acc)
     (\<lambda>rs. length rs = length acc + n \<and> list_all (\<lambda>r. vi (gap r) \<and> vi (rangeLength r)) rs)"
proof (induction n arbitrary: acc)
  case 0
  then show ?case by (simp add: yields_returnR)
next
  case (Suc n)
  have "yields (decodeAckRanges n (acc @ [\<lparr>gap = g, rangeLength = l\<rparr>]))
      (\<lambda>rs. length rs = length acc + Suc n \<and> list_all (\<lambda>r. vi (gap r) \<and> vi (rangeLength r)) rs)"
    if "vi g" "vi l" for g l
    using Suc.IH [of "acc @ [\<lparr>gap = g, rangeLength = l\<rparr>]"] Suc.prems that by simp
  then show ?case by (simp add: yields_VarInt_bind)
qed

lemmas yields_Ranges_bind =
  yields_bindR [OF yields_ackRanges [where acc = "[]", simplified] safe_decodeAckRanges]

lemma yields_optional:
  "(\<And>v. vi v \<Longrightarrow> yields (k v) P) \<Longrightarrow> yields (bindR (if c then readVarInt else returnR 0) k) P"
  by (cases c) (simp_all add: yields_VarInt_bind yields_bindR [OF yields_returnR [of vi 0]] safe_returnR)

lemma yields_length:
  "(\<And>v. yields (k v) P) \<Longrightarrow> yields (bindR (if c then readVarInt else remainingBytes) k) P"
  by (rule yields_bindR [OF yields_True]) (auto intro: safe_intros)

lemmas yields_binds = yields_optional yields_length yields_VarInt_bind yields_Slice_bind
  yields_Byte_bind yields_Ranges_bind yields_if yields_failR yields_returnR

lemma yields_decodeFrameBody: "yields (decodeFrameBody t) wf_frame"
  unfolding decodeFrameBody_def
proof (intro yields_if yields_failR)
  note [simp] = wf_frame_def factory_defs frame_def
  have cid: "Suc 0 \<le> unat (ucast b :: u64) \<and> unat (ucast b :: u64) \<le> 20"
    if "b \<noteq> 0" "\<not> 20 < b" for b :: u8
  proof -
    have "unat b \<le> 20" using that(2) by (simp add: word_less_nat_alt)
    moreover have "unat b \<noteq> 0" using that(1) by (simp add: unat_eq_0)
    ultimately show ?thesis by (simp add: unsigned_ucast_eq take_bit_nat_eq_self)
  qed
  show "yields (decodeAck e) wf_frame" for e
    unfolding decodeAck_def by (intro yields_binds) (auto simp: word_less_nat_alt)
  show "yields decodeResetStream wf_frame"
    unfolding decodeResetStream_def by (intro yields_binds) auto
  show "yields decodeStopSending wf_frame"
    unfolding decodeStopSending_def by (intro yields_binds) auto
  show "yields decodeCrypto wf_frame"
    unfolding decodeCrypto_def by (intro yields_binds) auto
  show "yields decodeNewToken wf_frame"
    unfolding decodeNewToken_def by (intro yields_binds) auto
  show "yields (decodeStream t) wf_frame"
    unfolding decodeStream_def Let_def by (intro yields_binds) auto
  show "yields decodeMaxData wf_frame"
    unfolding decodeMaxData_def by (intro yields_binds) auto
  show "yields decodeMaxStreamData wf_frame"
    unfolding decodeMaxStreamData_def by (intro yields_binds) auto
  show "yields (decodeMaxStreams b) wf_frame" for b
    unfolding decodeMaxStreams_def by (intro yields_binds) auto
  show "yields decodeDataBlocked wf_frame"
    unfolding decodeDataBlocked_def by (intro yields_binds) auto
  show "yields decodeStreamDataBlocked wf_frame"
    unfolding decodeStreamDataBlocked_def by (intro yields_binds) auto
  show "yields (decodeStreamsBlocked b) wf_frame" for b
    unfolding decodeStreamsBlocked_def by (intro yields_binds) auto
  show "yields decodeNewConnectionId wf_frame"
    unfolding decodeNewConnectionId_def by (intro yields_binds) (auto dest: cid)
  show "yields decodeRetireConnectionId wf_frame"
    unfolding decodeRetireConnectionId_def by (intro yields_binds) auto
  show "yields (decodePathData False) wf_frame" and "yields (decodePathData True) wf_frame"
    unfolding decodePathData_def by (intro yields_binds; auto)+
  show "yields (decodeConnectionClose b) wf_frame" for b
    unfolding decodeConnectionClose_def by (intro yields_binds) auto
  show "yields decodeResetStreamAt wf_frame"
    unfolding decodeResetStreamAt_def by (intro yields_binds) auto
  show "yields (decodeDatagram b) wf_frame" for b
    unfolding decodeDatagram_def by (intro yields_binds) auto
qed (simp_all add: yields_returnR wf_frame_def factory_defs frame_def)

lemma yields_decodeFrameBody_type:
  assumes "t \<noteq> 0"
  shows "yields (decodeFrameBody t) (\<lambda>f. frameType f \<noteq> Padding)"
  using assms unfolding decodeFrameBody_def decoder_defs Let_def
  by (intro yields_binds) (simp_all add: factory_defs frame_def)

lemma decodeFrame_delivers:
  assumes "length buf < 2 ^ 31" and "off < length buf" and "buf ! off \<noteq> 0"
    and "decodeFrame buf off = (Inr f, off')"
  shows "wf_frame f \<and> frameType f \<noteq> Padding"
proof -
  have "decodeFrameBody (buf ! off) buf (off + 1) = (Inr f, off')"
    using assms(2,4) by (simp add: decodeFrame_def bindR_def readByte_def)
  moreover have "off + 1 \<le> length buf" using assms(2) by simp
  ultimately show ?thesis
    using yieldsD [OF yields_decodeFrameBody assms(1)]
      yieldsD [OF yields_decodeFrameBody_type [OF assms(3)] assms(1)] by blast
qed

lemma skipZeros_stops:
  "off \<le> length buf \<Longrightarrow> skipZeros buf off \<le> length buf \<and>
    (skipZeros buf off < length buf \<longrightarrow> buf ! skipZeros buf off \<noteq> 0)"
proof (induction buf off rule: skipZeros.induct)
  case (1 buf off)
  show ?case
  proof (cases "off < length buf \<and> buf ! off = 0")
    case True
    then have "skipZeros buf off = skipZeros buf (off + 1)" by (subst skipZeros.simps) simp
    with True 1 show ?thesis by simp
  next
    case False
    then have "skipZeros buf off = off" by (subst skipZeros.simps) auto
    with False 1 show ?thesis by auto
  qed
qed

lemma separated_snoc:
  "separated fs \<Longrightarrow> fs = [] \<or> frameType (last fs) \<noteq> Padding \<or> frameType f \<noteq> Padding \<Longrightarrow>
    separated (fs @ [f])"
  by (induction fs rule: separated.induct) auto

text \<open>
  The state of the payload loop: the frames so far are well formed and no two PADDING
  frames are adjacent; after a PADDING frame the next byte is not zero.
\<close>

definition loop_inv :: "bytes \<Rightarrow> nat \<Rightarrow> SwQuicFrame list \<Rightarrow> bool" where
  "loop_inv buf off out \<longleftrightarrow> list_all wf_frame out \<and> separated out \<and>
     (off < length buf \<longrightarrow> out \<noteq> [] \<longrightarrow> frameType (last out) = Padding \<longrightarrow> buf ! off \<noteq> 0)"

lemma decodeFrames_loop_inv:
  assumes "length buf < 2 ^ 31" and "loop_inv buf off out"
    and "decodeFrames_loop buf off out = (fs, err)"
  shows "list_all wf_frame fs \<and> separated fs"
  using assms
proof (induction buf off out rule: decodeFrames_loop.induct)
  case (1 buf off out)
  note inv = \<open>loop_inv buf off out\<close>
  consider (stop) "length buf \<le> off" | (zeros) "off < length buf" "buf ! off = 0"
    | (frame) "off < length buf" "buf ! off \<noteq> 0" by fastforce
  then show ?case
  proof cases
    case stop
    with 1 show ?thesis by (simp add: decodeFrames_loop.simps [of buf off] loop_inv_def)
  next
    case zeros
    let ?stop = "skipZeros buf (off + 1)"
    have "loop_inv buf ?stop (out @ [padding (?stop - off)])"
      using inv zeros skipZeros_stops [of "off + 1" buf]
      by (auto simp: loop_inv_def intro!: separated_snoc)
    moreover have "decodeFrames_loop buf ?stop (out @ [padding (?stop - off)]) = (fs, err)"
      using zeros 1(5) by (simp add: decodeFrames_loop.simps [of buf off] Let_def)
    ultimately show ?thesis using 1(1) [OF zeros refl 1(3)] by blast
  next
    case frame
    obtain v off' where v: "decodeFrame buf off = (v, off')" by fastforce
    show ?thesis
    proof (cases v)
      case (Inl e)
      with frame v 1(5) inv show ?thesis
        by (simp add: decodeFrames_loop.simps [of buf off] loop_inv_def)
    next
      case (Inr f)
      have "wf_frame f \<and> frameType f \<noteq> Padding"
        using 1(3) frame v Inr by (intro decodeFrame_delivers) auto
      then have "loop_inv buf off' (out @ [f])"
        using inv by (auto simp: loop_inv_def intro!: separated_snoc)
      moreover have "decodeFrames_loop buf off' (out @ [f]) = (fs, err)"
        using frame v Inr 1(5) by (simp add: decodeFrames_loop.simps [of buf off])
      ultimately show ?thesis using 1(2) [OF frame v [symmetric] Inr 1(3)] by blast
    qed
  qed
qed

subsection \<open>Properties of the codec\<close>

text \<open>
  C1. Every list of well-formed frames is encoded, whatever the output buffer held before,
  and decoding the payload gives the same frames back, adjacent PADDING frames merged into
  one; the payload has to be shorter than \<open>2 ^ 31\<close> bytes.
\<close>

theorem decodeFrames_encodeFrames:
  assumes "\<forall>f\<in>set fs. wf_frame f" and "length (concat (map frame_bytes fs)) < 2 ^ 31"
  shows "\<exists>payload. encodeFrames fs out = (payload, None) \<and> decodeFrames payload = (coalesce fs, None)"
proof -
  have eq: "concat (map frame_bytes (coalesce fs)) = concat (map frame_bytes fs)"
    using assms(1) by (rule coalesce_bytes)
  have "decodeFrames (concat (map frame_bytes (coalesce fs))) = (coalesce fs, None)"
    using coalesce_wf [OF assms(1)] coalesce_separated by (rule decodeFrames_separated) (simp only: eq assms(2))
  then show ?thesis using encodeFrames_wf [OF assms(1)] eq by simp
qed

theorem decodeFrames_encodeFrames_witness:
  "\<exists>payload.
     encodeFrames [padding 1, padding 2, stream 4 70000 [0xab, 0xcd] True, ack 9 1 2 [], ping] [7]
       = (payload, None) \<and>
     decodeFrames payload = ([padding 3, stream 4 70000 [0xab, 0xcd] True, ack 9 1 2 [], ping], None)"
proof -
  let ?fs = "[padding 1, padding 2, stream 4 70000 [0xab, 0xcd] True, ack 9 1 2 [], ping]"
  have "\<exists>payload. encodeFrames ?fs [7] = (payload, None) \<and> decodeFrames payload = (coalesce ?fs, None)"
    by (rule decodeFrames_encodeFrames) code_simp+
  moreover have "coalesce ?fs = [padding 3, stream 4 70000 [0xab, 0xcd] True, ack 9 1 2 [], ping]"
    by code_simp
  ultimately show ?thesis by simp
qed

text \<open>
  C2. Whatever the peer sends, the frames the decoder hands out, also those before an
  error, are well formed and no two PADDING frames are adjacent; so re-encoding them
  succeeds and decodes to the same frames.
\<close>

theorem decodeFrames_canonical:
  assumes "length payload < 2 ^ 31" and "decodeFrames payload = (fs, err)"
    and "length (concat (map frame_bytes fs)) < 2 ^ 31"
  shows "list_all wf_frame fs \<and> encodeFrames fs out = (concat (map frame_bytes fs), None) \<and>
    decodeFrames (concat (map frame_bytes fs)) = (fs, None)"
proof -
  have "list_all wf_frame fs \<and> separated fs"
    using assms(1) _ assms(2) [unfolded decodeFrames_def]
    by (rule decodeFrames_loop_inv) (simp add: loop_inv_def)
  then show ?thesis
    using assms(3) encodeFrames_wf decodeFrames_separated by (auto simp: list_all_iff)
qed

theorem decodeFrames_canonical_witness:
  "decodeFrames [0, 0, 0x10, 0x40, 0x05, 0x30, 0xaa, 0xbb] = ([padding 2, maxData 5, datagram [0xaa, 0xbb]], None) \<and>
   encodeFrames [padding 2, maxData 5, datagram [0xaa, 0xbb]] []
     = ([0, 0, 0x10, 0x05, 0x31, 2, 0xaa, 0xbb], None) \<and>
   decodeFrames [0, 0, 0x10, 0x05, 0x31, 2, 0xaa, 0xbb] = ([padding 2, maxData 5, datagram [0xaa, 0xbb]], None)"
proof -
  let ?p = "[0, 0, 0x10, 0x40, 0x05, 0x30, 0xaa, 0xbb] :: bytes"
  let ?fs = "[padding 2, maxData 5, datagram [0xaa, 0xbb]]"
  have 1: "decodeFrames ?p = (?fs, None)" by code_simp
  have 2: "concat (map frame_bytes ?fs) = [0, 0, 0x10, 0x05, 0x31, 2, 0xaa, 0xbb]" by code_simp
  show ?thesis
    using decodeFrames_canonical [of ?p ?fs None "[]"] 1 unfolding 2 by simp
qed

end
