(* ===== verification/Quic_Replay.thy ===== *)
theory Quic_Replay
  imports Quic_AckTracker
begin

text \<open>
  The replay test of \<open>SwQuicConnection\<close> (\<open>src/core/io/quic/SwQuicConnection.h\<close>):
  \<open>packetNumberAlreadyConsumed_\<close> asks the acknowledgement tracker for the recent packet
  numbers and rejects everything that has left its window; a packet that passes is
  recorded. What the test needs of the tracker is stated as the locale \<open>packet_history\<close>,
  and the tracker is shown to be one. The theory shows that, over any sequence of arrivals,
  no packet number is accepted twice, and that a packet number within the window that
  was never accepted is.
\<close>

subsection \<open>The fields and functions of the connection\<close>

record rx_space =
  ackTracker :: SwQuicAckTracker
  largestReceivedPn :: u64
  hasLargestReceivedPn :: bool

definition new_rx_space :: rx_space where
  "new_rx_space = \<lparr>ackTracker = newAckTracker, largestReceivedPn = 0, hasLargestReceivedPn = False\<rparr>"

definition packetNumberAlreadyConsumed :: "'a rx_space_scheme \<Rightarrow> u64 \<Rightarrow> bool" where
  "packetNumberAlreadyConsumed sp pn \<longleftrightarrow>
     containsReceivedPacket (ackTracker sp) pn \<or>
     hasLargestReceivedPn sp \<and> pn \<le> largestReceivedPn sp \<and>
       largestReceivedPn sp - pn \<ge> kMaxTrackedPackets"

text \<open>The bookkeeping of an accepted packet in \<open>processFrames_\<close>.\<close>

definition registerPacket :: "'a rx_space_scheme \<Rightarrow> u64 \<Rightarrow> bool \<Rightarrow> 'a rx_space_scheme" where
  "registerPacket sp pn ackEliciting =
     (let sp1 = sp\<lparr>ackTracker := recordReceivedPacket pn ackEliciting (ackTracker sp)\<rparr>
      in if \<not> hasLargestReceivedPn sp1 \<or> pn > largestReceivedPn sp1
         then sp1\<lparr>largestReceivedPn := pn, hasLargestReceivedPn := True\<rparr>
         else sp1)"

text \<open>A sequence of authenticated arrivals: each is tested first and recorded when it passes.\<close>

fun receiveAll :: "rx_space \<Rightarrow> (u64 \<times> bool) list \<Rightarrow> rx_space \<times> u64 list" where
  "receiveAll sp [] = (sp, [])"
| "receiveAll sp ((pn, e) # ps) =
     (if packetNumberAlreadyConsumed sp pn then receiveAll sp ps
      else (case receiveAll (registerPacket sp pn e) ps of (sp', acc) \<Rightarrow> (sp', pn # acc)))"

subsection \<open>What the test relies on\<close>

locale packet_history =
  fixes new :: 't
    and record_pn :: "u64 \<Rightarrow> bool \<Rightarrow> 't \<Rightarrow> 't"
    and contains :: "'t \<Rightarrow> u64 \<Rightarrow> bool"
    and inv :: "'t \<Rightarrow> bool"
    and abs :: "'t \<Rightarrow> u64 set"
    and window :: nat
  assumes inv_new: "inv new" and abs_new: "abs new = {}"
    and inv_record: "inv t \<Longrightarrow> inv (record_pn p e t)"
    and contains_iff: "inv t \<Longrightarrow> contains t p \<longleftrightarrow> p \<in> abs t"
    and record_subset: "inv t \<Longrightarrow> abs (record_pn p e t) \<subseteq> insert p (abs t)"
    and record_keeps: "inv t \<Longrightarrow> q \<in> insert p (abs t) \<Longrightarrow>
      \<forall>r\<in>insert p (abs t). unat r < unat q + window \<Longrightarrow> q \<in> abs (record_pn p e t)"
begin

text \<open>\<open>covers t l S\<close>: with largest number \<open>l\<close>, the history still knows the recent part of \<open>S\<close>.\<close>

definition covers :: "'t \<Rightarrow> u64 \<Rightarrow> u64 set \<Rightarrow> bool" where
  "covers t l S \<longleftrightarrow> inv t \<and> abs t \<subseteq> S \<and> (\<forall>q\<in>S. q \<le> l \<and> (q \<in> abs t \<or> unat q + window \<le> unat l))"

lemma covers_new: "covers new l {}"
  by (simp add: covers_def inv_new abs_new)

lemma covers_record:
  assumes cov: "covers t l S" and l': "l \<le> l'" "p \<le> l'"
  shows "covers (record_pn p e t) l' (insert p S)"
proof -
  have inv: "inv t" and sub: "abs t \<subseteq> S" and bound: "\<And>q. q \<in> S \<Longrightarrow> q \<le> l"
    and old: "\<And>q. q \<in> S \<Longrightarrow> q \<in> abs t \<or> unat q + window \<le> unat l"
    using cov by (auto simp: covers_def)
  have "q \<in> abs (record_pn p e t) \<or> unat q + window \<le> unat l'" if q: "q \<in> insert p S" for q
  proof (cases "q \<in> insert p (abs t)")
    case True
    show ?thesis
    proof (cases "\<forall>r\<in>insert p (abs t). unat r < unat q + window")
      case True
      with \<open>q \<in> insert p (abs t)\<close> show ?thesis using record_keeps [OF inv] by blast
    next
      case False
      then obtain r where r: "r \<in> insert p (abs t)" "unat q + window \<le> unat r" by (auto simp: not_less)
      then have "r \<le> l'" using l' bound sub by (auto intro: order.trans)
      with r(2) show ?thesis by (auto simp: word_le_nat_alt)
    qed
  next
    case False
    with q old have "unat q + window \<le> unat l" by auto
    with l'(1) show ?thesis by (auto simp: word_le_nat_alt)
  qed
  moreover have "q \<le> l'" if "q \<in> insert p S" for q
    using that l' bound by (auto intro: order.trans)
  moreover have "abs (record_pn p e t) \<subseteq> insert p S" using record_subset [OF inv] sub by blast
  ultimately show ?thesis using inv_record [OF inv] by (auto simp: covers_def)
qed

lemma covers_detects:
  "covers t l S \<Longrightarrow> q \<in> S \<Longrightarrow> contains t q \<or> q \<le> l \<and> window \<le> unat l - unat q"
  using contains_iff by (force simp: covers_def)

lemma covers_fresh: "covers t l S \<Longrightarrow> q \<notin> S \<Longrightarrow> \<not> contains t q"
  using contains_iff by (auto simp: covers_def)

end

interpretation ack_history: packet_history newAckTracker recordReceivedPacket
  containsReceivedPacket tracker_inv received 1024
proof
  show "tracker_inv newAckTracker" by (simp add: reachable_inv reach_new)
  show "received newAckTracker = {}" by (simp add: received_def newAckTracker_def)
  fix t p q e
  assume inv: "tracker_inv t"
  show "tracker_inv (recordReceivedPacket p e t)" using inv by (rule record_inv)
  show "containsReceivedPacket t p \<longleftrightarrow> p \<in> received t"
    using inv by (simp add: containsReceivedPacket_def received_def tracker_inv_def contains_loop_iff)
  show "received (recordReceivedPacket p e t) \<subseteq> insert p (received t)"
    using record_received [OF inv] by auto
  assume "q \<in> insert p (received t)" and "\<forall>r\<in>insert p (received t). unat r < unat q + 1024"
  moreover have "newLargest p t \<in> insert p (received t)"
    using inv hd_in_rset [of "m_ranges t"]
    by (auto simp: newLargest_def tracker_isEmpty_def largest_hd max_def received_def tracker_inv_def)
  ultimately show "q \<in> received (recordReceivedPacket p e t)"
    using record_received [OF inv] by blast
qed

subsection \<open>Every packet number is accepted at most once\<close>

definition space_covers :: "rx_space \<Rightarrow> u64 set \<Rightarrow> bool" where
  "space_covers sp S \<longleftrightarrow> ack_history.covers (ackTracker sp) (largestReceivedPn sp) S \<and>
     (hasLargestReceivedPn sp \<longleftrightarrow> S \<noteq> {}) \<and> (S \<noteq> {} \<longrightarrow> largestReceivedPn sp \<in> S)"

lemma space_covers_new: "space_covers new_rx_space {}"
  by (simp add: space_covers_def new_rx_space_def ack_history.covers_new)

lemma space_covers_register:
  assumes "space_covers sp S"
  shows "space_covers (registerPacket sp pn e) (insert pn S)"
proof (cases "\<not> hasLargestReceivedPn sp \<or> pn > largestReceivedPn sp")
  case True
  have "ack_history.covers (ackTracker sp) pn S"
  proof (cases "S = {}")
    case True
    with assms show ?thesis by (simp add: space_covers_def ack_history.covers_def)
  next
    case False
    with \<open>\<not> hasLargestReceivedPn sp \<or> pn > largestReceivedPn sp\<close> assms
    have "largestReceivedPn sp < pn" by (simp add: space_covers_def)
    with assms show ?thesis
      by (fastforce simp: space_covers_def ack_history.covers_def word_nat)
  qed
  then have "ack_history.covers (recordReceivedPacket pn e (ackTracker sp)) pn (insert pn S)"
    by (rule ack_history.covers_record) simp_all
  with True show ?thesis by (simp add: space_covers_def registerPacket_def Let_def)
next
  case False
  then have "pn \<le> largestReceivedPn sp" by (simp add: not_less)
  with assms False show ?thesis
    using ack_history.covers_record [of "ackTracker sp" "largestReceivedPn sp" S]
    by (auto simp: space_covers_def registerPacket_def Let_def)
qed

lemma consumed_iff:
  assumes "space_covers sp S"
  shows "packetNumberAlreadyConsumed sp pn \<longleftrightarrow>
    pn \<in> S \<or> S \<noteq> {} \<and> unat pn + 1024 \<le> unat (largestReceivedPn sp)"
proof -
  let ?l = "largestReceivedPn sp"
  have cov: "ack_history.covers (ackTracker sp) ?l S" and has: "hasLargestReceivedPn sp \<longleftrightarrow> S \<noteq> {}"
    using assms by (simp_all add: space_covers_def)
  have "pn \<le> ?l \<and> kMaxTrackedPackets \<le> ?l - pn \<longleftrightarrow> unat pn + 1024 \<le> unat ?l"
    by (auto simp: kMaxTrackedPackets_def word_nat unat_minus)
  then have eq: "packetNumberAlreadyConsumed sp pn \<longleftrightarrow>
      containsReceivedPacket (ackTracker sp) pn \<or> S \<noteq> {} \<and> unat pn + 1024 \<le> unat ?l"
    using has by (simp add: packetNumberAlreadyConsumed_def)
  show ?thesis
  proof (cases "pn \<in> S")
    case True
    with ack_history.covers_detects [OF cov True] eq show ?thesis by (auto simp: word_nat)
  next
    case False
    with ack_history.covers_fresh [OF cov False] eq show ?thesis by auto
  qed
qed

lemma receiveAll_covers:
  assumes "space_covers sp S" and "receiveAll sp ps = (sp', acc)"
  shows "space_covers sp' (S \<union> set acc) \<and> distinct acc \<and> set acc \<inter> S = {} \<and> set acc \<subseteq> fst ` set ps"
  using assms
proof (induction sp ps arbitrary: S acc rule: receiveAll.induct)
  case (2 sp pn e ps)
  show ?case
  proof (cases "packetNumberAlreadyConsumed sp pn")
    case True
    with 2 show ?thesis by fastforce
  next
    case False
    then have fresh: "pn \<notin> S" using consumed_iff [OF 2(3)] by blast
    obtain acc' where acc': "receiveAll (registerPacket sp pn e) ps = (sp', acc')" "acc = pn # acc'"
      using False 2(4) by (auto split: prod.splits)
    from 2(2) [OF False space_covers_register [OF 2(3)] acc'(1)] show ?thesis
      using acc'(2) fresh by auto
  qed
qed simp

subsection \<open>Properties of the replay test\<close>

text \<open>
  C7. From a new packet number space, over any sequence of arrivals, each packet number is
  accepted at most once, and afterwards a packet number is rejected exactly when it was
  accepted before or lies 1024 or more below the largest accepted number.
\<close>

theorem receiveAll_no_replay:
  assumes "receiveAll new_rx_space ps = (sp, acc)"
  shows "distinct acc \<and> set acc \<subseteq> fst ` set ps \<and>
    (\<forall>pn. packetNumberAlreadyConsumed sp pn \<longleftrightarrow>
       pn \<in> set acc \<or> acc \<noteq> [] \<and> unat pn + 1024 \<le> unat (largestReceivedPn sp)) \<and>
    (acc \<noteq> [] \<longrightarrow> largestReceivedPn sp = Max (set acc))"
proof -
  note cov = receiveAll_covers [OF space_covers_new assms]
  then have sc: "space_covers sp (set acc)" by simp
  have "largestReceivedPn sp = Max (set acc)" if "acc \<noteq> []"
    using sc that by (intro Max_eqI [symmetric]) (auto simp: space_covers_def ack_history.covers_def)
  then show ?thesis using cov consumed_iff [OF sc] by auto
qed

theorem receiveAll_no_replay_witness:
  "let (sp, acc) = receiveAll new_rx_space [(5, True), (5, True), (2000, False), (6, True), (7, True), (5, False), (1999, True)]
   in acc = [5, 2000, 1999] \<and> distinct acc \<and> packetNumberAlreadyConsumed sp 6 \<and>
      largestReceivedPn sp = Max (set acc)"
proof -
  let ?ps = "[(5, True), (5, True), (2000, False), (6, True), (7, True), (5, False), (1999, True)] :: (u64 \<times> bool) list"
  obtain sp acc where eq: "receiveAll new_rx_space ?ps = (sp, acc)" by fastforce
  have "snd (receiveAll new_rx_space ?ps) = [5, 2000, 1999]"
    and "packetNumberAlreadyConsumed (fst (receiveAll new_rx_space ?ps)) 6" by (simp_all add: registerPacket_def packetNumberAlreadyConsumed_def new_rx_space_def containsReceivedPacket_def tracker_eval word_le_nat_alt)
  with eq receiveAll_no_replay [OF eq] show ?thesis by simp
qed

end
