(* ===== verification/Quic_FlowControl.thy ===== *)
theory Quic_FlowControl
  imports Sw_Prelude
begin

text \<open>
  \<open>SwQuicStreamFlowControl\<close> and \<open>SwQuicConnectionFlowControl\<close>
  (\<open>src/core/io/quic/SwQuicFlowControl.h\<close>): the credit a receiver gives its peer and the
  credit a sender has left. Both classes grant credit in the same way; the locale
  \<open>credit_window\<close> states that contract, and both classes are instances of it. The theory
  shows that a peer that is let through never has more than one window of unread data
  outstanding, that the advertised limit never goes back, and that credit is granted again
  when the peer has used it up and the data was read.
\<close>

record SwQuicStreamFlowControl =
  sfc_initialWindow :: u64
  sfc_maxDataLimit :: u64
  sfc_highestReceivedOffset :: u64
  sfc_bytesConsumed :: u64
  sfc_peerMaxData :: u64

record SwQuicConnectionFlowControl =
  cfc_initialWindow :: u64
  cfc_maxDataLimit :: u64
  cfc_bytesReceived :: u64
  cfc_bytesConsumed :: u64
  cfc_peerMaxData :: u64

subsection \<open>Streams\<close>

definition newStreamFlowControl :: "u64 \<Rightarrow> SwQuicStreamFlowControl" where
  "newStreamFlowControl w =
     \<lparr>sfc_initialWindow = w, sfc_maxDataLimit = w, sfc_highestReceivedOffset = 0,
      sfc_bytesConsumed = 0, sfc_peerMaxData = 0\<rparr>"

definition stream_onDataReceived ::
  "u64 \<Rightarrow> u64 \<Rightarrow> SwQuicStreamFlowControl \<Rightarrow> string + SwQuicStreamFlowControl" where
  "stream_onDataReceived off len c =
     (let stop = off + len
      in if stop < off then Inl ''FLOW_CONTROL_ERROR''
         else if stop > sfc_maxDataLimit c then Inl ''FLOW_CONTROL_ERROR''
         else Inr (if stop > sfc_highestReceivedOffset c
                   then c\<lparr>sfc_highestReceivedOffset := stop\<rparr> else c))"

definition stream_consume :: "u64 \<Rightarrow> SwQuicStreamFlowControl \<Rightarrow> SwQuicStreamFlowControl" where
  "stream_consume n c = c\<lparr>sfc_bytesConsumed := sfc_bytesConsumed c + n\<rparr>"

definition shouldSendMaxStreamData :: "SwQuicStreamFlowControl \<Rightarrow> bool" where
  "shouldSendMaxStreamData c \<longleftrightarrow>
     (let threshold = (sfc_maxDataLimit c - sfc_initialWindow c) + sfc_initialWindow c div 2
      in sfc_bytesConsumed c > threshold)"

definition nextMaxStreamData :: "SwQuicStreamFlowControl \<Rightarrow> u64" where
  "nextMaxStreamData c = sfc_bytesConsumed c + sfc_initialWindow c"

definition applyMaxStreamData :: "SwQuicStreamFlowControl \<Rightarrow> u64 \<times> SwQuicStreamFlowControl" where
  "applyMaxStreamData c =
     (let c1 = c\<lparr>sfc_maxDataLimit := nextMaxStreamData c\<rparr> in (sfc_maxDataLimit c1, c1))"

definition stream_setPeerMaxData :: "u64 \<Rightarrow> SwQuicStreamFlowControl \<Rightarrow> SwQuicStreamFlowControl" where
  "stream_setPeerMaxData limit c = c\<lparr>sfc_peerMaxData := limit\<rparr>"

definition stream_sendableBytes :: "SwQuicStreamFlowControl \<Rightarrow> u64 \<Rightarrow> u64" where
  "stream_sendableBytes c alreadySent =
     (if alreadySent \<ge> sfc_peerMaxData c then 0 else sfc_peerMaxData c - alreadySent)"

definition stream_isBlocked :: "SwQuicStreamFlowControl \<Rightarrow> u64 \<Rightarrow> u64 \<Rightarrow> bool" where
  "stream_isBlocked c wantToSend alreadySent \<longleftrightarrow> alreadySent + wantToSend > sfc_peerMaxData c"

subsection \<open>Connections\<close>

definition newConnectionFlowControl :: "u64 \<Rightarrow> SwQuicConnectionFlowControl" where
  "newConnectionFlowControl w =
     \<lparr>cfc_initialWindow = w, cfc_maxDataLimit = w, cfc_bytesReceived = 0,
      cfc_bytesConsumed = 0, cfc_peerMaxData = 0\<rparr>"

definition connection_onDataReceived ::
  "u64 \<Rightarrow> SwQuicConnectionFlowControl \<Rightarrow> string + SwQuicConnectionFlowControl" where
  "connection_onDataReceived len c =
     (let total = cfc_bytesReceived c + len
      in if total < cfc_bytesReceived c then Inl ''FLOW_CONTROL_ERROR''
         else if total > cfc_maxDataLimit c then Inl ''FLOW_CONTROL_ERROR''
         else Inr (c\<lparr>cfc_bytesReceived := total\<rparr>))"

definition connection_consume :: "u64 \<Rightarrow> SwQuicConnectionFlowControl \<Rightarrow> SwQuicConnectionFlowControl" where
  "connection_consume n c = c\<lparr>cfc_bytesConsumed := cfc_bytesConsumed c + n\<rparr>"

definition shouldSendMaxData :: "SwQuicConnectionFlowControl \<Rightarrow> bool" where
  "shouldSendMaxData c \<longleftrightarrow>
     (let threshold = (cfc_maxDataLimit c - cfc_initialWindow c) + cfc_initialWindow c div 2
      in cfc_bytesConsumed c > threshold)"

definition nextMaxData :: "SwQuicConnectionFlowControl \<Rightarrow> u64" where
  "nextMaxData c = cfc_bytesConsumed c + cfc_initialWindow c"

definition applyMaxData :: "SwQuicConnectionFlowControl \<Rightarrow> u64 \<times> SwQuicConnectionFlowControl" where
  "applyMaxData c = (let c1 = c\<lparr>cfc_maxDataLimit := nextMaxData c\<rparr> in (cfc_maxDataLimit c1, c1))"

definition connection_setPeerMaxData ::
  "u64 \<Rightarrow> SwQuicConnectionFlowControl \<Rightarrow> SwQuicConnectionFlowControl" where
  "connection_setPeerMaxData limit c = c\<lparr>cfc_peerMaxData := limit\<rparr>"

definition connection_sendableBytes :: "SwQuicConnectionFlowControl \<Rightarrow> u64 \<Rightarrow> u64" where
  "connection_sendableBytes c alreadySent =
     (if alreadySent \<ge> cfc_peerMaxData c then 0 else cfc_peerMaxData c - alreadySent)"

definition connection_isBlocked :: "SwQuicConnectionFlowControl \<Rightarrow> u64 \<Rightarrow> u64 \<Rightarrow> bool" where
  "connection_isBlocked c wantToSend alreadySent \<longleftrightarrow> alreadySent + wantToSend > cfc_peerMaxData c"

subsection \<open>The contract of a credit window\<close>

text \<open>
  \<open>taken\<close> is what the peer was let through with, \<open>used\<close> what the application has read. The
  application reads only what has arrived, and the limits stay inside 64 bits; both are
  the callers' side of the contract, written into the steps \<open>credit_step\<close>.
\<close>

locale credit_window =
  fixes window limit taken used :: "'c \<Rightarrow> u64"
    and receive :: "'a \<Rightarrow> 'c \<Rightarrow> string + 'c"
    and consume :: "u64 \<Rightarrow> 'c \<Rightarrow> 'c"
    and should_grant :: "'c \<Rightarrow> bool"
    and grant :: "'c \<Rightarrow> u64 \<times> 'c"
  assumes receive_ok: "receive a c = Inr c' \<Longrightarrow>
      window c' = window c \<and> limit c' = limit c \<and> used c' = used c \<and>
      (taken c \<le> limit c \<longrightarrow> taken c \<le> taken c' \<and> taken c' \<le> limit c')"
    and consume_eq: "window (consume n c) = window c" "limit (consume n c) = limit c"
      "taken (consume n c) = taken c" "used (consume n c) = used c + n"
    and should_iff: "should_grant c \<longleftrightarrow> used c > (limit c - window c) + window c div 2"
    and grant_eq: "fst (grant c) = used c + window c" "limit (snd (grant c)) = used c + window c"
      "window (snd (grant c)) = window c" "taken (snd (grant c)) = taken c"
      "used (snd (grant c)) = used c"
begin

definition credit_inv :: "'c \<Rightarrow> bool" where
  "credit_inv c \<longleftrightarrow> used c \<le> taken c \<and> taken c \<le> limit c \<and> window c \<le> limit c \<and>
     unat (limit c) \<le> unat (used c) + unat (window c)"

inductive credit_step :: "'c \<Rightarrow> 'c \<Rightarrow> bool" where
  step_receive: "receive a c = Inr c' \<Longrightarrow> credit_step c c'"
| step_consume: "unat (used c) + unat n \<le> unat (taken c) \<Longrightarrow> credit_step c (consume n c)"
| step_grant: "unat (used c) + unat (window c) < 2 ^ 64 \<Longrightarrow> credit_step c (snd (grant c))"

lemma credit_step_inv: "credit_step c c' \<Longrightarrow> credit_inv c \<Longrightarrow> credit_inv c'"
proof (induction rule: credit_step.induct)
  case (step_receive a c c')
  then show ?case using receive_ok [OF step_receive(1)] by (auto simp: credit_inv_def)
next
  case (step_consume c n)
  then have "unat (used c + n) = unat (used c) + unat n"
    using unsigned_less [of "taken c", where 'a = nat] by (intro unat_plus) simp
  with step_consume show ?case by (auto simp: credit_inv_def consume_eq word_nat)
next
  case (step_grant c)
  then have "unat (used c + window c) = unat (used c) + unat (window c)" by (intro unat_plus)
  with step_grant show ?case by (auto simp: credit_inv_def grant_eq word_nat)
qed

lemma credit_step_mono: "credit_step c c' \<Longrightarrow> credit_inv c \<Longrightarrow> limit c \<le> limit c'"
proof (induction rule: credit_step.induct)
  case (step_receive a c c')
  then show ?case using receive_ok [OF step_receive(1)] by simp
next
  case (step_grant c)
  then have "unat (used c + window c) = unat (used c) + unat (window c)" by (intro unat_plus)
  with step_grant show ?case by (auto simp: credit_inv_def grant_eq word_nat)
qed (simp add: consume_eq)

lemma credit_steps_inv: "credit_step\<^sup>*\<^sup>* c c' \<Longrightarrow> credit_inv c \<Longrightarrow> credit_inv c' \<and> limit c \<le> limit c'"
  by (induction rule: rtranclp_induct) (auto dest: credit_step_inv credit_step_mono intro: order.trans)

lemma credit_bound: "credit_inv c \<Longrightarrow> unat (taken c) - unat (used c) \<le> unat (window c)"
  by (auto simp: credit_inv_def word_nat)

lemma credit_not_stuck:
  assumes "credit_inv c" and "taken c = limit c" and "used c = taken c" and "0 < window c"
    and "unat (used c) + unat (window c) < 2 ^ 64"
  shows "should_grant c \<and> unat (limit (snd (grant c))) = unat (limit c) + unat (window c)"
proof -
  have w: "window c \<le> limit c" using assms(1) by (simp add: credit_inv_def)
  have half: "unat (window c div 2) < unat (window c)"
    using assms(4) by (simp add: word_nat unat_div_distrib)
  have "unat (limit c - window c + window c div 2) = unat (limit c) - unat (window c) + unat (window c div 2)"
    using w half unsigned_less [of "limit c", where 'a = nat]
    by (subst unat_plus) (auto simp: unat_minus word_nat)
  then have "should_grant c" using assms(2,3) w half by (simp add: should_iff word_nat)
  moreover have "unat (used c + window c) = unat (used c) + unat (window c)"
    using assms(5) by (rule unat_plus)
  ultimately show ?thesis using assms(2,3) by (simp add: grant_eq)
qed

end

interpretation stream_window: credit_window sfc_initialWindow sfc_maxDataLimit
  sfc_highestReceivedOffset sfc_bytesConsumed "\<lambda>(off, len). stream_onDataReceived off len"
  stream_consume shouldSendMaxStreamData applyMaxStreamData
  by unfold_locales
    (auto simp: stream_onDataReceived_def stream_consume_def shouldSendMaxStreamData_def
      applyMaxStreamData_def nextMaxStreamData_def Let_def not_less split: if_splits)

interpretation connection_window: credit_window cfc_initialWindow cfc_maxDataLimit
  cfc_bytesReceived cfc_bytesConsumed connection_onDataReceived
  connection_consume shouldSendMaxData applyMaxData
  by unfold_locales
    (auto simp: connection_onDataReceived_def connection_consume_def shouldSendMaxData_def
      applyMaxData_def nextMaxData_def Let_def not_less split: if_splits)

lemma stream_window_new: "stream_window.credit_inv (newStreamFlowControl w)"
  by (simp add: stream_window.credit_inv_def newStreamFlowControl_def)

lemma connection_window_new: "connection_window.credit_inv (newConnectionFlowControl w)"
  by (simp add: connection_window.credit_inv_def newConnectionFlowControl_def)

text \<open>What the two guards of \<open>onDataReceived\<close> amount to: the sum does not wrap and fits the limit.\<close>

lemma sum_wraps_iff: "a + b < a \<longleftrightarrow> 2 ^ 64 \<le> unat a + unat b" for a b :: u64
proof (cases "unat a + unat b < 2 ^ 64")
  case True
  then have "unat (a + b) = unat a + unat b" by (rule unat_plus)
  with True show ?thesis by (simp add: word_less_nat_alt)
next
  case False
  then have "unat (a + b) = unat a + unat b - 2 ^ 64"
    by (subst unat_plus_if_size) (simp_all add: word_size)
  with False show ?thesis
    using unsigned_less [of b, where 'a = nat] by (simp add: word_less_nat_alt)
qed

lemma sum_le_iff: "\<not> a + b < a \<Longrightarrow> a + b \<le> c \<longleftrightarrow> unat a + unat b \<le> unat c" for a b c :: u64
  unfolding sum_wraps_iff by (subst word_le_nat_alt) (simp add: unat_plus)

subsection \<open>Properties of flow control\<close>

text \<open>
  A stream's flow control accepts a range of bytes exactly when its end, computed
  without wrap-around, is within the advertised limit; then it raises the highest
  offset to that end at most, and otherwise it reports FLOW\_CONTROL\_ERROR.
\<close>

theorem stream_onDataReceived_exact:
  "stream_onDataReceived off len c =
     (if unat off + unat len \<le> unat (sfc_maxDataLimit c)
      then Inr (c\<lparr>sfc_highestReceivedOffset := max (sfc_highestReceivedOffset c) (off + len)\<rparr>)
      else Inl ''FLOW_CONTROL_ERROR'')"
proof (cases "off + len < off")
  case True
  then have "\<not> unat off + unat len \<le> unat (sfc_maxDataLimit c)"
    using sum_wraps_iff [of off len] unsigned_less [of "sfc_maxDataLimit c", where 'a = nat] by simp
  with True show ?thesis by (simp add: stream_onDataReceived_def)
next
  case False
  then show ?thesis
    using sum_le_iff [OF False, of "sfc_maxDataLimit c"]
    by (auto simp: stream_onDataReceived_def Let_def not_less max_def not_le)
qed

text \<open>
  C8. From a new stream window, after any sequence of accepted frames, reads and
  MAX\_STREAM\_DATA updates, the peer has at most one window of unread bytes outstanding and
  the advertised limit has not gone back.
\<close>

theorem stream_window_bounded:
  assumes "stream_window.credit_step\<^sup>*\<^sup>* (newStreamFlowControl w) c" and "stream_window.credit_step c c'"
  shows "sfc_highestReceivedOffset c \<le> sfc_maxDataLimit c \<and>
    unat (sfc_highestReceivedOffset c) - unat (sfc_bytesConsumed c) \<le> unat (sfc_initialWindow c) \<and>
    sfc_maxDataLimit c \<le> sfc_maxDataLimit c'"
proof -
  have inv: "stream_window.credit_inv c"
    using stream_window.credit_steps_inv [OF assms(1) stream_window_new] by simp
  then show ?thesis
    using stream_window.credit_bound stream_window.credit_step_mono [OF assms(2) inv]
    by (simp add: stream_window.credit_inv_def)
qed

lemma stream_receive_step:
  "stream_onDataReceived off len c = Inr c' \<Longrightarrow> stream_window.credit_step c c'"
  by (rule stream_window.step_receive [where a = "(off, len)"]) simp

lemmas flow_eval =
  newStreamFlowControl_def stream_onDataReceived_def stream_consume_def applyMaxStreamData_def nextMaxStreamData_def
  stream_setPeerMaxData_def newConnectionFlowControl_def connection_onDataReceived_def connection_consume_def
  applyMaxData_def nextMaxData_def connection_setPeerMaxData_def shouldSendMaxStreamData_def shouldSendMaxData_def
  stream_sendableBytes_def connection_sendableBytes_def Let_def

theorem stream_window_bounded_witness:
  "let c = stream_consume 60 (newStreamFlowControl 100\<lparr>sfc_highestReceivedOffset := 80\<rparr>);
       c' = snd (applyMaxStreamData c)
   in shouldSendMaxStreamData c \<and> unat (sfc_highestReceivedOffset c) - unat (sfc_bytesConsumed c) \<le> 100 \<and>
      sfc_maxDataLimit c' = 160 \<and> sfc_maxDataLimit c \<le> sfc_maxDataLimit c'"
proof -
  let ?a = "newStreamFlowControl 100" and ?b = "newStreamFlowControl 100\<lparr>sfc_highestReceivedOffset := 80\<rparr>"
  let ?c = "stream_consume 60 ?b"
  have "stream_onDataReceived 50 30 ?a = Inr ?b" by (simp add: flow_eval)
  then have 1: "stream_window.credit_step ?a ?b" by (rule stream_receive_step)
  have 2: "stream_window.credit_step ?b ?c"
    by (rule stream_window.step_consume) (simp add: newStreamFlowControl_def)
  have 3: "stream_window.credit_step ?c (snd (applyMaxStreamData ?c))"
    by (rule stream_window.step_grant) (simp add: stream_consume_def newStreamFlowControl_def)
  have "stream_window.credit_step\<^sup>*\<^sup>* ?a ?c" using 1 2 by (rule two_steps)
  moreover have "shouldSendMaxStreamData ?c" and "sfc_maxDataLimit (snd (applyMaxStreamData ?c)) = 160"
    and "sfc_initialWindow ?c = 100" by (simp_all add: flow_eval)
  ultimately show ?thesis using stream_window_bounded [OF _ 3, of 100] by (simp add: Let_def)
qed

text \<open>
  C9. The connection window is bounded in the same way.
\<close>

theorem connection_window_bounded:
  assumes "connection_window.credit_step\<^sup>*\<^sup>* (newConnectionFlowControl w) c"
    and "connection_window.credit_step c c'"
  shows "cfc_bytesReceived c \<le> cfc_maxDataLimit c \<and>
    unat (cfc_bytesReceived c) - unat (cfc_bytesConsumed c) \<le> unat (cfc_initialWindow c) \<and>
    cfc_maxDataLimit c \<le> cfc_maxDataLimit c'"
proof -
  have inv: "connection_window.credit_inv c"
    using connection_window.credit_steps_inv [OF assms(1) connection_window_new] by simp
  then show ?thesis
    using connection_window.credit_bound connection_window.credit_step_mono [OF assms(2) inv]
    by (simp add: connection_window.credit_inv_def)
qed

theorem connection_window_bounded_witness:
  "let c = newConnectionFlowControl 100\<lparr>cfc_bytesReceived := 70\<rparr>
   in connection_onDataReceived 70 (newConnectionFlowControl 100) = Inr c \<and>
      unat (cfc_bytesReceived c) - unat (cfc_bytesConsumed c) \<le> unat (cfc_initialWindow c)"
proof -
  let ?a = "newConnectionFlowControl 100" and ?c = "newConnectionFlowControl 100\<lparr>cfc_bytesReceived := 70\<rparr>"
  have eq: "connection_onDataReceived 70 ?a = Inr ?c" by (simp add: flow_eval)
  then have 1: "connection_window.credit_step ?a ?c" by (rule connection_window.step_receive)
  have 2: "connection_window.credit_step ?c (connection_consume 0 ?c)"
    by (rule connection_window.step_consume) (simp add: newConnectionFlowControl_def)
  have "connection_window.credit_step\<^sup>*\<^sup>* ?a ?c" using 1 by (rule one_step)
  with connection_window_bounded [of 100 ?c] 2 eq show ?thesis by (simp add: Let_def)
qed

text \<open>
  C10. Neither window stalls: when the peer has used up the advertised limit and the
  application has read everything, an update is due, and it grants a whole new window.
\<close>

theorem flow_control_not_stuck:
  assumes "stream_window.credit_step\<^sup>*\<^sup>* (newStreamFlowControl w) c"
    and "connection_window.credit_step\<^sup>*\<^sup>* (newConnectionFlowControl v) d"
    and "sfc_bytesConsumed c = sfc_maxDataLimit c" and "0 < sfc_initialWindow c"
    and "unat (sfc_maxDataLimit c) + unat (sfc_initialWindow c) < 2 ^ 64"
    and "cfc_bytesConsumed d = cfc_maxDataLimit d" and "0 < cfc_initialWindow d"
    and "unat (cfc_maxDataLimit d) + unat (cfc_initialWindow d) < 2 ^ 64"
  shows "shouldSendMaxStreamData c \<and>
      unat (fst (applyMaxStreamData c)) = unat (sfc_maxDataLimit c) + unat (sfc_initialWindow c) \<and>
    shouldSendMaxData d \<and>
      unat (fst (applyMaxData d)) = unat (cfc_maxDataLimit d) + unat (cfc_initialWindow d)"
proof -
  have c: "stream_window.credit_inv c" and d: "connection_window.credit_inv d"
    using stream_window.credit_steps_inv [OF assms(1) stream_window_new]
      connection_window.credit_steps_inv [OF assms(2) connection_window_new] by simp_all
  have "sfc_highestReceivedOffset c = sfc_maxDataLimit c" and "cfc_bytesReceived d = cfc_maxDataLimit d"
    using c d assms(3,6) by (auto simp: stream_window.credit_inv_def connection_window.credit_inv_def)
  then show ?thesis
    using stream_window.credit_not_stuck [OF c] connection_window.credit_not_stuck [OF d] assms(3-8)
      stream_window.grant_eq(1,2) connection_window.grant_eq(1,2) by metis
qed

theorem flow_control_not_stuck_witness:
  "let c = stream_consume 9 (newStreamFlowControl 9\<lparr>sfc_highestReceivedOffset := 9\<rparr>);
       d = connection_consume 5 (newConnectionFlowControl 5\<lparr>cfc_bytesReceived := 5\<rparr>)
   in shouldSendMaxStreamData c \<and> unat (fst (applyMaxStreamData c)) = 18 \<and>
      shouldSendMaxData d \<and> unat (fst (applyMaxData d)) = 10"
proof -
  let ?a = "newStreamFlowControl 9" and ?b = "newStreamFlowControl 9\<lparr>sfc_highestReceivedOffset := 9\<rparr>"
  let ?x = "newConnectionFlowControl 5" and ?y = "newConnectionFlowControl 5\<lparr>cfc_bytesReceived := 5\<rparr>"
  let ?c = "stream_consume 9 ?b" and ?d = "connection_consume 5 ?y"
  have "stream_onDataReceived 0 9 ?a = Inr ?b" by (simp add: flow_eval)
  then have 1: "stream_window.credit_step ?a ?b" by (rule stream_receive_step)
  have 2: "stream_window.credit_step ?b ?c"
    by (rule stream_window.step_consume) (simp add: newStreamFlowControl_def)
  have "connection_onDataReceived 5 ?x = Inr ?y" by (simp add: flow_eval)
  then have 3: "connection_window.credit_step ?x ?y" by (rule connection_window.step_receive)
  have 4: "connection_window.credit_step ?y ?d"
    by (rule connection_window.step_consume) (simp add: newConnectionFlowControl_def)
  have "stream_window.credit_step\<^sup>*\<^sup>* ?a ?c" using 1 2 by (rule two_steps)
  moreover have "connection_window.credit_step\<^sup>*\<^sup>* ?x ?d" using 3 4 by (rule two_steps)
  ultimately show ?thesis
    using flow_control_not_stuck [of 9 ?c 5 ?d]
    by (simp add: Let_def stream_consume_def connection_consume_def newStreamFlowControl_def
        newConnectionFlowControl_def)
qed

text \<open>
  C14. On the sending side, as long as the sum of the sent and the wanted bytes does not
  wrap around, \<open>isBlocked\<close> answers yes exactly when more is wanted than \<open>sendableBytes\<close> says.
\<close>

theorem isBlocked_iff_sendable:
  assumes "unat alreadySent + unat wantToSend < 2 ^ 64"
  shows "(stream_isBlocked c wantToSend alreadySent \<longleftrightarrow>
      sfc_peerMaxData c < alreadySent \<or> wantToSend > stream_sendableBytes c alreadySent) \<and>
    (connection_isBlocked d wantToSend alreadySent \<longleftrightarrow>
      cfc_peerMaxData d < alreadySent \<or> wantToSend > connection_sendableBytes d alreadySent)"
  using unat_plus [OF assms]
  by (auto simp: stream_isBlocked_def stream_sendableBytes_def connection_isBlocked_def
      connection_sendableBytes_def word_nat unat_minus)

theorem isBlocked_iff_sendable_witness:
  "stream_isBlocked (stream_setPeerMaxData 50 (newStreamFlowControl 9)) 31 20 \<and>
   \<not> connection_isBlocked (connection_setPeerMaxData 50 (newConnectionFlowControl 9)) 31 19"
proof -
  have "(20 :: u64) < 50" "(31 :: u64) > stream_sendableBytes (stream_setPeerMaxData 50 (newStreamFlowControl 9)) 20"
    "\<not> (31 :: u64) > connection_sendableBytes (connection_setPeerMaxData 50 (newConnectionFlowControl 9)) 19"
    "\<not> cfc_peerMaxData (connection_setPeerMaxData 50 (newConnectionFlowControl 9)) < 19" by (simp_all add: flow_eval)
  then show ?thesis
    using isBlocked_iff_sendable [of 20 31 "stream_setPeerMaxData 50 (newStreamFlowControl 9)" undefined]
      isBlocked_iff_sendable [of 19 31 undefined "connection_setPeerMaxData 50 (newConnectionFlowControl 9)"]
    by simp
qed

end
