(* ===== verification/Quic_Dplpmtud.thy ===== *)
theory Quic_Dplpmtud
  imports Sw_Prelude
begin

text \<open>
  \<open>SwQuicDplpmtud\<close> (\<open>src/core/io/quic/SwQuicDplpmtud.h\<close>): the binary search for the largest
  datagram a path carries, driven by the acknowledgement and the loss of probes. C \<open>int\<close>s
  are \<open>int\<close>: all values stay between -1 and the largest size the search was started with.
  The theory shows the invariant of the search for every sequence of events, and that on
  a path of a fixed size the search ends with exactly that size, after a number of probed
  sizes that is logarithmic in the range.
\<close>

datatype dplpmtud_State = Disabled | Searching | Complete | Error

record SwQuicDplpmtud =
  m_state :: dplpmtud_State
  m_low :: int
  m_high :: int
  m_pmtu :: int
  m_probeSize :: int
  m_probeCount :: int

definition kBasePmtu :: int where "kBasePmtu = 1200"
definition kMaxProbes :: int where "kMaxProbes = 3"

definition newDplpmtud :: SwQuicDplpmtud where
  "newDplpmtud = \<lparr>m_state = Disabled, m_low = kBasePmtu, m_high = kBasePmtu, m_pmtu = kBasePmtu,
     m_probeSize = 0, m_probeCount = 0\<rparr>"

definition startSearch :: "int \<Rightarrow> SwQuicDplpmtud \<Rightarrow> SwQuicDplpmtud" where
  "startSearch maxPmtu d =
     (let d1 = d\<lparr>m_low := kBasePmtu, m_high := (if maxPmtu > kBasePmtu then maxPmtu else kBasePmtu),
                 m_pmtu := kBasePmtu, m_probeSize := 0, m_probeCount := 0\<rparr>
      in d1\<lparr>m_state := (if m_high d1 > m_low d1 then Searching else Complete)\<rparr>)"

text \<open>C division truncates towards zero.\<close>

definition cdiv :: "int \<Rightarrow> int \<Rightarrow> int" where
  "cdiv a b = sgn a * sgn b * (\<bar>a\<bar> div \<bar>b\<bar>)"

definition candidate :: "SwQuicDplpmtud \<Rightarrow> int" where
  "candidate d = m_low d + cdiv (m_high d - m_low d + 1) 2"

definition nextProbeSize :: "SwQuicDplpmtud \<Rightarrow> int \<times> SwQuicDplpmtud" where
  "nextProbeSize d =
     (if m_state d \<noteq> Searching then (0, d)
      else let d1 = (if m_probeSize d = 0 then d\<lparr>m_probeSize := candidate d\<rparr> else d)
           in (m_probeSize d1, d1))"

definition advance :: "SwQuicDplpmtud \<Rightarrow> SwQuicDplpmtud" where
  "advance d =
     (if m_low d \<ge> m_high d then d\<lparr>m_state := Complete, m_probeSize := 0\<rparr>
      else let next = candidate d
           in if next \<le> m_pmtu d then d\<lparr>m_state := Complete, m_probeSize := 0\<rparr>
              else d\<lparr>m_probeSize := next\<rparr>)"

definition onProbeAcked :: "int \<Rightarrow> SwQuicDplpmtud \<Rightarrow> SwQuicDplpmtud" where
  "onProbeAcked sz d =
     (if sz \<noteq> m_probeSize d then d
      else let d1 = (if sz > m_pmtu d then d\<lparr>m_pmtu := sz\<rparr> else d)
           in advance (d1\<lparr>m_low := sz, m_probeSize := 0, m_probeCount := 0\<rparr>))"

definition onProbeLost :: "int \<Rightarrow> SwQuicDplpmtud \<Rightarrow> SwQuicDplpmtud" where
  "onProbeLost sz d =
     (if sz \<noteq> m_probeSize d then d
      else let d1 = d\<lparr>m_probeCount := m_probeCount d + 1\<rparr>
           in if m_probeCount d1 \<ge> kMaxProbes
              then advance (d1\<lparr>m_high := sz - 1, m_probeSize := 0, m_probeCount := 0\<rparr>)
              else d1)"

definition onBlackholeDetected :: "SwQuicDplpmtud \<Rightarrow> SwQuicDplpmtud" where
  "onBlackholeDetected d =
     (let d1 = d\<lparr>m_high := (if m_pmtu d > kBasePmtu then m_pmtu d - 1 else kBasePmtu),
                 m_low := kBasePmtu, m_pmtu := kBasePmtu, m_probeSize := 0, m_probeCount := 0\<rparr>
      in d1\<lparr>m_state := (if m_high d1 > m_low d1 then Searching else Complete)\<rparr>)"

subsection \<open>The invariant of the search\<close>

definition search_inv :: "SwQuicDplpmtud \<Rightarrow> bool" where
  "search_inv d \<longleftrightarrow> kBasePmtu \<le> m_low d \<and> m_low d \<le> m_high d \<and> m_pmtu d = m_low d \<and>
     0 \<le> m_probeCount d \<and> m_probeCount d < kMaxProbes \<and>
     (m_state d = Searching \<longleftrightarrow> m_low d < m_high d) \<and>
     (m_probeSize d = 0 \<or> m_state d = Searching \<and> m_probeSize d = candidate d)"

text \<open>
  Events: the caller reports on probes it has sent, so their size is positive; any other
  order of events, stale sizes included, is allowed.
\<close>

inductive search_step :: "SwQuicDplpmtud \<Rightarrow> SwQuicDplpmtud \<Rightarrow> bool" where
  step_start: "search_step d (startSearch n d)"
| step_next: "search_step d (snd (nextProbeSize d))"
| step_acked: "0 < sz \<Longrightarrow> search_step d (onProbeAcked sz d)"
| step_lost: "0 < sz \<Longrightarrow> search_step d (onProbeLost sz d)"
| step_blackhole: "search_step d (onBlackholeDetected d)"

lemma cdiv_pos: "0 \<le> a \<Longrightarrow> cdiv a 2 = a div 2"
  by (auto simp: cdiv_def sgn_if)

lemma candidate_between:
  "m_low d < m_high d \<Longrightarrow> m_low d < candidate d \<and> candidate d \<le> m_high d"
  by (auto simp: candidate_def cdiv_pos)

lemma advance_fields [simp]:
  "m_low (advance d) = m_low d" "m_high (advance d) = m_high d" "m_pmtu (advance d) = m_pmtu d"
  "m_probeCount (advance d) = m_probeCount d"
  by (simp_all add: advance_def Let_def)

lemma candidate_upd [simp]:
  "candidate (d\<lparr>m_state := s\<rparr>) = candidate d" "candidate (d\<lparr>m_probeSize := n\<rparr>) = candidate d"
  "candidate (d\<lparr>m_probeCount := n\<rparr>) = candidate d" "candidate (d\<lparr>m_pmtu := n\<rparr>) = candidate d"
  by (simp_all add: candidate_def)

lemma advance_inv:
  assumes "kBasePmtu \<le> m_low d" "m_low d \<le> m_high d" "m_pmtu d = m_low d" "m_probeCount d = 0"
    "m_probeSize d = 0" "m_state d = Searching"
  shows "search_inv (advance d)"
  using assms candidate_between [of d]
  by (auto simp: advance_def search_inv_def kMaxProbes_def)

lemma search_invD:
  assumes "search_inv d" and "sz = m_probeSize d" and "0 < sz"
  shows "m_state d = Searching" "m_low d < sz" "sz \<le> m_high d" "sz = candidate d"
  using assms candidate_between [of d] by (auto simp: search_inv_def)

lemma onProbeAcked_inv: "search_inv d \<Longrightarrow> 0 < sz \<Longrightarrow> search_inv (onProbeAcked sz d)"
proof (cases "sz = m_probeSize d")
  case True
  assume inv: "search_inv d" and "0 < sz"
  note facts = search_invD [OF inv True \<open>0 < sz\<close>]
  have "m_pmtu d = m_low d" "kBasePmtu \<le> m_low d" using inv by (auto simp: search_inv_def)
  with True facts show ?thesis
    by (auto simp: onProbeAcked_def Let_def intro!: advance_inv)
qed (simp add: onProbeAcked_def)

lemma onProbeLost_inv: "search_inv d \<Longrightarrow> 0 < sz \<Longrightarrow> search_inv (onProbeLost sz d)"
proof (cases "sz = m_probeSize d")
  case True
  assume inv: "search_inv d" and "0 < sz"
  note facts = search_invD [OF inv True \<open>0 < sz\<close>]
  show ?thesis
  proof (cases "m_probeCount d + 1 \<ge> kMaxProbes")
    case True
    have "m_pmtu d = m_low d" "kBasePmtu \<le> m_low d" using inv by (auto simp: search_inv_def)
    with True \<open>sz = m_probeSize d\<close> facts show ?thesis
      by (auto simp: onProbeLost_def Let_def intro!: advance_inv)
  next
    case False
    with \<open>sz = m_probeSize d\<close> inv show ?thesis
      by (auto simp: onProbeLost_def Let_def search_inv_def)
  qed
qed (simp add: onProbeLost_def)

lemma search_step_inv: "search_step d d' \<Longrightarrow> search_inv d \<Longrightarrow> search_inv d'"
proof (induction rule: search_step.induct)
  case (step_start d n)
  then show ?case by (simp add: startSearch_def search_inv_def kMaxProbes_def Let_def)
next
  case (step_next d)
  then show ?case by (auto simp: nextProbeSize_def search_inv_def Let_def)
next
  case (step_blackhole d)
  then show ?case by (auto simp: onBlackholeDetected_def search_inv_def kMaxProbes_def Let_def)
qed (simp_all add: onProbeAcked_inv onProbeLost_inv)

lemma new_inv: "search_inv newDplpmtud"
  by (simp add: newDplpmtud_def search_inv_def kMaxProbes_def)

lemma search_steps_inv: "search_step\<^sup>*\<^sup>* d d' \<Longrightarrow> search_inv d \<Longrightarrow> search_inv d'"
  by (induction rule: rtranclp_induct) (auto dest: search_step_inv)

subsection \<open>A search on a fixed path\<close>

text \<open>
  One round against a path that carries datagrams of up to \<open>path\<close> bytes: the probe of the
  next size is acknowledged, or it is lost \<open>kMaxProbes\<close> times.
\<close>

definition probeRound :: "int \<Rightarrow> SwQuicDplpmtud \<Rightarrow> SwQuicDplpmtud" where
  "probeRound path d =
     (case nextProbeSize d of (sz, d1) \<Rightarrow>
        if sz = 0 then d1
        else if sz \<le> path then onProbeAcked sz d1
        else onProbeLost sz (onProbeLost sz (onProbeLost sz d1)))"

lemma lost_thrice:
  assumes inv: "search_inv d" and sz: "sz = m_probeSize d" "0 < sz" and "m_probeCount d = 0"
  shows "onProbeLost sz (onProbeLost sz (onProbeLost sz d)) =
    advance (d\<lparr>m_high := sz - 1, m_probeSize := 0, m_probeCount := 0\<rparr>)"
  using assms by (simp add: onProbeLost_def kMaxProbes_def Let_def)

lemma probeRound_spec:
  assumes inv: "search_inv d" and cnt: "m_probeCount d = 0" and path: "m_low d \<le> path" "path \<le> m_high d"
  shows "search_inv (probeRound path d) \<and> m_probeCount (probeRound path d) = 0 \<and>
    m_low (probeRound path d) \<le> path \<and> path \<le> m_high (probeRound path d) \<and>
    m_high (probeRound path d) - m_low (probeRound path d) \<le> (m_high d - m_low d) div 2"
proof (cases "m_state d = Searching")
  case False
  with assms show ?thesis by (auto simp: probeRound_def nextProbeSize_def search_inv_def)
next
  case True
  define d1 where "d1 = snd (nextProbeSize d)"
  have lt: "m_low d < m_high d" using True inv by (simp add: search_inv_def)
  have inv1: "search_inv d1" unfolding d1_def using step_next inv by (rule search_step_inv)
  have d1: "m_probeSize d1 = candidate d" "m_low d1 = m_low d" "m_high d1 = m_high d"
    "m_probeCount d1 = 0" "nextProbeSize d = (candidate d, d1)"
    using True inv cnt by (auto simp: d1_def nextProbeSize_def search_inv_def Let_def)
  have between: "m_low d < candidate d" "candidate d \<le> m_high d" using candidate_between [OF lt] by auto
  have pos: "0 < candidate d" using between inv by (simp add: search_inv_def kBasePmtu_def)
  have half: "m_high d - candidate d \<le> (m_high d - m_low d) div 2"
    "candidate d - 1 - m_low d \<le> (m_high d - m_low d) div 2"
    using lt by (auto simp: candidate_def cdiv_pos)
  show ?thesis
  proof (cases "candidate d \<le> path")
    case True
    then have eq: "probeRound path d = onProbeAcked (candidate d) d1"
      using d1(5) pos by (simp add: probeRound_def)
    have "search_inv (probeRound path d)" unfolding eq using inv1 pos by (rule onProbeAcked_inv)
    moreover have "m_low (probeRound path d) = candidate d" "m_high (probeRound path d) = m_high d"
      "m_probeCount (probeRound path d) = 0"
      unfolding eq using d1 by (simp_all add: onProbeAcked_def Let_def)
    ultimately show ?thesis using True path half by simp
  next
    case False
    then have eq: "probeRound path d = onProbeLost (candidate d) (onProbeLost (candidate d) (onProbeLost (candidate d) d1))"
      using d1(5) pos by (simp add: probeRound_def)
    have "search_inv (probeRound path d)" unfolding eq using inv1 pos by (intro onProbeLost_inv)
    moreover have "m_low (probeRound path d) = m_low d" "m_high (probeRound path d) = candidate d - 1"
      "m_probeCount (probeRound path d) = 0"
      unfolding eq using lost_thrice [OF inv1, of "candidate d"] d1 pos by simp_all
    ultimately show ?thesis using False path half by simp
  qed
qed

lemma probeRounds_spec:
  assumes "search_inv d" "m_probeCount d = 0" "m_low d \<le> path" "path \<le> m_high d"
    and "m_high d - m_low d < 2 ^ n"
  shows "search_inv ((probeRound path ^^ n) d) \<and> m_low ((probeRound path ^^ n) d) = path \<and>
    m_high ((probeRound path ^^ n) d) = path"
  using assms
proof (induction n arbitrary: d)
  case 0
  then have "m_high d = m_low d" by (simp add: search_inv_def)
  with 0 show ?case by simp
next
  case (Suc n)
  note spec = probeRound_spec [OF Suc.prems(1-4)]
  have "m_high d - m_low d < 2 * 2 ^ n" using Suc.prems(5) by simp
  then have "(m_high d - m_low d) div 2 < 2 ^ n" by linarith
  with spec have "m_high (probeRound path d) - m_low (probeRound path d) < 2 ^ n" by linarith
  with spec Suc.IH show ?case by (simp add: funpow_swap1)
qed

subsection \<open>Properties of the search\<close>

text \<open>
  C11. After any sequence of events the confirmed size is at least 1200 and lies within the
  bounds of the search, the search is running exactly while the bounds differ, and the
  probed size is strictly above the confirmed size and not above the upper bound.
\<close>

theorem dplpmtud_invariant:
  assumes "search_step\<^sup>*\<^sup>* newDplpmtud d"
  shows "1200 \<le> m_pmtu d \<and> m_pmtu d \<le> m_high d \<and> (m_state d = Searching \<longleftrightarrow> m_pmtu d < m_high d) \<and>
    0 \<le> m_probeCount d \<and> m_probeCount d < 3 \<and>
    (fst (nextProbeSize d) = 0 \<and> m_state d \<noteq> Searching \<or>
     m_pmtu d < fst (nextProbeSize d) \<and> fst (nextProbeSize d) \<le> m_high d)"
proof -
  have "search_inv d" using assms new_inv by (rule search_steps_inv)
  then show ?thesis using candidate_between [of d]
    by (auto simp: search_inv_def kBasePmtu_def kMaxProbes_def nextProbeSize_def Let_def)
qed

theorem dplpmtud_invariant_witness:
  "let d = onProbeAcked 1326 (snd (nextProbeSize (startSearch 1452 newDplpmtud)))
   in m_pmtu d = 1326 \<and> fst (nextProbeSize d) = 1389 \<and> m_pmtu d \<le> m_high d"
proof -
  let ?d = "onProbeAcked 1326 (snd (nextProbeSize (startSearch 1452 newDplpmtud)))"
  have "search_step\<^sup>*\<^sup>* newDplpmtud (snd (nextProbeSize (startSearch 1452 newDplpmtud)))"
    using step_start step_next by (rule two_steps)
  moreover have "search_step (snd (nextProbeSize (startSearch 1452 newDplpmtud))) ?d"
    by (rule step_acked) simp
  ultimately have "search_step\<^sup>*\<^sup>* newDplpmtud ?d" by (rule rtranclp.rtrancl_into_rtrancl)
  moreover have "m_pmtu ?d = 1326" "fst (nextProbeSize ?d) = 1389" by code_simp+
  ultimately show ?thesis using dplpmtud_invariant [of ?d] by (simp add: Let_def)
qed

text \<open>
  C12. On a path that carries datagrams of up to \<open>path\<close> bytes, 1200 to \<open>maxPmtu\<close>, a search
  that was started with \<open>maxPmtu\<close> is complete after \<open>n\<close> rounds, where \<open>2 ^ n\<close> exceeds the
  width of the range, and has confirmed exactly \<open>path\<close>.
\<close>

theorem dplpmtud_finds_path:
  fixes d0 :: SwQuicDplpmtud
  assumes "1200 \<le> path" "path \<le> maxPmtu" and "maxPmtu - 1200 < 2 ^ n"
  defines "d \<equiv> (probeRound path ^^ n) (startSearch maxPmtu d0)"
  shows "m_state d \<noteq> Searching \<and> m_pmtu d = path \<and> fst (nextProbeSize d) = 0"
proof -
  let ?d = "startSearch maxPmtu d0"
  have "search_inv ?d" by (simp add: startSearch_def search_inv_def kMaxProbes_def Let_def)
  moreover have "m_probeCount ?d = 0" "m_low ?d = 1200" "m_high ?d = maxPmtu"
    using assms(1,2) by (auto simp: startSearch_def kBasePmtu_def Let_def)
  ultimately have "search_inv d \<and> m_low d = path \<and> m_high d = path"
    unfolding d_def using assms(1-3) by (intro probeRounds_spec) auto
  then show ?thesis by (auto simp: search_inv_def nextProbeSize_def)
qed

theorem dplpmtud_finds_path_witness:
  "m_pmtu ((probeRound 1423 ^^ 8) (startSearch 1452 newDplpmtud)) = 1423"
  using dplpmtud_finds_path [of 1423 1452 8 newDplpmtud] by simp

end
