(* ===== verification/Quic_Congestion.thy ===== *)
theory Quic_Congestion
  imports Sw_Prelude "HOL-Library.Multiset"
begin

text \<open>
  \<open>SwQuicCongestionControl\<close> (\<open>src/core/io/quic/SwQuicCongestionControl.h\<close>, with the constants
  of \<open>SwQuicLimits.h\<close>): the NewReno controller of RFC 9002. The theory shows that the
  bytes in flight are the bytes of the outstanding packets, that the window never falls
  below two datagrams, that an acknowledgement never grows it by more than the
  acknowledged bytes, and that the losses of one recovery period reduce it once.
\<close>

definition minimumInitialUdpPayloadBytes :: nat where "minimumInitialUdpPayloadBytes = 1200"
definition maximumUdpPayloadBytes :: nat where "maximumUdpPayloadBytes = 1450"
definition maximumApplicationDatagramBytes :: u64 where "maximumApplicationDatagramBytes = 1350"
definition maximumDatagramFrameBytes :: u64 where "maximumDatagramFrameBytes = 1400"

record SwQuicCongestionControl =
  m_maxDatagramSize :: u64
  m_congestionWindow :: u64
  m_bytesInFlight :: u64
  m_ssthresh :: u64
  m_recoveryStartTimeMs :: u64
  m_started :: bool

definition initialWindow :: "u64 \<Rightarrow> u64" where
  "initialWindow maxDatagramSize =
     (let tenPackets = 10 * maxDatagramSize;
          twoPackets = 2 * maxDatagramSize;
          lowerBound = (if twoPackets < 14720 then 14720 else twoPackets)
      in if tenPackets < lowerBound then tenPackets else lowerBound)"

definition newCongestionControl :: SwQuicCongestionControl where
  "newCongestionControl =
     \<lparr>m_maxDatagramSize = word_of_nat maximumUdpPayloadBytes,
      m_congestionWindow = initialWindow (word_of_nat maximumUdpPayloadBytes),
      m_bytesInFlight = 0, m_ssthresh = - 1, m_recoveryStartTimeMs = 0, m_started = False\<rparr>"

definition cc_onPacketSent :: "nat \<Rightarrow> SwQuicCongestionControl \<Rightarrow> SwQuicCongestionControl" where
  "cc_onPacketSent sentBytes c = c\<lparr>m_bytesInFlight := m_bytesInFlight c + word_of_nat sentBytes\<rparr>"

definition isTimeAfterRecovery :: "SwQuicCongestionControl \<Rightarrow> u64 \<Rightarrow> bool" where
  "isTimeAfterRecovery c sentTimeMs \<longleftrightarrow> sentTimeMs > m_recoveryStartTimeMs c"

definition cc_onPacketAcked :: "nat \<Rightarrow> u64 \<Rightarrow> SwQuicCongestionControl \<Rightarrow> SwQuicCongestionControl" where
  "cc_onPacketAcked ackedBytes sentTimeMs c =
     (let acked = word_of_nat ackedBytes;
          c1 = c\<lparr>m_bytesInFlight := (if m_bytesInFlight c \<ge> acked then m_bytesInFlight c - acked else 0)\<rparr>
      in if m_started c1 \<and> \<not> isTimeAfterRecovery c1 sentTimeMs then c1
         else if m_congestionWindow c1 < m_ssthresh c1
         then c1\<lparr>m_congestionWindow := m_congestionWindow c1 + acked\<rparr>
         else if m_congestionWindow c1 > 0
         then c1\<lparr>m_congestionWindow :=
                m_congestionWindow c1 + (m_maxDatagramSize c1 * acked) div m_congestionWindow c1\<rparr>
         else c1)"

definition onCongestionEvent :: "u64 \<Rightarrow> u64 \<Rightarrow> SwQuicCongestionControl \<Rightarrow> SwQuicCongestionControl" where
  "onCongestionEvent sentTimeMs nowMs c =
     (if m_started c \<and> \<not> isTimeAfterRecovery c sentTimeMs then c
      else let halved = m_congestionWindow c div 2;
               floor = 2 * m_maxDatagramSize c;
               halved' = (if halved < floor then floor else halved)
           in c\<lparr>m_started := True, m_recoveryStartTimeMs := nowMs, m_ssthresh := halved',
                m_congestionWindow := halved'\<rparr>)"

definition cc_onPacketsLost :: "nat \<Rightarrow> u64 \<Rightarrow> u64 \<Rightarrow> SwQuicCongestionControl \<Rightarrow> SwQuicCongestionControl" where
  "cc_onPacketsLost lostBytes largestLostSentTimeMs nowMs c =
     (let lost = word_of_nat lostBytes;
          c1 = c\<lparr>m_bytesInFlight := (if m_bytesInFlight c \<ge> lost then m_bytesInFlight c - lost else 0)\<rparr>
      in onCongestionEvent largestLostSentTimeMs nowMs c1)"

definition onPersistentCongestion :: "SwQuicCongestionControl \<Rightarrow> SwQuicCongestionControl" where
  "onPersistentCongestion c = c\<lparr>m_congestionWindow := 2 * m_maxDatagramSize c\<rparr>"

definition canSend :: "SwQuicCongestionControl \<Rightarrow> nat \<Rightarrow> bool" where
  "canSend c n \<longleftrightarrow> m_bytesInFlight c + word_of_nat n \<le> m_congestionWindow c"

subsection \<open>Events over the outstanding packets\<close>

text \<open>
  The controller together with the sizes of the packets that are outstanding. A packet
  is sent when \<open>canSend\<close> allows it; it is acknowledged or declared lost once. The windows
  stay below \<open>2 ^ 62\<close> and no datagram is larger than 65527 bytes, the largest UDP payload.
\<close>

inductive cc_step :: "SwQuicCongestionControl \<times> nat multiset \<Rightarrow> SwQuicCongestionControl \<times> nat multiset \<Rightarrow> bool"
where
  cc_sent: "n \<le> 65527 \<Longrightarrow> canSend c n \<Longrightarrow> cc_step (c, M) (cc_onPacketSent n c, add_mset n M)"
| cc_acked: "n \<in># M \<Longrightarrow> unat (m_congestionWindow c) < 2 ^ 62 \<Longrightarrow>
    cc_step (c, M) (cc_onPacketAcked n t c, M - {#n#})"
| cc_lost: "n \<in># M \<Longrightarrow> cc_step (c, M) (cc_onPacketsLost n t now c, M - {#n#})"
| cc_persistent: "cc_step (c, M) (onPersistentCongestion c, M)"

definition cc_inv :: "SwQuicCongestionControl \<times> nat multiset \<Rightarrow> bool" where
  "cc_inv s \<longleftrightarrow> (case s of (c, M) \<Rightarrow>
     m_maxDatagramSize c = 1450 \<and> 2900 \<le> unat (m_congestionWindow c) \<and>
     unat (m_congestionWindow c) < 2 ^ 63 \<and>
     (\<forall>n\<in>#M. n \<le> 65527) \<and> unat (m_bytesInFlight c) = sum_mset M \<and> sum_mset M < 2 ^ 63)"

lemma of_nat_small: "n \<le> 65527 \<Longrightarrow> unat (word_of_nat n :: u64) = n"
  by (simp add: unsigned_of_nat take_bit_nat_eq_self)

lemma sum_mset_remove:
  fixes M :: "nat multiset"
  assumes "n \<in># M"
  shows "n \<le> sum_mset M" and "sum_mset (M - {#n#}) = sum_mset M - n"
proof -
  obtain N where "M = add_mset n N" using assms by (rule mset_add)
  then show "n \<le> sum_mset M" and "sum_mset (M - {#n#}) = sum_mset M - n" by simp_all
qed

lemma flight_minus:
  assumes "cc_inv (c, M)" and "n \<in># M"
  shows "unat (if m_bytesInFlight c \<ge> word_of_nat n then m_bytesInFlight c - word_of_nat n else 0) =
    sum_mset (M - {#n#})" and "\<forall>k\<in>#M - {#n#}. k \<le> 65527"
proof -
  have n: "unat (word_of_nat n :: u64) = n"
    using assms by (intro of_nat_small) (auto simp: cc_inv_def)
  have "n \<le> sum_mset M" using assms(2) by (rule sum_mset_remove)
  moreover have "unat (m_bytesInFlight c) = sum_mset M" using assms(1) by (simp add: cc_inv_def)
  ultimately show "unat (if m_bytesInFlight c \<ge> word_of_nat n then m_bytesInFlight c - word_of_nat n else 0) =
      sum_mset (M - {#n#})"
    using n sum_mset_remove(2) [OF assms(2)] by (auto simp: word_le_nat_alt unat_minus)
  show "\<forall>k\<in>#M - {#n#}. k \<le> 65527"
    using assms(1) by (auto simp: cc_inv_def dest: in_diffD)
qed

text \<open>Growth of the window: slow start and congestion avoidance.\<close>

lemma acked_window:
  assumes mds: "m_maxDatagramSize c = 1450" and w: "2900 \<le> unat (m_congestionWindow c)"
    and big: "unat (m_congestionWindow c) < 2 ^ 62" and n: "n \<le> 65527"
  shows "unat (m_congestionWindow c) \<le> unat (m_congestionWindow (cc_onPacketAcked n t c)) \<and>
    unat (m_congestionWindow (cc_onPacketAcked n t c)) \<le> unat (m_congestionWindow c) + n"
proof -
  let ?w = "m_congestionWindow c" and ?n = "word_of_nat n :: u64"
  have un: "unat ?n = n" using n by (rule of_nat_small)
  have slow: "unat (?w + ?n) = unat ?w + n" using un n big by (subst unat_plus) auto
  have prod: "unat (1450 * ?n) = 1450 * n"
    using un n by (subst unat_word_ariths) (simp del: of_nat_mult)
  then have quot: "unat (1450 * ?n div ?w) = 1450 * n div unat ?w" by (simp add: unat_div_distrib)
  have le: "1450 * n div unat ?w \<le> n"
  proof -
    have "1450 * n \<le> unat ?w * n" using w by simp
    then show ?thesis by (metis div_le_mono div_mult_self1_is_m gr0I le_zero_eq mult_is_0 w zero_neq_numeral zero_le)
  qed
  have avoid: "unat (?w + 1450 * ?n div ?w) = unat ?w + 1450 * n div unat ?w"
    using quot le n big by (subst unat_plus) auto
  show ?thesis using slow avoid le by (auto simp: cc_onPacketAcked_def mds Let_def)
qed

lemma event_window:
  assumes "m_maxDatagramSize c = 1450" and "unat (m_congestionWindow c) < 2 ^ 63"
    and "2900 \<le> unat (m_congestionWindow c)"
  shows "2900 \<le> unat (m_congestionWindow (onCongestionEvent t now c)) \<and>
    unat (m_congestionWindow (onCongestionEvent t now c)) \<le> unat (m_congestionWindow c)"
  using assms by (auto simp: onCongestionEvent_def Let_def word_less_nat_alt unat_div_distrib)

lemma event_fields [simp]:
  "m_maxDatagramSize (onCongestionEvent t now c) = m_maxDatagramSize c"
  "m_bytesInFlight (onCongestionEvent t now c) = m_bytesInFlight c"
  by (simp_all add: onCongestionEvent_def Let_def)

lemma acked_fields [simp]:
  "m_maxDatagramSize (cc_onPacketAcked n t c) = m_maxDatagramSize c"
  "m_bytesInFlight (cc_onPacketAcked n t c) =
     (if m_bytesInFlight c \<ge> word_of_nat n then m_bytesInFlight c - word_of_nat n else 0)"
  by (simp_all add: cc_onPacketAcked_def Let_def)

lemma cc_step_inv: "cc_step s s' \<Longrightarrow> cc_inv s \<Longrightarrow> cc_inv s'"
proof (induction rule: cc_step.induct)
  case (cc_sent n c M)
  have un: "unat (word_of_nat n :: u64) = n" using cc_sent(1) by (rule of_nat_small)
  have eq: "unat (m_bytesInFlight c + word_of_nat n) = sum_mset M + n"
    using cc_sent un by (subst unat_plus) (auto simp: cc_inv_def)
  have "sum_mset M + n \<le> unat (m_congestionWindow c)"
    using cc_sent(2) eq by (simp add: canSend_def word_le_nat_alt)
  with cc_sent eq show ?case by (auto simp: cc_inv_def cc_onPacketSent_def)
next
  case (cc_acked n M c t)
  note fl = flight_minus [OF cc_acked(3,1)]
  have n: "n \<le> 65527" using cc_acked(1,3) by (auto simp: cc_inv_def)
  have "sum_mset (M - {#n#}) \<le> sum_mset M" using sum_mset_remove(2) [OF cc_acked(1)] by simp
  with fl acked_window [OF _ _ cc_acked(2) n, of t] cc_acked(2,3) n show ?case
    by (auto simp: cc_inv_def simp del: One_nat_def)
next
  case (cc_lost n M c t now)
  note fl = flight_minus [OF cc_lost(2,1)]
  let ?c = "c\<lparr>m_bytesInFlight := (if m_bytesInFlight c \<ge> word_of_nat n then m_bytesInFlight c - word_of_nat n else 0)\<rparr>"
  have "sum_mset (M - {#n#}) \<le> sum_mset M" using sum_mset_remove(2) [OF cc_lost(1)] by simp
  with fl event_window [of ?c t now] cc_lost(2) show ?case
    by (auto simp: cc_inv_def cc_onPacketsLost_def Let_def)
next
  case (cc_persistent c M)
  then show ?case by (auto simp: cc_inv_def onPersistentCongestion_def)
qed

lemma cc_new_inv: "cc_inv (newCongestionControl, {#})"
  by (simp add: cc_inv_def newCongestionControl_def initialWindow_def maximumUdpPayloadBytes_def)

lemma cc_steps_inv: "cc_step\<^sup>*\<^sup>* s s' \<Longrightarrow> cc_inv s \<Longrightarrow> cc_inv s'"
  by (induction rule: rtranclp_induct) (auto dest: cc_step_inv)

subsection \<open>Properties of the controller\<close>

text \<open>
  C13. In every run, the bytes in flight are exactly the bytes of the outstanding packets
  (the clamp to zero is never used), the window is never below two datagrams, and a
  packet is let through only if the bytes in flight then fit the window.
\<close>

theorem congestion_accounting:
  assumes "cc_step\<^sup>*\<^sup>* (newCongestionControl, {#}) (c, M)"
  shows "unat (m_bytesInFlight c) = sum_mset M \<and> 2 * 1450 \<le> unat (m_congestionWindow c) \<and>
    (\<forall>n \<le> 65527. canSend c n \<longleftrightarrow> sum_mset M + n \<le> unat (m_congestionWindow c))"
proof -
  have inv: "cc_inv (c, M)" using assms cc_new_inv by (rule cc_steps_inv)
  have "canSend c n \<longleftrightarrow> sum_mset M + n \<le> unat (m_congestionWindow c)" if "n \<le> 65527" for n
  proof -
    have "unat (m_bytesInFlight c + word_of_nat n) = sum_mset M + n"
      using inv that of_nat_small [OF that] by (subst unat_plus) (auto simp: cc_inv_def)
    then show ?thesis by (simp add: canSend_def word_le_nat_alt)
  qed
  with inv show ?thesis by (auto simp: cc_inv_def)
qed

lemmas cc_eval =
  newCongestionControl_def initialWindow_def cc_onPacketSent_def cc_onPacketAcked_def canSend_def
  maximumUdpPayloadBytes_def Let_def

theorem congestion_accounting_witness:
  "let c = cc_onPacketAcked 1200 7 (cc_onPacketSent 1300 (cc_onPacketSent 1200 newCongestionControl))
   in m_bytesInFlight c = 1300 \<and> m_congestionWindow c = 15700 \<and>
      (canSend c 1450 \<longleftrightarrow> 1300 + 1450 \<le> unat (m_congestionWindow c))"
proof -
  let ?c1 = "cc_onPacketSent 1200 newCongestionControl" and ?c2 = "cc_onPacketSent 1300 (cc_onPacketSent 1200 newCongestionControl)"
  let ?c = "cc_onPacketAcked 1200 7 ?c2"
  have "canSend newCongestionControl 1200" "canSend ?c1 1300" by (simp_all add: cc_eval)
  then have 1: "cc_step (newCongestionControl, {#}) (?c1, {#1200#})"
    and 2: "cc_step (?c1, {#1200#}) (?c2, add_mset 1300 {#1200#})" by (auto intro: cc_sent)
  have w: "m_congestionWindow ?c2 = 14500" by (simp add: cc_eval)
  have "cc_step (?c2, add_mset 1300 {#1200#}) (?c, add_mset 1300 {#1200#} - {#1200#})"
    by (rule cc_acked) (simp_all add: w)
  then have "cc_step\<^sup>*\<^sup>* (newCongestionControl, {#}) (?c, add_mset 1300 {#1200#} - {#1200#})"
    by (rule rtranclp.rtrancl_into_rtrancl [OF two_steps [of cc_step, OF 1 2]])
  from congestion_accounting [OF this] have "\<forall>n \<le> 65527. canSend ?c n \<longleftrightarrow> 1300 + n \<le> unat (m_congestionWindow ?c)"
    by simp
  moreover have "m_bytesInFlight ?c = 1300" "m_congestionWindow ?c = 15700" by (simp_all add: cc_eval)
  ultimately show ?thesis by (simp add: Let_def)
qed

text \<open>
  An acknowledgement grows the window by at most the acknowledged bytes, and not at
  all for a packet sent before the recovery period began.
\<close>

theorem acknowledgement_growth:
  assumes "cc_step\<^sup>*\<^sup>* (newCongestionControl, {#}) (c, M)" and "n \<in># M"
    and "unat (m_congestionWindow c) < 2 ^ 62"
  shows "unat (m_congestionWindow c) \<le> unat (m_congestionWindow (cc_onPacketAcked n t c)) \<and>
    unat (m_congestionWindow (cc_onPacketAcked n t c)) \<le> unat (m_congestionWindow c) + n \<and>
    (m_started c \<and> t \<le> m_recoveryStartTimeMs c \<longrightarrow>
       m_congestionWindow (cc_onPacketAcked n t c) = m_congestionWindow c)"
proof -
  have inv: "cc_inv (c, M)" using assms(1) cc_new_inv by (rule cc_steps_inv)
  then have "n \<le> 65527" using assms(2) by (auto simp: cc_inv_def)
  then show ?thesis using acked_window [OF _ _ assms(3), of n t] inv
    by (auto simp: cc_inv_def cc_onPacketAcked_def Let_def isTimeAfterRecovery_def not_less)
qed

theorem acknowledgement_growth_witness:
  "m_congestionWindow (cc_onPacketAcked 1200 7 (cc_onPacketSent 1200 newCongestionControl)) = 15700 \<and>
   unat (m_congestionWindow (cc_onPacketAcked 1200 7 (cc_onPacketSent 1200 newCongestionControl))) \<le> 14500 + 1200"
proof -
  let ?c = "cc_onPacketSent 1200 newCongestionControl"
  have "canSend newCongestionControl 1200" by (simp add: cc_eval)
  then have 1: "cc_step (newCongestionControl, {#}) (?c, {#1200#})" by (auto intro: cc_sent)
  have w: "m_congestionWindow ?c = 14500" by (simp add: cc_eval)
  moreover have "m_congestionWindow (cc_onPacketAcked 1200 7 ?c) = 15700" by (simp add: cc_eval)
  moreover have "cc_step\<^sup>*\<^sup>* (newCongestionControl, {#}) (?c, {#1200#})" using 1 by (rule one_step)
  ultimately show ?thesis using acknowledgement_growth [of ?c "{#1200#}" 1200 7] by simp
qed

text \<open>
  C14. The losses of one flight reduce the window once: after the first loss reported at
  \<open>now\<close>, further losses of packets sent up to \<open>now\<close> leave the window, the threshold and the
  recovery start as they are.
\<close>

theorem losses_reduce_once:
  fixes n0 :: nat
  assumes "m_started c \<longrightarrow> m_recoveryStartTimeMs c < t" and "\<forall>(n, u)\<in>set losses. u \<le> now"
  defines "c1 \<equiv> cc_onPacketsLost n0 t now c"
    and "c2 \<equiv> fold (\<lambda>(n, u). cc_onPacketsLost n u now) losses (cc_onPacketsLost n0 t now c)"
  shows "m_congestionWindow c2 = max (m_congestionWindow c div 2) (2 * m_maxDatagramSize c) \<and>
    m_congestionWindow c2 = m_congestionWindow c1 \<and> m_ssthresh c2 = m_congestionWindow c2 \<and>
    m_recoveryStartTimeMs c2 = now"
proof -
  have c1: "m_started c1 \<and> m_recoveryStartTimeMs c1 = now \<and> m_ssthresh c1 = m_congestionWindow c1 \<and>
      m_congestionWindow c1 = max (m_congestionWindow c div 2) (2 * m_maxDatagramSize c)"
    using assms(1) by (auto simp: c1_def cc_onPacketsLost_def onCongestionEvent_def
        isTimeAfterRecovery_def Let_def max_def not_less)
  have "m_congestionWindow (fold (\<lambda>(n, u). cc_onPacketsLost n u now) ls d) = m_congestionWindow d \<and>
      m_ssthresh (fold (\<lambda>(n, u). cc_onPacketsLost n u now) ls d) = m_ssthresh d \<and>
      m_recoveryStartTimeMs (fold (\<lambda>(n, u). cc_onPacketsLost n u now) ls d) = now"
    if "m_started d" "m_recoveryStartTimeMs d = now" "\<forall>(n, u)\<in>set ls. u \<le> now" for ls d
    using that
  proof (induction ls arbitrary: d)
    case (Cons l ls)
    obtain n u where l: "l = (n, u)" by fastforce
    have "m_congestionWindow (cc_onPacketsLost n u now d) = m_congestionWindow d"
      "m_ssthresh (cc_onPacketsLost n u now d) = m_ssthresh d"
      "m_started (cc_onPacketsLost n u now d)" "m_recoveryStartTimeMs (cc_onPacketsLost n u now d) = now"
      using Cons.prems l by (auto simp: cc_onPacketsLost_def onCongestionEvent_def
          isTimeAfterRecovery_def Let_def not_less)
    with Cons.IH [of "cc_onPacketsLost n u now d"] Cons.prems l show ?case by simp
  qed simp
  with c1 assms(2) show ?thesis unfolding c2_def c1_def by simp
qed

theorem losses_reduce_once_witness:
  "m_congestionWindow (fold (\<lambda>(n, u). cc_onPacketsLost n u 50) [(1200, 41), (1300, 50)]
     (cc_onPacketsLost 1200 40 50 newCongestionControl)) = 7250"
proof -
  have "max (m_congestionWindow newCongestionControl div 2) (2 * m_maxDatagramSize newCongestionControl) = 7250"
    by (simp add: cc_eval)
  moreover have "\<not> m_started newCongestionControl" by (simp add: cc_eval)
  ultimately show ?thesis
    using losses_reduce_once [of newCongestionControl 40 "[(1200, 41), (1300, 50)]" 50 1200] by simp
qed

end
