(* ===== verification/Sw_Map.thy ===== *)
theory Sw_Map
  imports Sw_Prelude
begin

text \<open>
  \<open>SwMap\<close> (\<open>src/core/types/SwMap.h\<close>), the ordered map of the stack, a wrapper of
  \<open>std::map\<close>. A map is the list of its entries in iteration order; the invariant \<open>smap_ok\<close>
  is that the keys ascend strictly. An iterator is the suffix of the entries it still has
  to visit, so \<open>lowerBound\<close> returns such a suffix. What the clients rely on is the locale
  \<open>ordered_map\<close>, interpreted on these operations.
\<close>

type_synonym ('k, 'v) smap = "('k \<times> 'v) list"

definition smap_ok :: "('k::linorder, 'v) smap \<Rightarrow> bool" where
  "smap_ok m \<longleftrightarrow> sorted_wrt (<) (map fst m)"

subsection \<open>Operations\<close>

fun smap_find :: "('k::linorder, 'v) smap \<Rightarrow> 'k \<Rightarrow> 'v option" where
  "smap_find [] k = None"
| "smap_find ((k', v) # m) k = (if k = k' then Some v else smap_find m k)"

definition smap_value :: "('k::linorder, 'v) smap \<Rightarrow> 'k \<Rightarrow> 'v \<Rightarrow> 'v" where
  "smap_value m k d = (case smap_find m k of Some v \<Rightarrow> v | None \<Rightarrow> d)"

text \<open>\<open>insert(key, value)\<close>, which is also \<open>m[key] = value\<close>.\<close>

fun smap_insert :: "'k::linorder \<Rightarrow> 'v \<Rightarrow> ('k, 'v) smap \<Rightarrow> ('k, 'v) smap" where
  "smap_insert k v [] = [(k, v)]"
| "smap_insert k v ((k', v') # m) =
     (if k < k' then (k, v) # (k', v') # m
      else if k = k' then (k, v) # m
      else (k', v') # smap_insert k v m)"

text \<open>\<open>insert(pair)\<close>: an entry that exists is kept; the flag says whether one was added.\<close>

definition smap_emplace :: "'k::linorder \<Rightarrow> 'v \<Rightarrow> ('k, 'v) smap \<Rightarrow> ('k, 'v) smap \<times> bool" where
  "smap_emplace k v m =
     (case smap_find m k of None \<Rightarrow> (smap_insert k v m, True) | Some _ \<Rightarrow> (m, False))"

definition smap_erase :: "'k::linorder \<Rightarrow> ('k, 'v) smap \<Rightarrow> ('k, 'v) smap \<times> nat" where
  "smap_erase k m = (filter (\<lambda>e. fst e \<noteq> k) m, if smap_find m k = None then 0 else 1)"

definition smap_contains :: "('k::linorder, 'v) smap \<Rightarrow> 'k \<Rightarrow> bool" where
  "smap_contains m k \<longleftrightarrow> smap_find m k \<noteq> None"

definition smap_keys :: "('k, 'v) smap \<Rightarrow> 'k list" where
  "smap_keys m = map fst m"

definition smap_values :: "('k, 'v) smap \<Rightarrow> 'v list" where
  "smap_values m = map snd m"

definition lowerBound :: "'k::linorder \<Rightarrow> ('k, 'v) smap \<Rightarrow> ('k, 'v) smap" where
  "lowerBound k m = dropWhile (\<lambda>e. fst e < k) m"

definition upperBound :: "'k::linorder \<Rightarrow> ('k, 'v) smap \<Rightarrow> ('k, 'v) smap" where
  "upperBound k m = dropWhile (\<lambda>e. fst e \<le> k) m"

subsection \<open>Laws\<close>

lemma smap_ok_Nil [simp]: "smap_ok []"
  by (simp add: smap_ok_def)

lemma smap_ok_Cons: "smap_ok ((k, v) # m) \<longleftrightarrow> (\<forall>e\<in>set m. k < fst e) \<and> smap_ok m"
  by (auto simp: smap_ok_def)

lemma smap_ok_append:
  "smap_ok (m @ m') \<longleftrightarrow> smap_ok m \<and> smap_ok m' \<and> (\<forall>e\<in>set m. \<forall>e'\<in>set m'. fst e < fst e')"
  by (auto simp: smap_ok_def sorted_wrt_append)

lemma smap_ok_filter: "smap_ok m \<Longrightarrow> smap_ok (filter P m)"
  by (induction m) (auto simp: smap_ok_def)

lemma smap_find_None: "smap_find m k = None \<longleftrightarrow> k \<notin> fst ` set m"
  by (induction m k rule: smap_find.induct) auto

lemma smap_find_Some: "smap_ok m \<Longrightarrow> smap_find m k = Some v \<longleftrightarrow> (k, v) \<in> set m"
proof (induction m)
  case (Cons e m)
  obtain k' v' where e: "e = (k', v')" by fastforce
  with Cons show ?case by (auto simp: smap_ok_Cons)
qed simp

lemma smap_insert_find:
  "smap_ok m \<Longrightarrow> smap_find (smap_insert k v m) k' = (if k' = k then Some v else smap_find m k')"
  by (induction k v m rule: smap_insert.induct) (auto simp: smap_ok_Cons)

lemma set_smap_insert:
  "smap_ok m \<Longrightarrow> set (smap_insert k v m) = insert (k, v) {e \<in> set m. fst e \<noteq> k}"
proof (induction k v m rule: smap_insert.induct)
  case (2 k v k' v' m)
  then have above: "\<forall>e\<in>set m. k' < fst e" and ok: "smap_ok m" by (simp_all add: smap_ok_Cons)
  consider "k < k'" | "k = k'" | "k' < k" by fastforce
  then show ?case
  proof cases
    case 1
    have "fst e \<noteq> k" if "e \<in> set m" for e
      using less_trans [OF 1, of "fst e"] above that by auto
    with 1 show ?thesis by auto
  next
    case 2
    with above have "\<forall>e\<in>set m. fst e \<noteq> k" by auto
    with 2 show ?thesis by auto
  next
    case 3
    then have "\<not> k < k'" "k \<noteq> k'" by auto
    with 2 ok show ?thesis by auto
  qed
qed simp

lemma smap_insert_ok: "smap_ok m \<Longrightarrow> smap_ok (smap_insert k v m)"
proof (induction k v m rule: smap_insert.induct)
  case (2 k v k' v' m)
  then have ok: "\<forall>e\<in>set m. k' < fst e" "smap_ok m" by (simp_all add: smap_ok_Cons)
  consider "k < k'" | "k = k'" | "k' < k" by fastforce
  then show ?case
  proof cases
    case 1
    have "k < fst e" if "e \<in> set m" for e using less_trans [OF 1] ok(1) that by blast
    with 1 ok show ?thesis by (simp add: smap_ok_Cons)
  next
    case 3
    then have "\<not> k < k'" "k \<noteq> k'" by auto
    with 2 3 ok show ?thesis by (auto simp: smap_ok_Cons set_smap_insert)
  qed (use ok in \<open>simp add: smap_ok_Cons\<close>)
qed (simp add: smap_ok_Cons)

lemma length_smap_insert: "smap_find m k = None \<Longrightarrow> length (smap_insert k v m) = Suc (length m)"
  by (induction k v m rule: smap_insert.induct) (auto split: if_splits)

lemma smap_find_filter: "smap_find (filter (\<lambda>e. fst e \<noteq> k) m) k' = (if k' = k then None else smap_find m k')"
  by (induction m) auto

lemma dropWhile_sorted:
  assumes "smap_ok m" and "\<And>a b. a < b \<Longrightarrow> P b \<Longrightarrow> P a"
  shows "dropWhile (\<lambda>e. P (fst e)) m = filter (\<lambda>e. \<not> P (fst e)) m"
  using assms(1)
proof (induction m)
  case (Cons e m)
  obtain k v where e: "e = (k, v)" by fastforce
  show ?case
  proof (cases "P k")
    case False
    then have "\<forall>x\<in>set m. \<not> P (fst x)" using Cons.prems e assms(2) by (auto simp: smap_ok_Cons)
    with False e show ?thesis by (simp add: filter_id_conv)
  qed (use Cons e in \<open>simp add: smap_ok_Cons\<close>)
qed simp

lemma takeWhile_sorted:
  assumes "smap_ok m" and "\<And>a b. a < b \<Longrightarrow> P b \<Longrightarrow> P a"
  shows "takeWhile (\<lambda>e. P (fst e)) m = filter (\<lambda>e. P (fst e)) m"
  using assms(1)
proof (induction m)
  case (Cons e m)
  obtain k v where e: "e = (k, v)" by fastforce
  show ?case
  proof (cases "P k")
    case False
    then have "\<forall>x\<in>set m. \<not> P (fst x)" using Cons.prems e assms(2) by (auto simp: smap_ok_Cons)
    with False e show ?thesis by (simp add: filter_empty_conv)
  qed (use Cons e in \<open>simp add: smap_ok_Cons\<close>)
qed simp

lemma lowerBound_filter: "smap_ok m \<Longrightarrow> lowerBound k m = filter (\<lambda>e. k \<le> fst e) m"
  unfolding lowerBound_def by (subst dropWhile_sorted) (auto simp: not_less)

lemma upperBound_filter: "smap_ok m \<Longrightarrow> upperBound k m = filter (\<lambda>e. k < fst e) m"
  unfolding upperBound_def by (subst dropWhile_sorted) (auto simp: not_le)

subsection \<open>The contract\<close>

locale ordered_map =
  fixes ok :: "'m \<Rightarrow> bool"
    and find :: "'m \<Rightarrow> 'k::linorder \<Rightarrow> 'v option"
    and assign :: "'k \<Rightarrow> 'v \<Rightarrow> 'm \<Rightarrow> 'm"
    and emplace :: "'k \<Rightarrow> 'v \<Rightarrow> 'm \<Rightarrow> 'm \<times> bool"
    and erase :: "'k \<Rightarrow> 'm \<Rightarrow> 'm \<times> nat"
    and keys :: "'m \<Rightarrow> 'k list"
  assumes ok_assign: "ok m \<Longrightarrow> ok (assign k v m)"
    and find_assign: "ok m \<Longrightarrow> find (assign k v m) = (find m)(k \<mapsto> v)"
    and emplace_eq: "ok m \<Longrightarrow>
      emplace k v m = (if find m k = None then (assign k v m, True) else (m, False))"
    and ok_erase: "ok m \<Longrightarrow> ok (fst (erase k m))"
    and find_erase: "ok m \<Longrightarrow> find (fst (erase k m)) = (find m)(k := None)"
    and count_erase: "ok m \<Longrightarrow> snd (erase k m) = (if find m k = None then 0 else 1)"
    and keys_sorted: "ok m \<Longrightarrow> sorted_wrt (<) (keys m)"
    and keys_dom: "ok m \<Longrightarrow> set (keys m) = dom (find m)"
begin

lemma find_emplace: "ok m \<Longrightarrow> find (fst (emplace k v m)) = (if find m k = None then (find m)(k \<mapsto> v) else find m)"
  by (simp add: emplace_eq find_assign)

lemma ok_emplace: "ok m \<Longrightarrow> ok (fst (emplace k v m))"
  by (simp add: emplace_eq ok_assign)

lemma keys_assign:
  assumes "ok m"
  shows "set (keys (assign k v m)) = insert k (set (keys m))"
  using assms by (simp add: keys_dom ok_assign find_assign)

lemma keys_distinct: "ok m \<Longrightarrow> distinct (keys m)"
  using keys_sorted strict_sorted_iff by blast

lemma erase_assign:
  "ok m \<Longrightarrow> find m k = None \<Longrightarrow> find (fst (erase k (assign k v m))) = find m"
  by (auto simp: find_erase find_assign ok_assign)

end

interpretation smap: ordered_map smap_ok smap_find smap_insert smap_emplace smap_erase smap_keys
proof
  fix m :: "('k::linorder, 'v) smap" and k :: 'k and v :: 'v
  assume ok: "smap_ok m"
  show "smap_ok (smap_insert k v m)" using ok by (rule smap_insert_ok)
  show "smap_find (smap_insert k v m) = (smap_find m)(k \<mapsto> v)"
    using smap_insert_find [OF ok] by (auto simp: fun_eq_iff)
  show "smap_emplace k v m = (if smap_find m k = None then (smap_insert k v m, True) else (m, False))"
    by (auto simp: smap_emplace_def split: option.splits)
  show "smap_ok (fst (smap_erase k m))" using ok by (simp add: smap_erase_def smap_ok_filter)
  show "smap_find (fst (smap_erase k m)) = (smap_find m)(k := None)"
    by (auto simp: smap_erase_def smap_find_filter fun_eq_iff)
  show "snd (smap_erase k m) = (if smap_find m k = None then 0 else 1)" by (simp add: smap_erase_def)
  show "sorted_wrt (<) (smap_keys m)" using ok by (simp add: smap_keys_def smap_ok_def)
  show "set (smap_keys m) = dom (smap_find m)"
    by (simp add: set_eq_iff dom_def smap_find_None smap_keys_def)
qed

end
