(* ===== verification/Quic_Stream.thy ===== *)
theory Quic_Stream
  imports Quic_FrameCodec Sw_Map
begin

text \<open>
  \<open>SwQuicStream\<close> (\<open>src/core/io/quic/SwQuicStream.h\<close>): reassembly of one stream from fragments
  that arrive in any order and overlap, with bounded buffering. The fragments are a map
  from their offset to their bytes. The theory shows that the fragments stay disjoint and
  within their budget, that a frame adds exactly its bytes, that a frame that contradicts
  a buffered byte is refused, and that what the application reads is a prefix of what
  the sender wrote, complete as far as the received data reaches.
\<close>

type_synonym fragments = "(u64, bytes) smap"

record SwQuicStream =
  strm_streamId :: u64
  m_readOffset :: u64
  m_finReceived :: bool
  m_finalOffset :: u64
  m_bufferedBytes :: nat
  m_maxBufferedBytes :: nat
  m_maxFragments :: nat
  m_fragments :: fragments

definition newStream :: "u64 \<Rightarrow> nat \<Rightarrow> nat \<Rightarrow> SwQuicStream" where
  "newStream sid maxBytes maxFrags =
     \<lparr>strm_streamId = sid, m_readOffset = 0, m_finReceived = False, m_finalOffset = 0,
      m_bufferedBytes = 0, m_maxBufferedBytes = maxBytes, m_maxFragments = maxFrags,
      m_fragments = []\<rparr>"

definition addWouldOverflow :: "u64 \<Rightarrow> u64 \<Rightarrow> bool" where
  "addWouldOverflow lhs rhs \<longleftrightarrow> lhs > - 1 - rhs"

definition byteArraySliceFits :: "u64 \<Rightarrow> bool" where
  "byteArraySliceFits v \<longleftrightarrow> \<not> unat v > int_max"

subsection \<open>Receiving\<close>

text \<open>
  The loop over the buffered fragments. \<open>fo\<close> and \<open>fe\<close> are the two ends of the new fragment
  \<open>frag\<close>; the result is the cursor, the pieces to add and their total size.
\<close>

fun collectAdditions ::
  "u64 \<Rightarrow> u64 \<Rightarrow> bytes \<Rightarrow> fragments \<Rightarrow> u64 \<Rightarrow> fragments \<Rightarrow> nat \<Rightarrow> string + (u64 \<times> fragments \<times> nat)" where
  "collectAdditions fo fe frag [] cursor additions addedBytes = Inr (cursor, additions, addedBytes)"
| "collectAdditions fo fe frag ((existingStart, d) # it) cursor additions addedBytes =
     (let existingEnd = existingStart + word_of_nat (length d) in
      if existingEnd \<le> fo then collectAdditions fo fe frag it cursor additions addedBytes
      else if existingStart \<ge> fe then Inr (cursor, additions, addedBytes)
      else
        let uncoveredEnd = (if existingStart < fe then existingStart else fe);
            uncoveredLength = unat (uncoveredEnd - cursor);
            pending = (cursor, mid frag (to_int (unat (cursor - fo))) (to_int uncoveredLength));
            additions' = (if existingStart > cursor then additions @ [pending] else additions);
            addedBytes' = (if existingStart > cursor then addedBytes + uncoveredLength else addedBytes);
            overlapStart = (if existingStart > fo then existingStart else fo);
            overlapEnd = (if existingEnd < fe then existingEnd else fe);
            overlapLength = unat (overlapEnd - overlapStart)
        in if overlapStart < overlapEnd \<and>
              take overlapLength (drop (unat (overlapStart - existingStart)) d) \<noteq>
              take overlapLength (drop (unat (overlapStart - fo)) frag)
           then Inl ''QUIC stream received conflicting overlapping data''
           else collectAdditions fo fe frag it (if existingEnd > cursor then existingEnd else cursor)
                  additions' addedBytes')"

definition setFin :: "bool \<Rightarrow> u64 \<Rightarrow> SwQuicStream \<Rightarrow> SwQuicStream" where
  "setFin f endOffset s = (if f then s\<lparr>m_finReceived := True, m_finalOffset := endOffset\<rparr> else s)"

text \<open>The part of \<open>receive\<close> for a fragment with new bytes.\<close>

definition storeFragment :: "SwQuicStream \<Rightarrow> u64 \<Rightarrow> bytes \<Rightarrow> string + SwQuicStream" where
  "storeFragment s fo frag =
     (if length frag > int_max then Inl ''QUIC stream fragment exceeds SwByteArray slice limits''
      else
        let fe = fo + word_of_nat (length frag) in
        (case collectAdditions fo fe frag (m_fragments s) fo [] 0 of
           Inl e \<Rightarrow> Inl e
         | Inr (cursor, additions, addedBytes) \<Rightarrow>
             let uncoveredLength = unat (fe - cursor);
                 rest = (if cursor = fo \<and> uncoveredLength = length frag then frag
                         else mid frag (to_int (unat (cursor - fo))) (to_int uncoveredLength));
                 additions' = (if cursor < fe then additions @ [(cursor, rest)] else additions);
                 addedBytes' = (if cursor < fe then addedBytes + uncoveredLength else addedBytes)
             in if m_bufferedBytes s > m_maxBufferedBytes s \<or>
                   addedBytes' > m_maxBufferedBytes s - m_bufferedBytes s \<or>
                   length (m_fragments s) > m_maxFragments s \<or>
                   length additions' > m_maxFragments s - length (m_fragments s)
                then Inl ''QUIC stream reassembly budget exceeded''
                else Inr (s\<lparr>m_fragments := fold (\<lambda>(o', d) m. smap_insert o' d m) additions' (m_fragments s),
                            m_bufferedBytes := m_bufferedBytes s + addedBytes'\<rparr>)))"

definition receive :: "SwQuicStream \<Rightarrow> u64 \<Rightarrow> bytes \<Rightarrow> bool \<Rightarrow> string + SwQuicStream" where
  "receive s off d f =
     (let dataSize = word_of_nat (length d) in
      if addWouldOverflow off dataSize then Inl ''QUIC stream fragment offset overflows''
      else
        let endOffset = off + dataSize in
        if f \<and> m_finReceived s \<and> m_finalOffset s \<noteq> endOffset
        then Inl ''QUIC stream received conflicting final offsets''
        else if f \<and> endOffset < m_readOffset s
        then Inl ''QUIC stream final offset precedes consumed data''
        else if f \<and> \<not> m_finReceived s \<and> m_fragments s \<noteq> [] \<and>
          fst (last (m_fragments s)) + word_of_nat (length (snd (last (m_fragments s)))) > endOffset
        then Inl ''QUIC stream final offset precedes received data''
        else if m_finReceived s \<and> endOffset > m_finalOffset s
        then Inl ''QUIC stream fragment exceeds final offset''
        else if endOffset \<le> m_readOffset s then Inr (setFin f endOffset s)
        else
          let trim = m_readOffset s - off in
          if off < m_readOffset s \<and> (\<not> byteArraySliceFits trim \<or> \<not> byteArraySliceFits (dataSize - trim))
          then Inl ''QUIC stream fragment is too large for SwByteArray slicing''
          else
            let fo = (if off < m_readOffset s then m_readOffset s else off);
                frag = (if off < m_readOffset s
                        then mid d (to_int (unat trim)) (to_int (unat (dataSize - trim))) else d)
            in if length frag > 0
               then (case storeFragment s fo frag of
                       Inl e \<Rightarrow> Inl e
                     | Inr s' \<Rightarrow> Inr (setFin f endOffset s'))
               else Inr (setFin f endOffset s))"

definition stream_receiveFrame :: "SwQuicStream \<Rightarrow> SwQuicFrame \<Rightarrow> string + SwQuicStream" where
  "stream_receiveFrame s f =
     (if frameType f \<noteq> Stream then Inl ''QUIC stream can only receive STREAM frames''
      else if streamId f \<noteq> strm_streamId s then Inl ''QUIC STREAM frame belongs to another stream''
      else receive s (offset f) (data f) (fin f))"

subsection \<open>Reading\<close>

fun hasReadable_loop :: "fragments \<Rightarrow> u64 \<Rightarrow> bool" where
  "hasReadable_loop [] ro = False"
| "hasReadable_loop ((start, d) # it) ro =
     (let stop = start + word_of_nat (length d) in
      if start \<le> ro \<and> stop > ro then True
      else if start > ro then False
      else hasReadable_loop it ro)"

definition hasReadableData :: "SwQuicStream \<Rightarrow> bool" where
  "hasReadableData s = hasReadable_loop (m_fragments s) (m_readOffset s)"

fun readContiguous_loop :: "fragments \<Rightarrow> u64 \<Rightarrow> nat \<Rightarrow> bytes \<Rightarrow> bytes \<times> fragments \<times> u64 \<times> nat" where
  "readContiguous_loop [] ro buffered out = (out, [], ro, buffered)"
| "readContiguous_loop ((start, d) # it) ro buffered out =
     (let sz = word_of_nat (length d); stop = start + sz in
      if stop \<le> ro then readContiguous_loop it ro (size_sub buffered (length d)) out
      else if start > ro then (out, (start, d) # it, ro, buffered)
      else
        let trim = ro - start; readable = sz - trim in
        if unat readable > int_max then (out, (start, d) # it, ro, buffered)
        else
          let out' = (if out = [] \<and> trim = 0 then d
                      else out @ mid d (to_int (unat trim)) (to_int (unat readable)))
          in readContiguous_loop it (ro + readable) (size_sub buffered (unat sz)) out')"

definition readContiguous :: "SwQuicStream \<Rightarrow> bytes \<times> SwQuicStream" where
  "readContiguous s =
     (case readContiguous_loop (m_fragments s) (m_readOffset s) (m_bufferedBytes s) [] of
        (out, fs, ro, buffered) \<Rightarrow>
          (out, s\<lparr>m_fragments := fs, m_readOffset := ro, m_bufferedBytes := buffered\<rparr>))"

definition isReceiveComplete :: "SwQuicStream \<Rightarrow> bool" where
  "isReceiveComplete s \<longleftrightarrow> m_finReceived s \<and> m_readOffset s \<ge> m_finalOffset s"

subsection \<open>Fragments as sets of positions\<close>

definition st :: "u64 \<times> bytes \<Rightarrow> nat" where "st e = unat (fst e)"
definition en :: "u64 \<times> bytes \<Rightarrow> nat" where "en e = unat (fst e) + length (snd e)"

definition frags_ok :: "fragments \<Rightarrow> bool" where
  "frags_ok fs \<longleftrightarrow> smap_ok fs \<and> (\<forall>e\<in>set fs. snd e \<noteq> [] \<and> en e < 2 ^ 64) \<and>
     (\<forall>e\<in>set fs. \<forall>e'\<in>set fs. fst e < fst e' \<longrightarrow> en e \<le> st e')"

text \<open>\<open>holds fs p x\<close>: byte \<open>x\<close> of position \<open>p\<close> of the stream is buffered.\<close>

definition holds :: "fragments \<Rightarrow> nat \<Rightarrow> u8 \<Rightarrow> bool" where
  "holds fs p x \<longleftrightarrow> (\<exists>e\<in>set fs. st e \<le> p \<and> p < en e \<and> snd e ! (p - st e) = x)"

definition covered :: "fragments \<Rightarrow> nat \<Rightarrow> bool" where
  "covered fs p \<longleftrightarrow> (\<exists>e\<in>set fs. st e \<le> p \<and> p < en e)"

text \<open>The byte of the new fragment at position \<open>p\<close> differs from a buffered one.\<close>

definition conflict :: "fragments \<Rightarrow> u64 \<Rightarrow> bytes \<Rightarrow> bool" where
  "conflict fs fo frag \<longleftrightarrow> (\<exists>p x. unat fo \<le> p \<and> p < unat fo + length frag \<and> holds fs p x \<and>
     x \<noteq> frag ! (p - unat fo))"

lemma holds_covered: "covered fs p \<longleftrightarrow> (\<exists>x. holds fs p x)"
  by (auto simp: covered_def holds_def)

lemma unat_end: "en (o', d) < 2 ^ 64 \<Longrightarrow> unat (o' + word_of_nat (length d)) = unat o' + length d"
proof -
  assume a: "en (o', d) < 2 ^ 64"
  then have "unat (word_of_nat (length d) :: u64) = length d"
    by (simp add: en_def unsigned_of_nat take_bit_nat_eq_self)
  with a show ?thesis by (subst unat_plus) (simp_all add: en_def)
qed

lemma take_drop_eq_iff:
  assumes "i + n \<le> length xs" and "j + n \<le> length ys"
  shows "take n (drop i xs) = take n (drop j ys) \<longleftrightarrow> (\<forall>k<n. xs ! (i + k) = ys ! (j + k))"
  using assms by (auto simp: list_eq_iff_nth_eq)

lemma frags_ok_append:
  "frags_ok (P @ R) \<Longrightarrow> frags_ok P \<and> frags_ok R \<and> (\<forall>e\<in>set P. \<forall>e'\<in>set R. en e \<le> st e')"
  unfolding frags_ok_def smap_ok_append by auto

lemma frags_ok_suffix:
  assumes "frags_ok ((a, d) # R)" and "e \<in> set R"
  shows "unat a + length d \<le> st e"
  using assms by (auto simp: frags_ok_def smap_ok_Cons en_def)

subsection \<open>The pieces a new fragment adds\<close>

definition piece :: "u64 \<Rightarrow> bytes \<Rightarrow> u64 \<times> bytes \<Rightarrow> bool" where
  "piece fo frag a \<longleftrightarrow> unat fo \<le> st a \<and> en a \<le> unat fo + length frag \<and> snd a \<noteq> [] \<and>
     snd a = take (length (snd a)) (drop (st a - unat fo) frag)"

definition totalBytes :: "fragments \<Rightarrow> nat" where
  "totalBytes fs = sum_list (map (\<lambda>e. length (snd e)) fs)"

definition agrees :: "u64 \<Rightarrow> bytes \<Rightarrow> fragments \<Rightarrow> bool" where
  "agrees fo frag P \<longleftrightarrow> (\<forall>p x. unat fo \<le> p \<longrightarrow> p < unat fo + length frag \<longrightarrow> holds P p x \<longrightarrow>
     x = frag ! (p - unat fo))"

definition apart :: "fragments \<Rightarrow> fragments \<Rightarrow> bool" where
  "apart A P \<longleftrightarrow> (\<forall>a\<in>set A. \<forall>e\<in>set P. en a \<le> st e \<or> en e \<le> st a)"

text \<open>The invariant of the loop: \<open>P\<close> was visited, \<open>A\<close> collected, everything below \<open>c\<close> is settled.\<close>

definition collect_inv :: "u64 \<Rightarrow> bytes \<Rightarrow> fragments \<Rightarrow> nat \<Rightarrow> fragments \<Rightarrow> nat \<Rightarrow> bool" where
  "collect_inv fo frag P c A n \<longleftrightarrow>
     unat fo \<le> c \<and> (\<forall>a\<in>set A. piece fo frag a \<and> en a \<le> c) \<and> frags_ok A \<and> apart A P \<and>
     (\<forall>e\<in>set P. en e \<le> c) \<and>
     (\<forall>p. unat fo \<le> p \<and> p < c \<and> p < unat fo + length frag \<longrightarrow> covered (P @ A) p) \<and>
     agrees fo frag P \<and> n = totalBytes A"

lemma holds_append: "holds (P @ Q) p x \<longleftrightarrow> holds P p x \<or> holds Q p x"
  unfolding holds_def set_append by blast

lemma covered_append: "covered (P @ Q) p \<longleftrightarrow> covered P p \<or> covered Q p"
  unfolding covered_def set_append by blast

lemma covered_Cons: "covered (e # P) p \<longleftrightarrow> st e \<le> p \<and> p < en e \<or> covered P p"
  by (simp add: covered_def)

lemma agrees_append: "agrees fo frag (P @ Q) \<longleftrightarrow> agrees fo frag P \<and> agrees fo frag Q"
  unfolding agrees_def holds_append by blast

lemma agrees_single_iff:
  assumes "st e < unat fo + length frag" and "unat fo < en e"
  defines "a \<equiv> max (st e) (unat fo)" and "b \<equiv> min (en e) (unat fo + length frag)"
  shows "take (b - a) (drop (a - st e) (snd e)) = take (b - a) (drop (a - unat fo) frag) \<longleftrightarrow>
    agrees fo frag [e]"
proof -
  have ab: "a < b \<or> snd e = [] \<or> frag = []" and bounds: "a - st e + (b - a) \<le> length (snd e)"
    "a - unat fo + (b - a) \<le> length frag"
    using assms(1,2) by (auto simp: a_def b_def en_def st_def max_def min_def)
  have "(\<forall>k<b - a. snd e ! (a - st e + k) = frag ! (a - unat fo + k)) \<longleftrightarrow>
      (\<forall>p. a \<le> p \<and> p < b \<longrightarrow> snd e ! (p - st e) = frag ! (p - unat fo))"
  proof
    assume L: "\<forall>k<b - a. snd e ! (a - st e + k) = frag ! (a - unat fo + k)"
    show "\<forall>p. a \<le> p \<and> p < b \<longrightarrow> snd e ! (p - st e) = frag ! (p - unat fo)"
    proof (intro allI impI)
      fix p assume p: "a \<le> p \<and> p < b"
      then have "p - a < b - a" by auto
      with L have "snd e ! (a - st e + (p - a)) = frag ! (a - unat fo + (p - a))" by blast
      moreover have "a - st e + (p - a) = p - st e" "a - unat fo + (p - a) = p - unat fo"
        using p by (auto simp: a_def)
      ultimately show "snd e ! (p - st e) = frag ! (p - unat fo)" by simp
    qed
  next
    assume R: "\<forall>p. a \<le> p \<and> p < b \<longrightarrow> snd e ! (p - st e) = frag ! (p - unat fo)"
    show "\<forall>k<b - a. snd e ! (a - st e + k) = frag ! (a - unat fo + k)"
    proof (intro allI impI)
      fix k assume "k < b - a"
      then have "snd e ! (a + k - st e) = frag ! (a + k - unat fo)" using R by auto
      moreover have "a + k - st e = a - st e + k" "a + k - unat fo = a - unat fo + k"
        by (auto simp: a_def)
      ultimately show "snd e ! (a - st e + k) = frag ! (a - unat fo + k)" by simp
    qed
  qed
  also have "\<dots> \<longleftrightarrow> agrees fo frag [e]"
    by (auto simp: agrees_def holds_def a_def b_def)
  finally show ?thesis using take_drop_eq_iff [OF bounds] by simp
qed

lemma conflict_iff: "conflict fs fo frag \<longleftrightarrow> \<not> agrees fo frag fs"
  unfolding conflict_def agrees_def by blast

lemma frags_ok_snoc:
  assumes "frags_ok A" and "\<forall>a\<in>set A. en a \<le> st e" and "snd e \<noteq> []" and "en e < 2 ^ 64"
  shows "frags_ok (A @ [e])"
proof -
  have lt: "fst a < fst e" if "a \<in> set A" for a
  proof -
    have "snd a \<noteq> []" using assms(1) that by (simp add: frags_ok_def)
    then have "st a < en a" by (simp add: st_def en_def)
    then have "st a < st e" using assms(2) that by fastforce
    then show ?thesis by (simp add: st_def word_less_nat_alt)
  qed
  then have "smap_ok (A @ [e])" using assms(1) by (auto simp: frags_ok_def smap_ok_append) (simp add: smap_ok_def)
  moreover have "en x \<le> st y" if "x \<in> set (A @ [e])" "y \<in> set (A @ [e])" "fst x < fst y" for x y
  proof -
    have "x \<in> set A \<and> y \<in> set A \<or> x \<in> set A \<and> y = e \<or> x = e" using that by auto
    then consider "x \<in> set A" "y \<in> set A" | "x \<in> set A" "y = e" | "x = e" by blast
    then show ?thesis
    proof cases
      case 1
      with assms(1) that(3) show ?thesis unfolding frags_ok_def by blast
    next
      case 2
      with assms(2) show ?thesis by simp
    next
      case 3
      have "y = e \<or> fst y < fst e" using that(2) lt [of y] by auto
      with 3 that(3) show ?thesis using less_asym [of "fst e" "fst y"] by blast
    qed
  qed
  ultimately show ?thesis using assms by (auto simp: frags_ok_def)
qed

lemma total_append [simp]: "totalBytes (A @ B) = totalBytes A + totalBytes B"
  by (simp add: totalBytes_def)

lemma total_Nil [simp]: "totalBytes [] = 0"
  by (simp add: totalBytes_def)

lemma total_Cons [simp]: "totalBytes (e # A) = length (snd e) + totalBytes A"
  by (simp add: totalBytes_def)

text \<open>The uncovered piece between the cursor and \<open>stop\<close>.\<close>

lemma collect_inv_piece:
  assumes inv: "collect_inv fo frag P c A n" and c: "c = unat cu" "c < stop" "stop \<le> unat fo + length frag"
    and len: "length frag < 2 ^ 31" "unat fo + length frag < 2 ^ 64"
    and d: "d = take (stop - c) (drop (c - unat fo) frag)"
  shows "collect_inv fo frag P stop (A @ [(cu, d)]) (n + (stop - c))"
proof -
  have lo: "unat fo \<le> c" and below: "\<forall>a\<in>set A. en a \<le> c" "\<forall>e\<in>set P. en e \<le> c"
    using inv by (auto simp: collect_inv_def)
  have ld: "length d = stop - c" using d lo c(2,3) by simp
  then have se: "st (cu, d) = c" "en (cu, d) = stop" "d \<noteq> []" using c by (auto simp: st_def en_def)
  have new: "piece fo frag (cu, d)" using se ld d lo c(2,3) by (simp add: piece_def)
  have "frags_ok (A @ [(cu, d)])"
    using inv below se c(3) len by (intro frags_ok_snoc) (auto simp: collect_inv_def)
  moreover have "apart (A @ [(cu, d)]) P"
    using inv below se by (auto simp: collect_inv_def apart_def)
  moreover have "covered (P @ A @ [(cu, d)]) p" if "unat fo \<le> p" "p < stop" "p < unat fo + length frag" for p
  proof (cases "p < c")
    case True
    with inv that show ?thesis by (auto simp: collect_inv_def covered_append)
  next
    case False
    with that se show ?thesis by (auto simp: covered_def)
  qed
  ultimately show ?thesis using inv new below c se ld by (auto simp: collect_inv_def)
qed

text \<open>Moving on over a visited fragment.\<close>

lemma collect_inv_visit:
  assumes inv: "collect_inv fo frag P c A n" and e: "en e \<le> c'" "c \<le> c'"
    and apart: "\<forall>a\<in>set A. en a \<le> st e" and gap: "\<forall>p. c \<le> p \<and> p < c' \<longrightarrow> st e \<le> p \<and> p < en e"
    and agree: "agrees fo frag [e]"
  shows "collect_inv fo frag (P @ [e]) c' A n"
proof -
  have "covered ((P @ [e]) @ A) p" if "unat fo \<le> p" "p < c'" "p < unat fo + length frag" for p
  proof (cases "p < c")
    case True
    with inv that have "covered P p \<or> covered A p" by (auto simp: collect_inv_def covered_append)
    then show ?thesis by (auto simp: covered_append covered_Cons)
  next
    case False
    with gap that show ?thesis by (auto simp: covered_def)
  qed
  then show ?thesis using inv e apart agree
    by (auto simp: collect_inv_def apart_def agrees_append)
qed

text \<open>The comparison of the overlap decides whether the visited fragment agrees with the new one.\<close>

lemma overlap_check:
  fixes s fo fe :: u64 and d frag :: bytes
  defines "stop \<equiv> s + word_of_nat (length d)"
  defines "oS \<equiv> if s > fo then s else fo" and "oE \<equiv> if stop < fe then stop else fe"
  assumes stop: "unat stop = en (s, d)" and ufe: "unat fe = unat fo + length frag"
    and overlap: "unat fo < en (s, d)" "st (s, d) < unat fo + length frag"
  shows "(oS < oE \<and> take (unat (oE - oS)) (drop (unat (oS - s)) d) \<noteq>
      take (unat (oE - oS)) (drop (unat (oS - fo)) frag)) \<longleftrightarrow> \<not> agrees fo frag [(s, d)]"
proof -
  let ?e = "(s, d)"
  have oS: "unat oS = max (st ?e) (unat fo)" and oE: "unat oE = min (en ?e) (unat fo + length frag)"
    using stop ufe by (auto simp: oS_def oE_def st_def word_less_nat_alt)
  show ?thesis
  proof (cases "oS < oE")
    case True
    have "unat (oE - oS) = unat oE - unat oS" "unat (oS - s) = unat oS - st ?e"
      "unat (oS - fo) = unat oS - unat fo"
      using True by (auto simp: unat_minus oS_def st_def)
    with True agrees_single_iff [OF overlap(2,1)] oS oE show ?thesis by simp
  next
    case False
    then have "min (en ?e) (unat fo + length frag) \<le> max (st ?e) (unat fo)"
      using oS oE unfolding word_less_nat_alt by (simp only: not_less)
    with False show ?thesis by (auto simp: agrees_def holds_def)
  qed
qed

lemma collect_inv_overlap:
  fixes s c :: u64
  assumes inv: "collect_inv fo frag P (unat c) A n"
    and start: "A = [] \<and> c = fo \<or> unat c \<le> st (s, d)"
    and len: "length frag < 2 ^ 31" "unat fo + length frag < 2 ^ 64"
    and e: "d \<noteq> []" "unat fo < en (s, d)" "st (s, d) < unat fo + length frag" "agrees fo frag [(s, d)]"
  defines "A' \<equiv> if s > c then A @ [(c, mid frag (to_int (unat (c - fo))) (to_int (unat (s - c))))] else A"
    and "n' \<equiv> if s > c then n + unat (s - c) else n"
  shows "collect_inv fo frag (P @ [(s, d)]) (en (s, d)) A' n'"
proof (cases "s > c")
  case True
  let ?e = "(s, d)"
  have fo_c: "unat fo \<le> unat c" using inv by (simp add: collect_inv_def)
  have se: "st ?e = unat s" "st ?e < en ?e" using e(1) by (auto simp: st_def en_def)
  have c_s: "unat c < st ?e" using True se by (simp add: word_less_nat_alt)
  have diffs: "unat (s - c) = st ?e - unat c" "unat (c - fo) = unat c - unat fo"
    using unat_minus [OF less_imp_le [OF True]] unat_minus [of fo c] se fo_c
    by (simp_all add: word_le_nat_alt)
  have "mid frag (to_int (unat c - unat fo)) (to_int (st ?e - unat c)) =
      take (st ?e - unat c) (drop (unat c - unat fo) frag)"
    using c_s fo_c e(3) len(1) by (intro mid_cast) simp_all
  then have "A' = A @ [(c, take (st ?e - unat c) (drop (unat c - unat fo) frag))]"
    and "n' = n + (st ?e - unat c)" using True diffs by (simp_all add: A'_def n'_def)
  then have "collect_inv fo frag P (st ?e) A' n'"
    using collect_inv_piece [OF inv refl c_s less_imp_le [OF e(3)] len refl] by simp
  then show ?thesis using se e(4)
    by (intro collect_inv_visit [where c = "st ?e"]) (auto simp: collect_inv_def)
next
  case False
  let ?e = "(s, d)"
  have se: "st ?e \<le> unat c" using False by (simp add: st_def word_less_nat_alt)
  have "\<forall>a\<in>set A. en a \<le> unat c" using inv by (simp add: collect_inv_def)
  then have "\<forall>a\<in>set A. en a \<le> st ?e" using start by (cases "A = []") auto
  moreover have "unat c < en ?e"
  proof -
    have "0 < length d" using e(1) by blast
    then have "st ?e < en ?e" by (simp add: st_def en_def)
    then show ?thesis using start e(2) by auto
  qed
  ultimately show ?thesis unfolding A'_def n'_def using False inv e(4) se
    by (auto intro!: collect_inv_visit [where c = "unat c"])
qed

lemma conflict_append: "conflict Q fo frag \<Longrightarrow> conflict (P @ Q @ R) fo frag"
  unfolding conflict_def holds_append by blast

lemma collectAdditions_spec:
  assumes "frags_ok (P @ R)" and "collect_inv fo frag P (unat c) A n"
    and "A = [] \<and> c = fo \<or> (\<forall>e\<in>set R. unat c \<le> st e)"
    and len: "length frag < 2 ^ 31" "unat fo + length frag < 2 ^ 64"
    and fe: "fe = fo + word_of_nat (length frag)"
  shows "case collectAdditions fo fe frag R c A n of
      Inl m \<Rightarrow> m = ''QUIC stream received conflicting overlapping data'' \<and> conflict (P @ R) fo frag
    | Inr (c', A', n') \<Rightarrow> \<exists>P' R'. P @ R = P' @ R' \<and> collect_inv fo frag P' (unat c') A' n' \<and>
        (\<forall>e\<in>set R'. unat fo + length frag \<le> st e)"
  using assms(1-3)
proof (induction R arbitrary: P c A n)
  case Nil
  then have "\<exists>P' R'. P @ [] = P' @ R' \<and> collect_inv fo frag P' (unat c) A n \<and>
      (\<forall>e\<in>set R'. unat fo + length frag \<le> st e)"
    by (intro exI [of _ P] exI [of _ "[]"]) simp
  then show ?case by simp
next
  case (Cons e R)
  obtain s d where e: "e = (s, d)" by fastforce
  let ?stop = "s + word_of_nat (length d)"
  have ufe: "unat fe = unat fo + length frag"
    unfolding fe using len(2) by (intro unat_end) (simp add: en_def)
  have ok: "frags_ok (e # R)" "frags_ok ((P @ [e]) @ R)"
    using Cons.prems(1) frags_ok_append [of P "e # R"] by simp_all
  then have ee: "d \<noteq> []" "en e < 2 ^ 64" using e by (simp_all add: frags_ok_def)
  then have stop: "unat ?stop = en e" and se: "st e = unat s" "st e < en e"
    using unat_end [of s d] e by (simp_all add: en_def st_def)
  have later: "\<forall>e'\<in>set R. en e \<le> st e'"
    using frags_ok_suffix [of s d R] ok(1) e by (simp add: en_def)
  consider (before) "en e \<le> unat fo" | (behind) "unat fo < en e" "unat fo + length frag \<le> st e"
    | (overlap) "unat fo < en e" "st e < unat fo + length frag" by linarith
  then show ?case
  proof cases
    case before
    have "unat fo \<le> unat c" using Cons.prems(2) by (simp add: collect_inv_def)
    moreover from this have "A = []" using Cons.prems(3) se before by auto
    moreover have "agrees fo frag [e]" using before by (auto simp: agrees_def holds_def)
    ultimately have inv: "collect_inv fo frag (P @ [e]) (unat c) A n"
      using Cons.prems(2) before by (intro collect_inv_visit [where c = "unat c"]) auto
    have "A = [] \<and> c = fo \<or> (\<forall>e'\<in>set R. unat c \<le> st e')" using Cons.prems(3) by auto
    from Cons.IH [OF ok(2) inv this, unfolded append_assoc append.simps] before stop
    show ?thesis by (simp add: e word_le_nat_alt)
  next
    case behind
    have "\<forall>e'\<in>set (e # R). unat fo + length frag \<le> st e'" using behind later se by fastforce
    with Cons.prems(2) have "\<exists>P' R'. P @ e # R = P' @ R' \<and> collect_inv fo frag P' (unat c) A n \<and>
        (\<forall>e\<in>set R'. unat fo + length frag \<le> st e)"
      by (intro exI [of _ P] exI [of _ "e # R"]) simp
    moreover have "collectAdditions fo fe frag (e # R) c A n = Inr (c, A, n)"
      using behind stop ufe se by (simp add: e word_le_nat_alt Let_def)
    ultimately show ?thesis by simp
  next
    case overlap
    let ?A = "if s > c then A @ [(c, mid frag (to_int (unat (c - fo))) (to_int (unat (s - c))))] else A"
    let ?n = "if s > c then n + unat (s - c) else n"
    have "c < ?stop" "\<not> s \<ge> fe" "s < fe" "\<not> ?stop \<le> fo"
      using Cons.prems(3) overlap ufe se stop by (auto simp: word_le_nat_alt word_less_nat_alt)
    then have step: "collectAdditions fo fe frag (e # R) c A n =
        (if agrees fo frag [e] then collectAdditions fo fe frag R ?stop ?A ?n
         else Inl ''QUIC stream received conflicting overlapping data'')"
      using overlap_check [of s d fe fo frag] stop ufe overlap
      unfolding e collectAdditions.simps Let_def by simp
    show ?thesis
    proof (cases "agrees fo frag [e]")
      case False
      then have "conflict (P @ [e] @ R) fo frag" by (intro conflict_append) (simp add: conflict_iff)
      with False step show ?thesis by simp
    next
      case True
      have "collect_inv fo frag (P @ [e]) (unat ?stop) ?A ?n"
        unfolding stop unfolding e
        using Cons.prems(2,3) len ee overlap True e by (intro collect_inv_overlap) auto
      from Cons.IH [OF ok(2) this, unfolded append_assoc append.simps] later stop True step
      show ?thesis by simp
    qed
  qed
qed

text \<open>The pieces collected for the whole fragment, the part behind the last cursor included.\<close>

definition additions_ok :: "fragments \<Rightarrow> u64 \<Rightarrow> bytes \<Rightarrow> fragments \<Rightarrow> bool" where
  "additions_ok fs fo frag A \<longleftrightarrow> (\<forall>a\<in>set A. piece fo frag a) \<and> frags_ok A \<and> apart A fs \<and>
     (\<forall>p. unat fo \<le> p \<and> p < unat fo + length frag \<longrightarrow> covered (fs @ A) p) \<and> agrees fo frag fs"

lemma collect_final:
  assumes inv: "collect_inv fo frag P c A n" and R: "\<forall>e\<in>set R. unat fo + length frag \<le> st e"
    and c: "unat fo + length frag \<le> c"
    and le: "\<forall>a\<in>set A. en a \<le> unat fo + length frag"
  shows "additions_ok (P @ R) fo frag A \<and> n = totalBytes A"
proof -
  have "apart A (P @ R)" using inv R le by (fastforce simp: collect_inv_def apart_def)
  moreover have "agrees fo frag R" using R by (force simp: agrees_def holds_def)
  moreover have "covered ((P @ R) @ A) p" if "unat fo \<le> p" "p < unat fo + length frag" for p
    using inv c that by (auto simp: collect_inv_def covered_append)
  ultimately show ?thesis using inv by (auto simp: additions_ok_def collect_inv_def agrees_append)
qed

lemma storeFragment_additions:
  assumes ok: "frags_ok (m_fragments s)" and end64: "unat fo + length frag < 2 ^ 64"
    and len: "\<not> length frag > int_max"
  shows "case storeFragment s fo frag of
      Inl m \<Rightarrow> m = ''QUIC stream reassembly budget exceeded'' \<or>
        m = ''QUIC stream received conflicting overlapping data'' \<and> conflict (m_fragments s) fo frag
    | Inr s' \<Rightarrow> \<exists>A. additions_ok (m_fragments s) fo frag A \<and>
        m_bufferedBytes s \<le> m_maxBufferedBytes s \<and>
        totalBytes A \<le> m_maxBufferedBytes s - m_bufferedBytes s \<and>
        length (m_fragments s) + length A \<le> m_maxFragments s \<and>
        s' = s\<lparr>m_fragments := fold (\<lambda>(o', d) m. smap_insert o' d m) A (m_fragments s),
               m_bufferedBytes := m_bufferedBytes s + totalBytes A\<rparr>"
proof -
  let ?fe = "fo + word_of_nat (length frag)" and ?E = "unat fo + length frag"
  have len31: "length frag < 2 ^ 31" using len by (simp add: int_max_def)
  have ufe: "unat ?fe = ?E" using end64 by (intro unat_end) (simp add: en_def)
  have start: "collect_inv fo frag [] (unat fo) [] 0"
    by (auto simp: collect_inv_def apart_def agrees_def holds_def frags_ok_def)
  have spec: "case collectAdditions fo ?fe frag (m_fragments s) fo [] 0 of
      Inl m \<Rightarrow> m = ''QUIC stream received conflicting overlapping data'' \<and> conflict ([] @ m_fragments s) fo frag
    | Inr (c', A', n') \<Rightarrow> \<exists>P' R'. [] @ m_fragments s = P' @ R' \<and> collect_inv fo frag P' (unat c') A' n' \<and>
        (\<forall>e\<in>set R'. ?E \<le> st e)"
    using ok start len31 end64 by (intro collectAdditions_spec) simp_all
  show ?thesis
  proof (cases "collectAdditions fo ?fe frag (m_fragments s) fo [] 0")
    case (Inl m)
    with spec len show ?thesis by (simp add: storeFragment_def Let_def)
  next
    case (Inr r)
    obtain c A n where r: "r = (c, A, n)" using prod_cases3 by blast
    obtain P R where PR: "m_fragments s = P @ R" "collect_inv fo frag P (unat c) A n"
      "\<forall>e\<in>set R. ?E \<le> st e" using spec Inr r by auto
    define rest where "rest = take (?E - unat c) (drop (unat c - unat fo) frag)"
    define A' where "A' = (if c < ?fe then A @ [(c, rest)] else A)"
    define n' where "n' = (if c < ?fe then n + (?E - unat c) else n)"
    have fo_c: "unat fo \<le> unat c" and Ale: "\<forall>a\<in>set A. en a \<le> ?E"
      using PR(2) by (auto simp: collect_inv_def piece_def)
    have A': "additions_ok (m_fragments s) fo frag A' \<and> n' = totalBytes A'"
    proof (cases "c < ?fe")
      case True
      then have "unat c < ?E" using ufe by (simp add: word_less_nat_alt)
      have eqs: "A' = A @ [(c, rest)]" "n' = n + (?E - unat c)" using True by (simp_all add: A'_def n'_def)
      have "collect_inv fo frag P ?E A' n'" unfolding eqs
        by (rule collect_inv_piece [OF PR(2) refl \<open>unat c < ?E\<close> order_refl len31 end64 rest_def])
      then show ?thesis unfolding PR(1) using PR(3)
        by (intro collect_final [where c = ?E]) (auto simp: collect_inv_def)
    next
      case False
      then have "?E \<le> unat c" using ufe by (simp add: word_less_nat_alt)
      with collect_final [OF PR(2,3) _ Ale] False show ?thesis unfolding PR(1) A'_def n'_def by simp
    qed
    have rest_eq: "(if c = fo \<and> unat (?fe - c) = length frag then frag
        else mid frag (to_int (unat (c - fo))) (to_int (unat (?fe - c)))) = rest \<and>
        unat (?fe - c) = ?E - unat c" if "c < ?fe"
    proof -
      have "unat (?fe - c) = ?E - unat c" "unat (c - fo) = unat c - unat fo"
        using unat_minus [OF less_imp_le [OF that]] unat_minus [of fo c] ufe fo_c
        by (simp_all add: word_le_nat_alt)
      moreover have "mid frag (to_int (unat c - unat fo)) (to_int (?E - unat c)) = rest"
        unfolding rest_def using that ufe fo_c len31 by (intro mid_cast) (auto simp: word_less_nat_alt)
      ultimately show ?thesis by (auto simp: rest_def)
    qed
    have eq: "storeFragment s fo frag =
        (if m_bufferedBytes s > m_maxBufferedBytes s \<or> n' > m_maxBufferedBytes s - m_bufferedBytes s \<or>
            length (m_fragments s) > m_maxFragments s \<or>
            length A' > m_maxFragments s - length (m_fragments s)
         then Inl ''QUIC stream reassembly budget exceeded''
         else Inr (s\<lparr>m_fragments := fold (\<lambda>(o', d) m. smap_insert o' d m) A' (m_fragments s),
                     m_bufferedBytes := m_bufferedBytes s + n'\<rparr>))"
      using Inr r len rest_eq unfolding storeFragment_def Let_def A'_def n'_def by (auto simp: Let_def)
    show ?thesis unfolding eq using A' by (auto simp: not_less)
  qed
qed

subsection \<open>Storing the pieces\<close>

lemma totalBytes_insert:
  "smap_find m k = None \<Longrightarrow> totalBytes (smap_insert k v m) = length v + totalBytes m"
  by (induction k v m rule: smap_insert.induct) (auto split: if_splits)

lemma frags_ok_insert:
  assumes ok: "frags_ok fs" and a: "snd a \<noteq> []" "en a < 2 ^ 64"
    and apart: "\<forall>e\<in>set fs. en a \<le> st e \<or> en e \<le> st a"
  shows "smap_find fs (fst a) = None" and "set (smap_insert (fst a) (snd a) fs) = insert a (set fs)"
    and "frags_ok (smap_insert (fst a) (snd a) fs)"
proof -
  have ne: "fst e \<noteq> fst a" if "e \<in> set fs" for e
  proof
    assume "fst e = fst a"
    then have "st e = st a" by (simp add: st_def)
    moreover have "snd e \<noteq> []" using ok that by (simp add: frags_ok_def)
    then have "st e < en e" by (simp add: st_def en_def)
    moreover have "st a < en a" using a(1) by (simp add: st_def en_def)
    moreover have "en a \<le> st e \<or> en e \<le> st a" using apart that by blast
    ultimately show False by linarith
  qed
  then show "smap_find fs (fst a) = None" by (metis (no_types) imageE smap_find_None)
  have smap: "smap_ok fs" using ok by (simp add: frags_ok_def)
  show set: "set (smap_insert (fst a) (snd a) fs) = insert a (set fs)"
    using set_smap_insert [OF smap, of "fst a" "snd a"] ne by auto
  have "en e \<le> st e'" if "e \<in> insert a (set fs)" "e' \<in> insert a (set fs)" "fst e < fst e'" for e e'
  proof -
    have lt: "st e < st e'" using that(3) by (simp add: st_def word_less_nat_alt)
    have le: "st x \<le> en x" for x :: "u64 \<times> bytes" by (simp add: st_def en_def)
    have "e = a \<and> e' \<in> set fs \<or> e \<in> set fs \<and> e' = a \<or> e \<in> set fs \<and> e' \<in> set fs"
      using that lt by auto
    then consider "e = a" "e' \<in> set fs" | "e \<in> set fs" "e' = a" | "e \<in> set fs" "e' \<in> set fs"
      by blast
    then show ?thesis
    proof cases
      case 1
      then have "en e \<le> st e' \<or> en e' \<le> st e" using apart by blast
      with lt le [of e'] show ?thesis by linarith
    next
      case 2
      then have "en e' \<le> st e \<or> en e \<le> st e'" using apart by blast
      with lt le [of e'] show ?thesis by linarith
    next
      case 3
      with ok that(3) show ?thesis unfolding frags_ok_def by blast
    qed
  qed
  moreover have "\<forall>e\<in>insert a (set fs). snd e \<noteq> [] \<and> en e < 2 ^ 64"
    using ok a by (simp add: frags_ok_def)
  ultimately show "frags_ok (smap_insert (fst a) (snd a) fs)"
    unfolding frags_ok_def set using smap_insert_ok [OF smap] by blast
qed

lemma store_pieces:
  assumes "frags_ok fs" and "frags_ok A" and "apart A fs"
  defines "fs' \<equiv> fold (\<lambda>(o', d) m. smap_insert o' d m) A fs"
  shows "frags_ok fs' \<and> set fs' = set fs \<union> set A \<and> length fs' = length fs + length A \<and>
    totalBytes fs' = totalBytes fs + totalBytes A"
  using assms(1-3) unfolding fs'_def
proof (induction A arbitrary: fs)
  case (Cons a A)
  have a: "snd a \<noteq> []" "en a < 2 ^ 64" using Cons.prems(2) by (simp_all add: frags_ok_def)
  have ap: "\<forall>e\<in>set fs. en a \<le> st e \<or> en e \<le> st a" using Cons.prems(3) by (simp add: apart_def)
  note ins = frags_ok_insert [OF Cons.prems(1) a ap]
  have later: "\<forall>e\<in>set A. en a \<le> st e"
    using frags_ok_append [of "[a]" A] Cons.prems(2) by simp
  have "frags_ok A" using frags_ok_append [of "[a]" A] Cons.prems(2) by simp
  moreover have "apart A (smap_insert (fst a) (snd a) fs)"
    using Cons.prems(3) later by (auto simp: apart_def ins(2))
  ultimately have "frags_ok (fold (\<lambda>(o', d) m. smap_insert o' d m) A (smap_insert (fst a) (snd a) fs)) \<and>
      set (fold (\<lambda>(o', d) m. smap_insert o' d m) A (smap_insert (fst a) (snd a) fs)) =
        set (smap_insert (fst a) (snd a) fs) \<union> set A \<and>
      length (fold (\<lambda>(o', d) m. smap_insert o' d m) A (smap_insert (fst a) (snd a) fs)) =
        length (smap_insert (fst a) (snd a) fs) + length A \<and>
      totalBytes (fold (\<lambda>(o', d) m. smap_insert o' d m) A (smap_insert (fst a) (snd a) fs)) =
        totalBytes (smap_insert (fst a) (snd a) fs) + totalBytes A"
    using Cons.IH [OF ins(3)] by blast
  then show ?case
    using ins(2) totalBytes_insert [OF ins(1)] length_smap_insert [OF ins(1)]
    by (cases a) simp
qed simp

lemma piece_holds:
  assumes "piece fo frag a" and "st a \<le> p" and "p < en a"
  shows "snd a ! (p - st a) = frag ! (p - unat fo)" and "unat fo \<le> p" and "p < unat fo + length frag"
proof -
  have eq: "snd a = take (length (snd a)) (drop (st a - unat fo) frag)" and lo: "unat fo \<le> st a"
    and hi: "en a \<le> unat fo + length frag" using assms(1) by (simp_all add: piece_def)
  have "p - st a < length (snd a)" using assms(2,3) by (simp add: en_def st_def)
  then have "snd a ! (p - st a) = frag ! (st a - unat fo + (p - st a))"
    using hi lo by (subst eq) (simp add: en_def st_def)
  also have "st a - unat fo + (p - st a) = p - unat fo" using lo assms(2) by simp
  finally show "snd a ! (p - st a) = frag ! (p - unat fo)" .
  show "unat fo \<le> p" "p < unat fo + length frag" using lo hi assms(2,3) by simp_all
qed

lemma additions_holds:
  assumes add: "additions_ok fs fo frag A" and set: "set fs' = set fs \<union> set A"
  shows "holds fs' p x \<longleftrightarrow>
    holds fs p x \<or> unat fo \<le> p \<and> p < unat fo + length frag \<and> x = frag ! (p - unat fo)"
proof -
  have fs': "holds fs' p x \<longleftrightarrow> holds fs p x \<or> holds A p x" unfolding holds_def set by blast
  have "holds A p x \<Longrightarrow> unat fo \<le> p \<and> p < unat fo + length frag \<and> x = frag ! (p - unat fo)"
    using add piece_holds [of fo frag _ p] by (auto simp: holds_def additions_ok_def)
  moreover have "holds fs p x \<or> holds A p x"
    if r: "unat fo \<le> p" "p < unat fo + length frag" "x = frag ! (p - unat fo)"
  proof -
    have "covered (fs @ A) p" using add r by (simp add: additions_ok_def)
    then consider y where "holds fs p y" | y where "holds A p y"
      unfolding holds_covered holds_append by blast
    then show ?thesis
    proof cases
      case 1
      then have "y = x" using add r by (simp add: additions_ok_def agrees_def)
      with 1 show ?thesis by simp
    next
      case 2
      then have "y = x"
        using add r piece_holds [of fo frag _ p] by (auto simp: holds_def additions_ok_def)
      with 2 show ?thesis by simp
    qed
  qed
  ultimately show ?thesis using fs' by blast
qed

subsection \<open>The invariant of a stream\<close>

definition stream_inv :: "SwQuicStream \<Rightarrow> bool" where
  "stream_inv s \<longleftrightarrow> frags_ok (m_fragments s) \<and>
     (\<forall>e\<in>set (m_fragments s). unat (m_readOffset s) \<le> st e \<and> length (snd e) \<le> int_max) \<and>
     m_bufferedBytes s = totalBytes (m_fragments s) \<and>
     m_bufferedBytes s \<le> m_maxBufferedBytes s \<and> length (m_fragments s) \<le> m_maxFragments s \<and>
     (m_finReceived s \<longrightarrow> m_readOffset s \<le> m_finalOffset s \<and>
        (\<forall>e\<in>set (m_fragments s). en e \<le> unat (m_finalOffset s)))"

lemma stream_inv_new: "stream_inv (newStream sid maxBytes maxFrags)"
  by (simp add: stream_inv_def newStream_def frags_ok_def)

lemma storeFragment_spec:
  assumes inv: "stream_inv s" and fo: "unat (m_readOffset s) \<le> unat fo"
    and end64: "unat fo + length frag < 2 ^ 64"
    and fin: "m_finReceived s \<longrightarrow> unat fo + length frag \<le> unat (m_finalOffset s)"
    and store: "storeFragment s fo frag = Inr s'"
  shows "stream_inv s' \<and> m_readOffset s' = m_readOffset s \<and> m_finReceived s' = m_finReceived s \<and>
    m_finalOffset s' = m_finalOffset s \<and> agrees fo frag (m_fragments s) \<and>
    (\<forall>e\<in>set (m_fragments s'). e \<in> set (m_fragments s) \<or> en e \<le> unat fo + length frag) \<and>
    (\<forall>p x. holds (m_fragments s') p x \<longleftrightarrow> holds (m_fragments s) p x \<or>
       unat fo \<le> p \<and> p < unat fo + length frag \<and> x = frag ! (p - unat fo))"
proof -
  have len: "\<not> length frag > int_max" using store by (auto simp: storeFragment_def split: if_splits)
  have ok: "frags_ok (m_fragments s)" using inv by (simp add: stream_inv_def)
  from storeFragment_additions [OF ok end64 len] store obtain A where
    A: "additions_ok (m_fragments s) fo frag A"
      "totalBytes A \<le> m_maxBufferedBytes s - m_bufferedBytes s"
      "length (m_fragments s) + length A \<le> m_maxFragments s" and
    s': "s' = s\<lparr>m_fragments := fold (\<lambda>(o', d) m. smap_insert o' d m) A (m_fragments s),
           m_bufferedBytes := m_bufferedBytes s + totalBytes A\<rparr>" by auto
  have fs': "frags_ok (m_fragments s')" "set (m_fragments s') = set (m_fragments s) \<union> set A"
    "length (m_fragments s') = length (m_fragments s) + length A"
    "totalBytes (m_fragments s') = totalBytes (m_fragments s) + totalBytes A"
    using store_pieces [OF ok, of A] A(1) s' by (simp_all add: additions_ok_def)
  have piece: "unat fo \<le> st a \<and> en a \<le> unat fo + length frag \<and> length (snd a) \<le> int_max" if "a \<in> set A" for a
    using A(1) that len by (auto simp: additions_ok_def piece_def en_def st_def)
  have "stream_inv s'"
    using inv fs' A(2,3) fo fin piece s' by (fastforce simp: stream_inv_def)
  then show ?thesis
    using s' piece fs'(2) A(1) additions_holds [OF A(1) fs'(2)] by (auto simp: additions_ok_def)
qed

lemma setFin_fields [simp]:
  "m_fragments (setFin f e s) = m_fragments s" "m_readOffset (setFin f e s) = m_readOffset s"
  "m_bufferedBytes (setFin f e s) = m_bufferedBytes s"
  "m_maxBufferedBytes (setFin f e s) = m_maxBufferedBytes s"
  "m_maxFragments (setFin f e s) = m_maxFragments s"
  "m_finReceived (setFin f e s) = (f \<or> m_finReceived s)"
  "m_finalOffset (setFin f e s) = (if f then e else m_finalOffset s)"
  by (simp_all add: setFin_def)

lemma setFin_inv:
  assumes "stream_inv s" and "f \<longrightarrow> m_readOffset s \<le> e \<and> (\<forall>x\<in>set (m_fragments s). en x \<le> unat e)"
  shows "stream_inv (setFin f e s)"
  using assms by (auto simp: stream_inv_def)

lemma storeFragment_final:
  "storeFragment s fo frag = Inr s' \<Longrightarrow> m_finalOffset s' = m_finalOffset s"
  by (auto simp: storeFragment_def Let_def split: if_splits sum.splits prod.splits)

lemma receive_final:
  "receive s off d f = Inr s' \<Longrightarrow> \<not> f \<Longrightarrow> m_finalOffset s' = m_finalOffset s"
  by (auto simp: receive_def Let_def split: if_splits sum.splits dest: storeFragment_final)

lemma last_end_max:
  assumes "frags_ok fs" and "e \<in> set fs"
  shows "en e \<le> en (last fs)"
proof -
  obtain Q l where fs: "fs = Q @ [l]" using assms(2) by (cases fs rule: rev_cases) auto
  have "\<forall>x\<in>set Q. en x \<le> st l" using frags_ok_append [of Q "[l]"] assms(1) fs by simp
  moreover have "st l \<le> en l" by (simp add: st_def en_def)
  ultimately show ?thesis using assms(2) fs by fastforce
qed

lemma length_word: "length d < 2 ^ 64 \<Longrightarrow> unat (word_of_nat (length d) :: u64) = length d"
  by (simp add: unsigned_of_nat take_bit_nat_eq_self)

lemma addWouldOverflow_iff:
  "length d < 2 ^ 64 \<Longrightarrow> addWouldOverflow off (word_of_nat (length d)) \<longleftrightarrow> 2 ^ 64 \<le> unat off + length d"
proof -
  assume "length d < 2 ^ 64"
  then have n: "unat (word_of_nat (length d) :: u64) = length d" by (rule length_word)
  have "unat (- 1 - word_of_nat (length d) :: u64) = 2 ^ 64 - 1 - length d"
    using n by (subst unat_minus) (simp_all add: unsigned_minus_1_eq_mask mask_eq_exp_minus_1)
  with \<open>length d < 2 ^ 64\<close> show ?thesis by (auto simp: addWouldOverflow_def word_less_nat_alt)
qed

text \<open>The part of a frame at and behind the read offset.\<close>

definition newPart :: "SwQuicStream \<Rightarrow> u64 \<Rightarrow> bytes \<Rightarrow> u64 \<times> bytes" where
  "newPart s off d =
     (if off < m_readOffset s then (m_readOffset s, drop (unat (m_readOffset s - off)) d) else (off, d))"

lemma newPart_spec:
  assumes "unat (m_readOffset s) < unat off + length d" and "newPart s off d = (fo, frag)"
  shows "unat fo = max (unat off) (unat (m_readOffset s))" and "unat fo + length frag = unat off + length d"
    and "d \<noteq> [] \<Longrightarrow> 0 < length frag" and "unat fo \<le> p \<Longrightarrow> frag ! (p - unat fo) = d ! (p - unat off)"
proof -
  have *: "unat fo = max (unat off) (unat (m_readOffset s)) \<and> frag = drop (unat fo - unat off) d"
    using assms(2) by (auto simp: newPart_def word_less_nat_alt unat_minus word_le_nat_alt split: if_splits)
  with assms(1) show "unat fo = max (unat off) (unat (m_readOffset s))"
    and "unat fo + length frag = unat off + length d" and "d \<noteq> [] \<Longrightarrow> 0 < length frag" by auto
  show "frag ! (p - unat fo) = d ! (p - unat off)" if "unat fo \<le> p"
  proof -
    have "unat fo - unat off \<le> length d" "unat off \<le> unat fo" using * assms(1) by auto
    with * that show ?thesis by simp
  qed
qed

lemma trimmed_part:
  assumes len: "length d < 2 ^ 64" and lt: "off < m_readOffset s"
    and ro: "unat (m_readOffset s) < unat off + length d"
    and fits: "byteArraySliceFits (m_readOffset s - off)"
      "byteArraySliceFits (word_of_nat (length d) - (m_readOffset s - off))"
  shows "mid d (to_int (unat (m_readOffset s - off)))
      (to_int (unat (word_of_nat (length d) - (m_readOffset s - off)))) =
    drop (unat (m_readOffset s - off)) d"
proof -
  let ?t = "m_readOffset s - off" and ?n = "word_of_nat (length d) :: u64"
  have t: "unat ?t = unat (m_readOffset s) - unat off" using lt by (intro unat_minus) simp
  then have le: "unat ?t \<le> length d" using ro by simp
  then have n: "unat (?n - ?t) = length d - unat ?t"
    using length_word [OF len] by (simp add: unat_minus word_le_nat_alt)
  have "mid d (to_int (unat ?t)) (to_int (unat (?n - ?t))) = take (unat (?n - ?t)) (drop (unat ?t) d)"
    using le n fits by (intro mid_to_int) (auto simp: byteArraySliceFits_def int_max_def)
  with n show ?thesis by simp
qed

text \<open>\<open>receive\<close> once its guards are passed, without the casts.\<close>

lemma receive_unfold:
  assumes len: "length d < 2 ^ 64" and rec: "receive s off d f = Inr s'"
  defines "E \<equiv> unat off + length d" and "e64 \<equiv> off + word_of_nat (length d)"
  shows "E < 2 ^ 64" and "unat e64 = E"
    and "f \<Longrightarrow> m_finReceived s \<Longrightarrow> m_finalOffset s = e64" and "f \<Longrightarrow> m_readOffset s \<le> e64"
    and "f \<Longrightarrow> \<not> m_finReceived s \<Longrightarrow> m_fragments s \<noteq> [] \<Longrightarrow>
      fst (last (m_fragments s)) + word_of_nat (length (snd (last (m_fragments s)))) \<le> e64"
    and "m_finReceived s \<Longrightarrow> e64 \<le> m_finalOffset s"
    and "e64 \<le> m_readOffset s \<Longrightarrow> s' = setFin f e64 s"
    and "d = [] \<Longrightarrow> s' = setFin f e64 s"
    and "m_readOffset s < e64 \<Longrightarrow> d \<noteq> [] \<Longrightarrow> newPart s off d = (fo, frag) \<Longrightarrow>
      \<exists>s1. storeFragment s fo frag = Inr s1 \<and> s' = setFin f e64 s1"
proof -
  have no: "\<not> addWouldOverflow off (word_of_nat (length d))"
    using rec by (auto simp: receive_def Let_def split: if_splits)
  then show E: "E < 2 ^ 64" unfolding E_def using addWouldOverflow_iff [OF len] by simp
  then show ue: "unat e64 = E" unfolding e64_def E_def by (intro unat_end) (simp add: en_def)
  show "f \<Longrightarrow> m_finReceived s \<Longrightarrow> m_finalOffset s = e64"
    and "f \<Longrightarrow> m_readOffset s \<le> e64"
    and "f \<Longrightarrow> \<not> m_finReceived s \<Longrightarrow> m_fragments s \<noteq> [] \<Longrightarrow>
      fst (last (m_fragments s)) + word_of_nat (length (snd (last (m_fragments s)))) \<le> e64"
    and "m_finReceived s \<Longrightarrow> e64 \<le> m_finalOffset s"
    and ro: "e64 \<le> m_readOffset s \<Longrightarrow> s' = setFin f e64 s"
    using rec no unfolding receive_def Let_def e64_def by (auto simp: not_less split: if_splits)
  show "s' = setFin f e64 s" if "d = []"
  proof (cases "e64 \<le> m_readOffset s")
    case False
    then have "\<not> off < m_readOffset s" using ue that by (simp add: E_def word_le_nat_alt word_less_nat_alt)
    with rec no that False show ?thesis
      unfolding receive_def Let_def e64_def by (auto split: if_splits)
  qed (rule ro)
  show "\<exists>s1. storeFragment s fo frag = Inr s1 \<and> s' = setFin f e64 s1"
    if ro: "m_readOffset s < e64" and ne: "d \<noteq> []" and np: "newPart s off d = (fo, frag)"
  proof -
    let ?t = "m_readOffset s - off" and ?n = "word_of_nat (length d) :: u64"
    have fits: "byteArraySliceFits ?t \<and> byteArraySliceFits (?n - ?t)" if "off < m_readOffset s"
      using rec no ro that unfolding receive_def Let_def e64_def by (auto simp: not_le split: if_splits)
    have ro': "unat (m_readOffset s) < unat off + length d" using ro ue by (simp add: E_def word_less_nat_alt)
    have part: "mid d (to_int (unat ?t)) (to_int (unat (?n - ?t))) = frag \<and> m_readOffset s = fo"
      if lt: "off < m_readOffset s"
      using trimmed_part [OF len lt ro'] fits [OF lt] np lt by (auto simp: newPart_def)
    have pos: "0 < length frag" using ro' np ne by (rule newPart_spec)
    have off: "\<not> off < m_readOffset s \<Longrightarrow> fo = off \<and> frag = d" using np by (simp add: newPart_def)
    have "\<not> e64 \<le> m_readOffset s" using ro by simp
    then show ?thesis
      using rec no pos part off fits unfolding receive_def Let_def e64_def
      by (cases "off < m_readOffset s") (auto split: if_splits sum.splits)
  qed
qed

lemma receive_ok:
  assumes inv: "stream_inv s" and len: "length d < 2 ^ 64" and rec: "receive s off d f = Inr s'"
  shows "unat off + length d < 2 ^ 64" and "stream_inv s'" and "m_readOffset s' = m_readOffset s"
    and "holds (m_fragments s') p x \<longleftrightarrow> holds (m_fragments s) p x \<or>
      unat off \<le> p \<and> p < unat off + length d \<and> unat (m_readOffset s) \<le> p \<and> x = d ! (p - unat off)"
    and "holds (m_fragments s) p x \<Longrightarrow> unat off \<le> p \<Longrightarrow> p < unat off + length d \<Longrightarrow>
      x = d ! (p - unat off)"
    and "m_finReceived s' \<longleftrightarrow> f \<or> m_finReceived s"
    and "f \<Longrightarrow> unat (m_finalOffset s') = unat off + length d"
proof -
  note unf = receive_unfold [OF len rec]
  let ?E = "unat off + length d" and ?e = "off + word_of_nat (length d)"
  show "?E < 2 ^ 64" by (rule unf)
  have ok: "frags_ok (m_fragments s)" and above: "unat (m_readOffset s) \<le> q" if "holds (m_fragments s) q y" for q y
    using inv that by (auto simp: stream_inv_def holds_def)
  have finE: "m_finReceived s \<Longrightarrow> ?E \<le> unat (m_finalOffset s)" using unf(2,6) by (simp add: word_le_nat_alt)
  have fin: "m_readOffset s \<le> ?e \<and> (\<forall>y\<in>set (m_fragments s). en y \<le> ?E)" if f
  proof (cases "m_finReceived s")
    case True
    with unf(2-4) that inv show ?thesis by (auto simp: stream_inv_def)
  next
    case False
    have "en y \<le> ?E" if "y \<in> set (m_fragments s)" for y
    proof -
      let ?l = "last (m_fragments s)"
      have ok: "frags_ok (m_fragments s)" using inv by (simp add: stream_inv_def)
      have ne: "m_fragments s \<noteq> []" using that by auto
      then have "en (fst ?l, snd ?l) < 2 ^ 64" using ok by (simp add: frags_ok_def)
      then have "unat (fst ?l + word_of_nat (length (snd ?l))) = en ?l" using unat_end by (simp add: en_def)
      then have "en ?l \<le> ?E" using unf(2,5) ne False \<open>f\<close> by (simp add: word_le_nat_alt)
      with last_end_max [OF ok that] show ?thesis by simp
    qed
    with unf(4) that show ?thesis by simp
  qed
  consider (old) "?E \<le> unat (m_readOffset s) \<or> d = []" | (new) "unat (m_readOffset s) < ?E" "d \<noteq> []" by linarith
  then have "stream_inv s' \<and> m_readOffset s' = m_readOffset s \<and>
    (\<forall>p x. holds (m_fragments s') p x \<longleftrightarrow> holds (m_fragments s) p x \<or>
      unat off \<le> p \<and> p < ?E \<and> unat (m_readOffset s) \<le> p \<and> x = d ! (p - unat off)) \<and>
    (\<forall>p x. holds (m_fragments s) p x \<longrightarrow> unat off \<le> p \<longrightarrow> p < ?E \<longrightarrow> x = d ! (p - unat off)) \<and>
    (m_finReceived s' \<longleftrightarrow> f \<or> m_finReceived s) \<and> (f \<longrightarrow> unat (m_finalOffset s') = ?E)"
  proof cases
    case old
    then have s': "s' = setFin f ?e s" using unf(2,7,8) by (auto simp: word_le_nat_alt)
    have "stream_inv s'" unfolding s' using inv fin unf(2) by (intro setFin_inv) auto
    moreover have "\<not> (holds (m_fragments s) q y \<and> unat off \<le> q \<and> q < ?E)" for q y
      using old above by fastforce
    ultimately show ?thesis using s' old unf(2) by auto
  next
    case new
    obtain fo frag where np: "newPart s off d = (fo, frag)" by fastforce
    note part = newPart_spec [OF new(1) np]
    have "m_readOffset s < ?e" using new(1) unf(2) by (simp add: word_less_nat_alt)
    then obtain s1 where s1: "storeFragment s fo frag = Inr s1" "s' = setFin f ?e s1"
      using unf(9) [OF _ new(2) np] by blast
    have st: "stream_inv s1 \<and> m_readOffset s1 = m_readOffset s \<and> m_finReceived s1 = m_finReceived s \<and>
      m_finalOffset s1 = m_finalOffset s \<and> agrees fo frag (m_fragments s) \<and>
      (\<forall>e\<in>set (m_fragments s1). e \<in> set (m_fragments s) \<or> en e \<le> unat fo + length frag) \<and>
      (\<forall>p x. holds (m_fragments s1) p x \<longleftrightarrow> holds (m_fragments s) p x \<or>
         unat fo \<le> p \<and> p < unat fo + length frag \<and> x = frag ! (p - unat fo))"
      using part(1,2) unf(1) finE by (intro storeFragment_spec [OF inv _ _ _ s1(1)]) auto
    have "stream_inv s'" unfolding s1(2) using st fin unf(2) part(2) by (intro setFin_inv) auto
    moreover have "unat fo \<le> q \<longleftrightarrow> unat off \<le> q \<and> unat (m_readOffset s) \<le> q" for q using part(1) by auto
    ultimately show ?thesis
      using st part(2,4) s1(2) unf(2) above by (auto simp: agrees_def)
  qed
  then show "stream_inv s'" and "m_readOffset s' = m_readOffset s"
    and "holds (m_fragments s') p x \<longleftrightarrow> holds (m_fragments s) p x \<or>
      unat off \<le> p \<and> p < ?E \<and> unat (m_readOffset s) \<le> p \<and> x = d ! (p - unat off)"
    and "holds (m_fragments s) p x \<Longrightarrow> unat off \<le> p \<Longrightarrow> p < ?E \<Longrightarrow> x = d ! (p - unat off)"
    and "m_finReceived s' \<longleftrightarrow> f \<or> m_finReceived s"
    and "f \<Longrightarrow> unat (m_finalOffset s') = ?E" by blast+
qed

subsection \<open>Reading delivers the contiguous bytes\<close>

lemma readContiguous_loop_spec:
  assumes "frags_ok fs" and "\<forall>e\<in>set fs. unat ro \<le> st e \<and> length (snd e) \<le> int_max"
    and "buffered = totalBytes fs"
  shows "\<exists>bs fs' ro'. readContiguous_loop fs ro buffered out = (out @ bs, fs', ro', totalBytes fs') \<and>
    unat ro' = unat ro + length bs \<and> (\<exists>Q. fs = Q @ fs') \<and> (\<forall>e\<in>set fs'. unat ro' < st e) \<and>
    (\<forall>i<length bs. holds fs (unat ro + i) (bs ! i)) \<and>
    (\<forall>p x. holds fs p x \<longrightarrow> p < unat ro' \<or> holds fs' p x)"
  using assms
proof (induction fs arbitrary: ro buffered out)
  case Nil
  then show ?case by (auto simp: holds_def)
next
  case (Cons e fs)
  obtain s d where e: "e = (s, d)" by fastforce
  let ?sz = "word_of_nat (length d) :: u64"
  have ed: "d \<noteq> []" "en e < 2 ^ 64" using Cons.prems(1) e by (auto simp: frags_ok_def)
  have stop: "unat (s + ?sz) = en e" using unat_end [of s d] ed e by (simp add: en_def)
  have usz: "unat ?sz = length d" using ed(2) e by (intro length_word) (simp add: en_def)
  have ro: "unat ro \<le> unat s" "length d \<le> int_max" using Cons.prems(2) e by (auto simp: st_def)
  have lt: "st e < en e" "st e = unat s" using ed e by (auto simp: st_def en_def)
  have not_past: "\<not> s + ?sz \<le> ro" using stop lt ro by (simp add: word_le_nat_alt)
  have later: "\<forall>e'\<in>set fs. en e \<le> st e'" and okfs: "frags_ok fs"
    using frags_ok_append [of "[e]" fs] Cons.prems(1) by auto
  show ?case
  proof (cases "s > ro")
    case True
    have gap: "unat ro < st e" using True lt by (simp add: word_less_nat_alt)
    then have "\<forall>e'\<in>set (e # fs). unat ro < st e'" using later lt by fastforce
    then have "readContiguous_loop (e # fs) ro buffered out = (out @ [], e # fs, ro, totalBytes (e # fs)) \<and>
        unat ro = unat ro + length ([] :: bytes) \<and> e # fs = [] @ e # fs \<and> (\<forall>e'\<in>set (e # fs). unat ro < st e')"
      using True not_past Cons.prems(3) by (simp add: e Let_def)
    then show ?thesis by (intro exI [of _ "[] :: bytes"] exI [of _ "e # fs"] exI [of _ ro]) auto
  next
    case False
    then have s: "ro = s" using ro(1) by (simp add: word_nat)
    have sub: "size_sub buffered (length d) = totalBytes fs"
      using Cons.prems(3) e by (simp add: size_sub_def)
    have whole: "mid d (to_int 0) (to_int (length d)) = d"
      using ro(2) by (subst mid_to_int) (simp_all add: int_max_def)
    have step: "readContiguous_loop (e # fs) ro buffered out =
        readContiguous_loop fs (s + ?sz) (totalBytes fs) (out @ d)"
      using False not_past usz ro(2) sub s whole by (simp add: e Let_def)
    obtain bs fs' ro' where IH:
      "readContiguous_loop fs (s + ?sz) (totalBytes fs) (out @ d) = ((out @ d) @ bs, fs', ro', totalBytes fs')"
      "unat ro' = unat (s + ?sz) + length bs" "\<exists>Q. fs = Q @ fs'" "\<forall>e\<in>set fs'. unat ro' < st e"
      "\<forall>i<length bs. holds fs (unat (s + ?sz) + i) (bs ! i)"
      "\<forall>p x. holds fs p x \<longrightarrow> p < unat ro' \<or> holds fs' p x"
      using Cons.IH [of "s + ?sz" "totalBytes fs" "out @ d"] okfs later stop Cons.prems(2) by auto
    have ro': "unat ro' = unat ro + length (d @ bs)" using IH(2) stop s e by (simp add: en_def)
    have bytes: "holds (e # fs) (unat ro + i) ((d @ bs) ! i)" if "i < length (d @ bs)" for i
    proof (cases "i < length d")
      case True
      then show ?thesis using s e by (auto simp: holds_def st_def en_def nth_append)
    next
      case False
      then have "i - length d < length bs" using that by auto
      with IH(5) have "holds fs (unat (s + ?sz) + (i - length d)) (bs ! (i - length d))" by blast
      moreover have "unat (s + ?sz) + (i - length d) = unat ro + i" using stop s e False by (simp add: en_def)
      ultimately show ?thesis using False by (auto simp: holds_def nth_append)
    qed
    have rest: "p < unat ro' \<or> holds fs' p x" if "holds (e # fs) p x" for p x
      using that IH(6) ro' s e by (auto simp: holds_def st_def en_def)
    have "\<exists>Q. e # fs = Q @ fs'" using IH(3) by (metis append_Cons)
    then show ?thesis using step IH(1,4) ro' bytes rest ed(1)
      by (intro exI [of _ "d @ bs"] exI [of _ fs'] exI [of _ ro']) auto
  qed
qed

lemma readContiguous_spec:
  assumes inv: "stream_inv s" and read: "readContiguous s = (bs, s')"
  shows "stream_inv s'" and "unat (m_readOffset s') = unat (m_readOffset s) + length bs"
    and "i < length bs \<Longrightarrow> holds (m_fragments s) (unat (m_readOffset s) + i) (bs ! i)"
    and "holds (m_fragments s') p x \<longleftrightarrow> holds (m_fragments s) p x \<and> unat (m_readOffset s') \<le> p"
    and "\<not> covered (m_fragments s') (unat (m_readOffset s'))"
    and "m_finReceived s' = m_finReceived s" and "m_finalOffset s' = m_finalOffset s"
proof -
  let ?fs = "m_fragments s" and ?ro = "m_readOffset s"
  have pre: "frags_ok ?fs" "\<forall>e\<in>set ?fs. unat ?ro \<le> st e \<and> length (snd e) \<le> int_max"
    "m_bufferedBytes s = totalBytes ?fs" using inv by (auto simp: stream_inv_def)
  obtain bs' fs' ro' Q where L:
    "readContiguous_loop ?fs ?ro (m_bufferedBytes s) [] = (bs', fs', ro', totalBytes fs')"
    "unat ro' = unat ?ro + length bs'" "?fs = Q @ fs'" "\<forall>e\<in>set fs'. unat ro' < st e"
    "\<forall>i<length bs'. holds ?fs (unat ?ro + i) (bs' ! i)"
    "\<forall>p x. holds ?fs p x \<longrightarrow> p < unat ro' \<or> holds fs' p x"
    using readContiguous_loop_spec [OF pre, of "[]"] unfolding append_Nil by blast
  have s': "s' = s\<lparr>m_fragments := fs', m_readOffset := ro', m_bufferedBytes := totalBytes fs'\<rparr>" "bs = bs'"
    using read L(1) by (auto simp: readContiguous_def)
  show "unat (m_readOffset s') = unat ?ro + length bs" using L(2) s' by simp
  show "i < length bs \<Longrightarrow> holds ?fs (unat ?ro + i) (bs ! i)" using L(5) s' by simp
  show "m_finReceived s' = m_finReceived s" and "m_finalOffset s' = m_finalOffset s" using s' by simp_all
  show "\<not> covered (m_fragments s') (unat (m_readOffset s'))" using L(4) s' by (auto simp: covered_def)
  have sub: "holds fs' p x \<Longrightarrow> holds ?fs p x \<and> unat ro' \<le> p" for p x
    using L(3,4) by (auto simp: holds_def)
  then show "holds (m_fragments s') p x \<longleftrightarrow> holds ?fs p x \<and> unat (m_readOffset s') \<le> p"
    using L(6) [rule_format, of p x] s' by auto
  have "totalBytes fs' \<le> totalBytes ?fs" "length fs' \<le> length ?fs" "set fs' \<subseteq> set ?fs" using L(3) by auto
  moreover have "frags_ok fs'" using frags_ok_append [of Q fs'] pre(1) L(3) by simp
  moreover have "m_finReceived s \<longrightarrow> ro' \<le> m_finalOffset s"
  proof
    assume f: "m_finReceived s"
    show "ro' \<le> m_finalOffset s"
    proof (cases "length bs'")
      case 0
      then show ?thesis using L(2) inv f by (simp add: stream_inv_def word_le_nat_alt)
    next
      case (Suc n)
      then have "holds ?fs (unat ?ro + n) (bs' ! n)" using L(5) by simp
      then show ?thesis using inv f L(2) Suc by (auto simp: stream_inv_def holds_def word_le_nat_alt)
    qed
  qed
  ultimately show "stream_inv s'" using inv L(4) s' by (auto simp: stream_inv_def less_imp_le)
qed

subsection \<open>Delivery\<close>

text \<open>
  \<open>stream_run full s out\<close>: a stream that carries the bytes \<open>full\<close> is in state \<open>s\<close> after
  accepting some of the sender's frames, in any order, repeated or overlapping, and the
  application has read \<open>out\<close> so far. \<open>got\<close> are the positions of the accepted frames. The
  FIN flag is on frames that end where \<open>full\<close> ends.
\<close>

inductive stream_run :: "bytes \<Rightarrow> SwQuicStream \<Rightarrow> bytes \<Rightarrow> nat set \<Rightarrow> bool" for full :: bytes where
  run_new: "stream_run full (newStream sid maxBytes maxFrags) [] {}"
| run_receive: "stream_run full s out got \<Longrightarrow> unat off + length d \<le> length full \<Longrightarrow>
    d = take (length d) (drop (unat off) full) \<Longrightarrow> (f \<longrightarrow> unat off + length d = length full) \<Longrightarrow>
    receive s off d f = Inr s' \<Longrightarrow>
    stream_run full s' out (got \<union> {unat off ..< unat off + length d})"
| run_read: "stream_run full s out got \<Longrightarrow> readContiguous s = (bs, s') \<Longrightarrow> stream_run full s' (out @ bs) got"

lemma slice_nth:
  assumes "d = take (length d) (drop i full)" and "i \<le> p" and "p < i + length d" and "i + length d \<le> length full"
  shows "d ! (p - i) = full ! p"
proof -
  have "d ! (p - i) = take (length d) (drop i full) ! (p - i)" using assms(1) by simp
  also have "\<dots> = full ! p" using assms(2-4) by simp
  finally show ?thesis .
qed

lemma stream_run_inv:
  assumes "stream_run full s out got" and len: "length full < 2 ^ 64"
  shows "stream_inv s \<and> unat (m_readOffset s) = length out \<and> length out \<le> length full \<and>
    out = take (length out) full \<and>
    (\<forall>p x. holds (m_fragments s) p x \<longrightarrow> p < length full \<and> x = full ! p) \<and>
    (\<forall>p. p < length out \<or> covered (m_fragments s) p \<longleftrightarrow> p \<in> got) \<and>
    (m_finReceived s \<longrightarrow> unat (m_finalOffset s) = length full)"
  using assms(1)
proof (induction rule: stream_run.induct)
  case (run_new sid maxBytes maxFrags)
  have "stream_inv (newStream sid maxBytes maxFrags)" by (rule stream_inv_new)
  then show ?case by (simp add: newStream_def holds_def covered_def)
next
  case (run_receive s out got off d f s')
  have d64: "length d < 2 ^ 64" using run_receive(2) len by simp
  note rec = receive_ok [OF _ d64 run_receive(5)]
  have fin: "m_finReceived s' \<longrightarrow> unat (m_finalOffset s') = length full"
  proof (cases f)
    case True
    with rec(7) run_receive.IH run_receive(4) show ?thesis by simp
  next
    case False
    with receive_final [OF run_receive(5)] rec(6) run_receive.IH show ?thesis by simp
  qed
  have slice: "d ! (p - unat off) = full ! p" if "unat off \<le> p" "p < unat off + length d" for p
    using slice_nth [OF run_receive(3) that run_receive(2)] .
  have cov: "covered (m_fragments s') p \<longleftrightarrow> covered (m_fragments s) p \<or>
      unat off \<le> p \<and> p < unat off + length d \<and> length out \<le> p" for p
    unfolding holds_covered using rec(4) run_receive.IH by auto
  show ?case using rec(2,3,4) run_receive.IH run_receive(2) slice cov fin by auto
next
  case (run_read s out got bs s')
  note read = readContiguous_spec [OF _ run_read(2)]
  have inv: "stream_inv s" and ro: "unat (m_readOffset s) = length out" and out: "out = take (length out) full"
    and hold: "\<And>p x. holds (m_fragments s) p x \<Longrightarrow> p < length full \<and> x = full ! p"
    and got: "\<And>p. p < length out \<or> covered (m_fragments s) p \<longleftrightarrow> p \<in> got"
    and le: "length out \<le> length full"
    using run_read.IH by auto
  have bs: "length out + i < length full \<and> bs ! i = full ! (length out + i)" if "i < length bs" for i
    using hold [OF read(3) [OF inv that]] ro by simp
  have le': "length (out @ bs) \<le> length full" using bs [of "length bs - 1"] le by (cases bs) auto
  have "bs = take (length bs) (drop (length out) full)"
    using bs le' by (intro nth_equalityI) auto
  then have "out @ bs = take (length (out @ bs)) full"
    using out by (metis length_append take_add)
  moreover have "p < length (out @ bs) \<or> covered (m_fragments s') p \<longleftrightarrow> p \<in> got" for p
  proof -
    have "covered (m_fragments s) (length out + i)" if "i < length bs" for i
      unfolding holds_covered using read(3) [OF inv that] ro by auto
    then have "covered (m_fragments s) p" if "length out \<le> p" "p < length out + length bs" for p
      using that by (metis add_less_cancel_left le_add_diff_inverse)
    moreover have "covered (m_fragments s') p \<longleftrightarrow> covered (m_fragments s) p \<and> length out + length bs \<le> p"
      unfolding holds_covered using read(2) [OF inv] read(4) [OF inv, of p] ro by auto
    ultimately show ?thesis using got [of p] by auto
  qed
  moreover have "p < length full \<and> x = full ! p" if "holds (m_fragments s') p x" for p x
    using that read(4) [OF inv] hold by blast
  moreover have "unat (m_readOffset s') = length (out @ bs)" using read(2) [OF inv] ro by simp
  moreover have "m_finReceived s' \<longrightarrow> unat (m_finalOffset s') = length full"
    using read(6,7) [OF inv] run_read.IH by simp
  ultimately show ?case using read(1) [OF inv] le' by blast
qed

text \<open>A refusal for conflicting data is always justified by a buffered byte.\<close>

lemma receive_conflict:
  assumes inv: "stream_inv s" and len: "length d < 2 ^ 64"
    and err: "receive s off d f = Inl ''QUIC stream received conflicting overlapping data''"
  shows "\<exists>p x. unat off \<le> p \<and> p < unat off + length d \<and> holds (m_fragments s) p x \<and> x \<noteq> d ! (p - unat off)"
proof -
  let ?e = "off + word_of_nat (length d)" and ?t = "m_readOffset s - off" and ?n = "word_of_nat (length d) :: u64"
  have no: "\<not> addWouldOverflow off ?n" and ro: "\<not> ?e \<le> m_readOffset s"
    using err by (auto simp: receive_def Let_def split: if_splits)
  have E: "unat off + length d < 2 ^ 64" using no addWouldOverflow_iff [OF len] by simp
  then have ue: "unat ?e = unat off + length d" by (intro unat_end) (simp add: en_def)
  have ro': "unat (m_readOffset s) < unat off + length d" using ro ue by (simp add: word_le_nat_alt)
  obtain fo frag where np: "newPart s off d = (fo, frag)" by fastforce
  have store: "storeFragment s fo frag = Inl ''QUIC stream received conflicting overlapping data''"
  proof (cases "off < m_readOffset s")
    case True
    then have "byteArraySliceFits ?t \<and> byteArraySliceFits (?n - ?t)"
      using err no ro unfolding receive_def Let_def by (auto split: if_splits)
    with trimmed_part [OF len True ro'] err no ro True np show ?thesis
      unfolding receive_def Let_def newPart_def by (auto split: if_splits sum.splits)
  next
    case False
    with err no ro np show ?thesis
      unfolding receive_def Let_def newPart_def by (auto split: if_splits sum.splits)
  qed
  have ok: "frags_ok (m_fragments s)" using inv by (simp add: stream_inv_def)
  have flen: "\<not> length frag > int_max" using store by (auto simp: storeFragment_def)
  have "conflict (m_fragments s) fo frag"
    using storeFragment_additions [OF ok _ flen, of fo] newPart_spec(2) [OF ro' np] E store by simp
  then show ?thesis
    using newPart_spec [OF ro' np] by (fastforce simp: conflict_def)
qed

subsection \<open>Properties of a stream\<close>

text \<open>
  C15. What the application has read is always a prefix of what the sender wrote, and
  after accepting the first \<open>n\<close> bytes, in whatever order and overlap, a read brings it
  to at least \<open>n\<close> bytes. When the stream reports completion everything was delivered.
\<close>

theorem stream_delivery:
  assumes "stream_run full s out got" and "length full < 2 ^ 64"
  shows "out = take (length out) full \<and>
    ({0..<n} \<subseteq> got \<longrightarrow> n \<le> length (out @ fst (readContiguous s))) \<and>
    (isReceiveComplete s \<longrightarrow> out = full)"
proof -
  note inv = stream_run_inv [OF assms]
  obtain bs s' where read: "readContiguous s = (bs, s')" by fastforce
  have run': "stream_run full s' (out @ bs) got" using assms(1) read by (rule run_read)
  note inv' = stream_run_inv [OF run' assms(2)]
  have "\<not> covered (m_fragments s') (length (out @ bs))"
    using readContiguous_spec(5) [OF _ read] inv inv' by simp
  then have "length (out @ bs) \<notin> got" using inv' by blast
  then have "{0..<n} \<subseteq> got \<longrightarrow> n \<le> length (out @ bs)" by (meson atLeastLessThan_iff not_le subsetD zero_le)
  moreover have "out = full" if "isReceiveComplete s"
    using that inv by (auto simp: isReceiveComplete_def word_le_nat_alt)
  ultimately show ?thesis using inv read by simp
qed

definition example_stream1 :: SwQuicStream where
  "example_stream1 = (newStream 4 100 10)
     \<lparr>m_finReceived := True, m_finalOffset := 5, m_bufferedBytes := 2, m_fragments := [(3, [14, 15])]\<rparr>"

definition example_stream2 :: SwQuicStream where
  "example_stream2 = (newStream 4 100 10)
     \<lparr>m_finReceived := True, m_finalOffset := 5, m_bufferedBytes := 5, m_fragments := [(0, [11, 12, 13]), (3, [14, 15])]\<rparr>"

lemmas stream_eval =
  receive_def storeFragment_def setFin_def newStream_def addWouldOverflow_def byteArraySliceFits_def
  mid_def slice_def sanitizePosition_def int_max_def to_int_def Let_def
  example_stream1_def example_stream2_def

lemma example_received1: "receive (newStream 4 100 10) 3 [14, 15] True = Inr example_stream1"
  by (simp add: stream_eval)

lemma example_received2: "receive example_stream1 0 [11, 12, 13, 14] False = Inr example_stream2"
  by (simp add: stream_eval)

lemma example_run: "stream_run [11, 12, 13, 14, 15] example_stream2 [] ({} \<union> {3..<5} \<union> {0..<4})"
proof -
  note 1 = example_received1 and 2 = example_received2
  have "stream_run [11, 12, 13, 14, 15] example_stream1 [] ({} \<union> {unat (3 :: u64) ..< unat (3 :: u64) + length [14, 15 :: u8]})"
    by (rule run_receive [OF run_new _ _ _ 1]) simp_all
  then have "stream_run [11, 12, 13, 14, 15] example_stream2 []
      ({} \<union> {unat (3 :: u64) ..< unat (3 :: u64) + length [14, 15 :: u8]} \<union>
       {unat (0 :: u64) ..< unat (0 :: u64) + length [11, 12, 13, 14 :: u8]})"
    by (rule run_receive [OF _ _ _ _ 2]) simp_all
  moreover have "length [14, 15 :: u8] = 2" "length [11, 12, 13, 14 :: u8] = 4" by simp_all
  ultimately show ?thesis by (simp only:) simp
qed

theorem stream_delivery_witness:
  "fst (readContiguous example_stream2) = [11, 12, 13, 14, 15] \<and>
   5 \<le> length ([] @ fst (readContiguous example_stream2))"
proof -
  have "fst (readContiguous example_stream2) = [11, 12, 13, 14, 15]"
    by (simp add: readContiguous_def size_sub_def stream_eval)
  moreover have "{0..<5} \<subseteq> ({} \<union> {3..<5} \<union> {0..<4 :: nat})" by auto
  ultimately show ?thesis using stream_delivery [OF example_run, of 5] by simp
qed

lemma storeFragment_errors:
  assumes "frags_ok (m_fragments s)" and "unat fo + length frag < 2 ^ 64" and "length frag \<le> int_max"
    and "storeFragment s fo frag = Inl e"
  shows "e = ''QUIC stream reassembly budget exceeded'' \<or>
    e = ''QUIC stream received conflicting overlapping data''"
  using storeFragment_additions [OF assms(1,2)] assms(3,4) by auto

text \<open>The guards of \<open>receive\<close> on the final offset, and the one on the sizes it slices with.\<close>

definition final_ok :: "SwQuicStream \<Rightarrow> u64 \<Rightarrow> bool \<Rightarrow> bool" where
  "final_ok s e f \<longleftrightarrow> \<not> (f \<and> m_finReceived s \<and> m_finalOffset s \<noteq> e) \<and> \<not> (f \<and> e < m_readOffset s) \<and>
     \<not> (f \<and> \<not> m_finReceived s \<and> m_fragments s \<noteq> [] \<and>
        fst (last (m_fragments s)) + word_of_nat (length (snd (last (m_fragments s)))) > e) \<and>
     \<not> (m_finReceived s \<and> e > m_finalOffset s)"

lemma receive_errors:
  assumes inv: "stream_inv s" and small: "length d \<le> int_max"
    and no: "unat off + length d < 2 ^ 64" and final: "final_ok s (off + word_of_nat (length d)) f"
    and err: "receive s off d f = Inl e"
  shows "e = ''QUIC stream reassembly budget exceeded'' \<or>
    e = ''QUIC stream received conflicting overlapping data''"
proof -
  let ?e = "off + word_of_nat (length d)" and ?t = "m_readOffset s - off" and ?n = "word_of_nat (length d) :: u64"
  have d64: "length d < 2 ^ 64" using small by (simp add: int_max_def)
  have over: "addWouldOverflow off ?n = False" using addWouldOverflow_iff [OF d64, of off] no by simp
  have ue: "unat ?e = unat off + length d" using no by (intro unat_end) (simp add: en_def)
  have guards: "(f \<and> m_finReceived s \<and> m_finalOffset s \<noteq> ?e) = False" "(f \<and> ?e < m_readOffset s) = False"
    "(f \<and> \<not> m_finReceived s \<and> m_fragments s \<noteq> [] \<and>
      ?e < fst (last (m_fragments s)) + word_of_nat (length (snd (last (m_fragments s))))) = False"
    "(m_finReceived s \<and> m_finalOffset s < ?e) = False"
    using final unfolding final_ok_def by blast+
  have rec: "receive s off d f =
      (if ?e \<le> m_readOffset s then Inr (setFin f ?e s)
       else if off < m_readOffset s \<and> (\<not> byteArraySliceFits ?t \<or> \<not> byteArraySliceFits (?n - ?t))
       then Inl ''QUIC stream fragment is too large for SwByteArray slicing''
       else let fo = (if off < m_readOffset s then m_readOffset s else off);
                frag = (if off < m_readOffset s then mid d (to_int (unat ?t)) (to_int (unat (?n - ?t))) else d)
            in if length frag > 0
               then (case storeFragment s fo frag of Inl e \<Rightarrow> Inl e | Inr s' \<Rightarrow> Inr (setFin f ?e s'))
               else Inr (setFin f ?e s))"
    unfolding receive_def Let_def over guards if_False by (rule refl)
  have ro: "\<not> ?e \<le> m_readOffset s" using err rec by auto
  then have ro': "unat (m_readOffset s) < unat off + length d" using ue by (simp add: word_le_nat_alt)
  have fits: "byteArraySliceFits ?t" "byteArraySliceFits (?n - ?t)" if "off < m_readOffset s"
    using that ro' small length_word [OF d64]
    by (auto simp: byteArraySliceFits_def unat_minus word_le_nat_alt word_less_nat_alt)
  obtain fo frag where np: "newPart s off d = (fo, frag)" by fastforce
  have part: "(if off < m_readOffset s then m_readOffset s else off) = fo"
    "(if off < m_readOffset s then mid d (to_int (unat ?t)) (to_int (unat (?n - ?t))) else d) = frag"
    using np trimmed_part [OF d64 _ ro' fits] by (auto simp: newPart_def split: if_splits)
  have store: "storeFragment s fo frag = Inl e"
  proof (rule ccontr)
    assume neq: "storeFragment s fo frag \<noteq> Inl e"
    show False using err unfolding rec Let_def part using ro fits neq
      by (auto split: if_splits sum.splits)
  qed
  have "length frag \<le> int_max"
    using newPart_spec(1,2) [OF ro' np] small by linarith
  then show ?thesis
    using inv newPart_spec(2) [OF ro' np] no store by (intro storeFragment_errors) (simp_all add: stream_inv_def)
qed

lemma final_ok_genuine:
  fixes d :: bytes
  assumes run: "stream_run full s out got" and len: "length full < 2 ^ 64"
    and d: "unat off + length d \<le> length full" and f: "f \<longrightarrow> unat off + length d = length full"
  shows "final_ok s (off + word_of_nat (length d)) f"
proof -
  note inv = stream_run_inv [OF run len]
  let ?e = "off + word_of_nat (length d)" and ?l = "last (m_fragments s)"
  have ue: "unat ?e = unat off + length d" using d len by (intro unat_end) (simp add: en_def)
  have "en ?l \<le> length full" if "m_fragments s \<noteq> []"
  proof -
    have l: "?l \<in> set (m_fragments s)" using that by simp
    then have "snd ?l \<noteq> []" using inv by (auto simp: stream_inv_def frags_ok_def)
    then obtain y ys where "snd ?l = y # ys" by (cases "snd ?l") auto
    then have "holds (m_fragments s) (en ?l - 1) (snd ?l ! (en ?l - 1 - st ?l))"
      using l by (auto simp: holds_def st_def en_def intro!: bexI [of _ ?l])
    then show ?thesis using inv by fastforce
  qed
  moreover have "unat (fst ?l + word_of_nat (length (snd ?l))) = en ?l" if "m_fragments s \<noteq> []"
    using inv that unat_end [of "fst ?l" "snd ?l"] by (simp add: stream_inv_def frags_ok_def en_def)
  ultimately show ?thesis using inv f ue d by (auto simp: final_ok_def word_nat)
qed

text \<open>
  C16. A frame of the sender is never refused for its contents or its final offset: as long
  as it is not larger than \<open>INT_MAX\<close>, the only reason to refuse it is the reassembly budget.
\<close>

theorem stream_accepts_genuine:
  assumes run: "stream_run full s out got" and len: "length full < 2 ^ 64"
    and d: "unat off + length d \<le> length full" "d = take (length d) (drop (unat off) full)"
    and f: "f \<longrightarrow> unat off + length d = length full" and small: "length d \<le> int_max"
  shows "case receive s off d f of Inl e \<Rightarrow> e = ''QUIC stream reassembly budget exceeded'' | Inr s' \<Rightarrow> True"
proof (cases "receive s off d f")
  case (Inl e)
  note inv = stream_run_inv [OF run len]
  have d64: "length d < 2 ^ 64" using d(1) len by simp
  have "e \<noteq> ''QUIC stream received conflicting overlapping data''"
    using receive_conflict [OF _ d64, of s off f] Inl inv slice_nth [OF d(2) _ _ d(1)] by metis
  with receive_errors [OF _ small _ final_ok_genuine [OF run len d(1) f] Inl] inv d(1) len Inl
  show ?thesis by auto
qed simp

theorem stream_accepts_genuine_witness:
  "case receive example_stream2 1 [12, 13] False of
     Inl e \<Rightarrow> e = ''QUIC stream reassembly budget exceeded'' | Inr s' \<Rightarrow> True"
  using stream_accepts_genuine [OF example_run, of 1 "[12, 13]" False] by (simp add: int_max_def)

subsection \<open>Any peer\<close>

inductive stream_reachable :: "SwQuicStream \<Rightarrow> bool" where
  stream_start: "stream_reachable (newStream sid maxBytes maxFrags)"
| stream_got: "stream_reachable s \<Longrightarrow> length d < 2 ^ 64 \<Longrightarrow> receive s off d f = Inr s' \<Longrightarrow> stream_reachable s'"
| stream_read: "stream_reachable s \<Longrightarrow> readContiguous s = (bs, s') \<Longrightarrow> stream_reachable s'"

lemma stream_reachable_inv: "stream_reachable s \<Longrightarrow> stream_inv s"
  by (induction rule: stream_reachable.induct) (auto intro: stream_inv_new receive_ok(2) readContiguous_spec(1))

lemma hasReadable_loop_iff:
  assumes "frags_ok fs" and "\<forall>e\<in>set fs. unat ro \<le> st e"
  shows "hasReadable_loop fs ro \<longleftrightarrow> covered fs (unat ro)"
  using assms
proof (induction fs ro rule: hasReadable_loop.induct)
  case (2 start d it ro)
  have e: "unat (start + word_of_nat (length d)) = unat start + length d" and ne: "d \<noteq> []"
    using 2(2) unat_end [of start d] by (simp_all add: frags_ok_def)
  have later: "unat start + length d \<le> st e'" if "e' \<in> set it" for e'
    using frags_ok_suffix [OF 2(2) that] .
  have ro: "unat ro \<le> unat start" using 2(3) by (simp add: st_def)
  have "unat ro < st e'" if "e' \<in> set it" for e'
    using ro later [OF that] ne by (cases d) simp_all
  then have "\<not> covered it (unat ro)" by (fastforce simp: covered_def)
  with ro e ne show ?case by (auto simp: word_nat covered_Cons st_def en_def Let_def)
qed (simp add: covered_def)

text \<open>
  C17. Whatever the peer sends, a stream never buffers more bytes or fragments than its
  budget, its counter is the number of buffered bytes, no two fragments overlap, nothing
  already delivered is buffered, and \<open>hasReadableData\<close> says whether a read returns something.
\<close>

theorem stream_budget:
  assumes "stream_reachable s"
  shows "m_bufferedBytes s = totalBytes (m_fragments s) \<and> m_bufferedBytes s \<le> m_maxBufferedBytes s \<and>
    length (m_fragments s) \<le> m_maxFragments s \<and> frags_ok (m_fragments s) \<and>
    (\<forall>p x. holds (m_fragments s) p x \<longrightarrow> unat (m_readOffset s) \<le> p) \<and>
    (hasReadableData s \<longleftrightarrow> fst (readContiguous s) \<noteq> [])"
proof -
  note inv = stream_reachable_inv [OF assms]
  obtain bs s' where r: "readContiguous s = (bs, s')" by fastforce
  note spec = readContiguous_spec [OF inv r]
  have "covered (m_fragments s) (unat (m_readOffset s)) \<longleftrightarrow> bs \<noteq> []"
  proof
    assume c: "covered (m_fragments s) (unat (m_readOffset s))"
    show "bs \<noteq> []"
    proof
      assume "bs = []"
      with spec(2) have "unat (m_readOffset s') = unat (m_readOffset s)" by simp
      with c spec(4,5) show False by (auto simp: holds_covered)
    qed
  next
    assume "bs \<noteq> []"
    then show "covered (m_fragments s) (unat (m_readOffset s))" using spec(3) [of 0] by (auto simp: holds_covered)
  qed
  moreover have "hasReadableData s \<longleftrightarrow> covered (m_fragments s) (unat (m_readOffset s))"
    using inv unfolding hasReadableData_def by (intro hasReadable_loop_iff) (auto simp: stream_inv_def)
  ultimately show ?thesis using inv r unfolding stream_inv_def holds_def by fastforce
qed

theorem stream_budget_witness:
  "stream_reachable example_stream1 \<and> hasReadableData example_stream1 = (fst (readContiguous example_stream1) \<noteq> [])"
proof -
  note 1 = example_received1
  have "stream_reachable example_stream1" by (rule stream_got [OF stream_start _ 1]) simp
  then show ?thesis using stream_budget by blast
qed

text \<open>
  C18. The effect of an accepted frame, for any peer: exactly its bytes from the read
  offset on are added, none of them differs from a byte buffered before, the read offset
  stays, and a final size is recorded if and only if the frame carries one.
\<close>

theorem receive_exact:
  assumes "stream_reachable s" and "length d < 2 ^ 64" and "receive s off d f = Inr s'"
  shows "(\<forall>p x. holds (m_fragments s') p x \<longleftrightarrow> holds (m_fragments s) p x \<or>
      unat off \<le> p \<and> p < unat off + length d \<and> unat (m_readOffset s) \<le> p \<and> x = d ! (p - unat off)) \<and>
    \<not> conflict (m_fragments s) off d \<and> m_readOffset s' = m_readOffset s \<and>
    m_finReceived s' = (f \<or> m_finReceived s) \<and> (f \<longrightarrow> unat (m_finalOffset s') = unat off + length d)"
  using receive_ok [OF stream_reachable_inv [OF assms(1)] assms(2,3)] unfolding conflict_def by blast

theorem receive_exact_witness:
  "holds (m_fragments example_stream2) 0 11 \<and> \<not> conflict (m_fragments example_stream1) 0 [11, 12, 13, 14]"
proof -
  note 1 = example_received1 and 2 = example_received2
  have "stream_reachable example_stream1" by (rule stream_got [OF stream_start _ 1]) simp
  moreover have "m_readOffset example_stream1 = 0" by (simp add: stream_eval)
  ultimately show ?thesis using receive_exact [OF _ _ 2] by simp
qed

end
