(* ===== verification/Quic_StreamMap.thy ===== *)
theory Quic_StreamMap
  imports Quic_Stream
begin

text \<open>
  \<open>SwQuicStreamMap\<close> (\<open>src/core/io/quic/SwQuicStreamMap.h\<close>): the streams of a connection by
  their id. A call that fails after creating the stream of an unknown id leaves the empty
  stream in the map, so the operations return the map beside the error. The theory
  shows that streams do not influence each other: what one frame does is what it does to
  the stream it names.
\<close>

type_synonym SwQuicStreamMap = "(u64, SwQuicStream) smap"

definition smap_receiveFrame_with ::
  "nat \<Rightarrow> nat \<Rightarrow> SwQuicStreamMap \<Rightarrow> SwQuicFrame \<Rightarrow> string option \<times> SwQuicStreamMap" where
  "smap_receiveFrame_with maxBufferedBytes maxFragments m f =
     (if frameType f \<noteq> Stream then (Some ''QUIC stream map can only receive STREAM frames'', m)
      else
        let m' = fst (smap_emplace (streamId f) (newStream (streamId f) maxBufferedBytes maxFragments) m);
            it = the (smap_find m' (streamId f))
        in (case stream_receiveFrame it f of
              Inl e \<Rightarrow> (Some e, m')
            | Inr s' \<Rightarrow> (None, smap_insert (streamId f) s' m')))"

definition smap_receiveFrame :: "SwQuicStreamMap \<Rightarrow> SwQuicFrame \<Rightarrow> string option \<times> SwQuicStreamMap" where
  "smap_receiveFrame = smap_receiveFrame_with (1024 * 1024) 1024"

definition hasStream :: "SwQuicStreamMap \<Rightarrow> u64 \<Rightarrow> bool" where
  "hasStream m sid \<longleftrightarrow> smap_find m sid \<noteq> None"

definition streamAt :: "SwQuicStreamMap \<Rightarrow> u64 \<Rightarrow> SwQuicStream option" where
  "streamAt m sid = smap_find m sid"

definition smap_readContiguous :: "SwQuicStreamMap \<Rightarrow> u64 \<Rightarrow> bytes \<times> SwQuicStreamMap" where
  "smap_readContiguous m sid =
     (case streamAt m sid of
        None \<Rightarrow> ([], m)
      | Some existing \<Rightarrow> (case readContiguous existing of (bs, s') \<Rightarrow> (bs, smap_insert sid s' m)))"

definition streamCount :: "SwQuicStreamMap \<Rightarrow> nat" where
  "streamCount m = length m"

definition removeStream :: "SwQuicStreamMap \<Rightarrow> u64 \<Rightarrow> bool \<times> SwQuicStreamMap" where
  "removeStream m sid = (case smap_erase sid m of (m', n) \<Rightarrow> (n \<noteq> 0, m'))"

fun streamIds_loop :: "SwQuicStreamMap \<Rightarrow> u64 list \<Rightarrow> u64 list" where
  "streamIds_loop [] ids = ids"
| "streamIds_loop (it # rest) ids = streamIds_loop rest (ids @ [fst it])"

definition streamIds :: "SwQuicStreamMap \<Rightarrow> u64 list" where
  "streamIds m = streamIds_loop m []"

definition clearStreams :: "SwQuicStreamMap \<Rightarrow> SwQuicStreamMap" where
  "clearStreams m = []"

subsection \<open>Invariant\<close>

definition streams_ok :: "SwQuicStreamMap \<Rightarrow> bool" where
  "streams_ok m \<longleftrightarrow> smap_ok m \<and> (\<forall>sid s. smap_find m sid = Some s \<longrightarrow> strm_streamId s = sid \<and> stream_reachable s)"

lemma streamIds_keys: "streamIds m = smap_keys m"
proof -
  have "streamIds_loop m ids = ids @ map fst m" for ids
    by (induction m ids rule: streamIds_loop.induct) auto
  then show ?thesis by (simp add: streamIds_def smap_keys_def)
qed

lemma streamCount_keys: "smap_ok m \<Longrightarrow> streamCount m = card (dom (smap_find m))"
  using smap.keys_dom [of m] distinct_card [OF smap.keys_distinct, of m]
  by (simp add: streamCount_def smap_keys_def)

lemma setFin_id: "strm_streamId (setFin f e s) = strm_streamId s"
  by (simp add: setFin_def)

lemma storeFragment_id: "storeFragment s fo frag = Inr s' \<Longrightarrow> strm_streamId s' = strm_streamId s"
  unfolding storeFragment_def Let_def by (auto split: if_split_asm sum.split_asm prod.split_asm)

lemma receive_cases:
  assumes "receive s off d f = Inr s'"
  shows "(\<exists>e. s' = setFin f e s) \<or> (\<exists>e fo frag s1. storeFragment s fo frag = Inr s1 \<and> s' = setFin f e s1)"
  using assms unfolding receive_def Let_def by (simp split: if_split_asm sum.split_asm; blast)

lemma receive_id: "receive s off d f = Inr s' \<Longrightarrow> strm_streamId s' = strm_streamId s"
  using receive_cases storeFragment_id setFin_id by metis

lemma read_id: "readContiguous s = (bs, s') \<Longrightarrow> strm_streamId s' = strm_streamId s"
  by (auto simp: readContiguous_def split: prod.splits)

text \<open>The stream a frame for \<open>sid\<close> is delivered to.\<close>

definition streamOrNew :: "nat \<Rightarrow> nat \<Rightarrow> SwQuicStreamMap \<Rightarrow> u64 \<Rightarrow> SwQuicStream" where
  "streamOrNew mb mf m sid = (case smap_find m sid of Some s \<Rightarrow> s | None \<Rightarrow> newStream sid mb mf)"

lemma streams_ok_update:
  assumes "streams_ok m" and "strm_streamId s = sid" and "stream_reachable s"
  shows "streams_ok (smap_insert sid s m)"
  using assms by (auto simp: streams_ok_def smap.find_assign smap.ok_assign split: if_splits)

lemma streamOrNew_ok:
  assumes "streams_ok m"
  shows "strm_streamId (streamOrNew mb mf m sid) = sid" and "stream_reachable (streamOrNew mb mf m sid)"
proof -
  have "strm_streamId (newStream sid mb mf) = sid" by (simp add: newStream_def)
  then show "strm_streamId (streamOrNew mb mf m sid) = sid" "stream_reachable (streamOrNew mb mf m sid)"
    using assms stream_start by (auto simp: streamOrNew_def streams_ok_def split: option.splits)
qed

lemma emplaced:
  assumes "streams_ok m"
  shows "fst (smap_emplace sid (newStream sid mb mf) m) = 
      (if smap_find m sid = None then smap_insert sid (newStream sid mb mf) m else m)"
    and "streams_ok (fst (smap_emplace sid (newStream sid mb mf) m))"
    and "smap_find (fst (smap_emplace sid (newStream sid mb mf) m)) =
      (smap_find m)(sid \<mapsto> streamOrNew mb mf m sid)"
proof -
  have ok: "smap_ok m" using assms by (simp add: streams_ok_def)
  show e: "fst (smap_emplace sid (newStream sid mb mf) m) = 
      (if smap_find m sid = None then smap_insert sid (newStream sid mb mf) m else m)"
    by (simp add: smap.emplace_eq [OF ok])
  show "streams_ok (fst (smap_emplace sid (newStream sid mb mf) m))"
    using assms streams_ok_update [OF assms, of "newStream sid mb mf" sid] stream_start
    unfolding e by (simp add: newStream_def)
  show "smap_find (fst (smap_emplace sid (newStream sid mb mf) m)) = (smap_find m)(sid \<mapsto> streamOrNew mb mf m sid)"
    by (auto simp: e smap.find_assign [OF ok] streamOrNew_def fun_eq_iff split: option.splits)
qed

lemma receiveFrame_with_unfold:
  assumes "streams_ok m" and "frameType f = Stream"
  shows "smap_receiveFrame_with mb mf m f =
    (let s = streamOrNew mb mf m (streamId f); m' = fst (smap_emplace (streamId f) (newStream (streamId f) mb mf) m)
     in case receive s (offset f) (data f) (fin f) of
          Inl e \<Rightarrow> (Some e, m') | Inr s' \<Rightarrow> (None, smap_insert (streamId f) s' m'))"
  using assms streamOrNew_ok(1) [OF assms(1)]
  by (simp add: smap_receiveFrame_with_def stream_receiveFrame_def emplaced(3) Let_def)

lemma receiveFrame_with_ok:
  assumes "streams_ok m" and "length (data f) < 2 ^ 64"
  shows "streams_ok (snd (smap_receiveFrame_with mb mf m f))"
proof (cases "frameType f = Stream")
  case True
  let ?s = "streamOrNew mb mf m (streamId f)"
  show ?thesis
  proof (cases "receive ?s (offset f) (data f) (fin f)")
    case (Inl e)
    then show ?thesis using emplaced(2) [OF assms(1)] by (simp add: receiveFrame_with_unfold [OF assms(1) True])
  next
    case (Inr s')
    then have "stream_reachable s'" "strm_streamId s' = streamId f"
      using streamOrNew_ok [OF assms(1)] assms(2) receive_id stream_got by (metis, metis)
    with Inr show ?thesis
      using streams_ok_update [OF emplaced(2) [OF assms(1)]] by (simp add: receiveFrame_with_unfold [OF assms(1) True])
  qed
qed (use assms in \<open>simp add: smap_receiveFrame_with_def\<close>)

lemma smap_readContiguous_ok:
  assumes "streams_ok m"
  shows "streams_ok (snd (smap_readContiguous m sid))"
proof (cases "smap_find m sid")
  case (Some s)
  obtain bs s' where r: "readContiguous s = (bs, s')" by fastforce
  have "strm_streamId s = sid" "stream_reachable s" using assms Some by (auto simp: streams_ok_def)
  then have "strm_streamId s' = sid" "stream_reachable s'" using r read_id stream_read by auto
  then show ?thesis using streams_ok_update [OF assms, of s' sid] Some r by (simp add: smap_readContiguous_def streamAt_def)
qed (use assms in \<open>simp add: smap_readContiguous_def streamAt_def\<close>)

lemma removeStream_ok: "streams_ok m \<Longrightarrow> streams_ok (snd (removeStream m sid))"
  using smap.ok_erase [of m sid] smap.find_erase [of m sid]
  by (auto simp: removeStream_def streams_ok_def split: prod.splits if_splits)

lemma streams_ok_empty: "streams_ok (clearStreams m)"
  by (simp add: clearStreams_def streams_ok_def)

subsection \<open>Properties\<close>

text \<open>
  C19. A STREAM frame acts on the stream it names and on no other: the outcome is that of
  delivering it to that stream, or to a new one with the given budget, every other stream
  is what it was, and the map stays well formed.
\<close>

theorem receiveFrame_isolated:
  assumes "streams_ok m" and "frameType f = Stream" and "length (data f) < 2 ^ 64"
  shows "case smap_receiveFrame_with mb mf m f of (err, m') \<Rightarrow> streams_ok m' \<and>
    (\<forall>sid. sid \<noteq> streamId f \<longrightarrow> streamAt m' sid = streamAt m sid) \<and>
    (case receive (streamOrNew mb mf m (streamId f)) (offset f) (data f) (fin f) of
       Inl e \<Rightarrow> err = Some e \<and> streamAt m' (streamId f) = Some (streamOrNew mb mf m (streamId f))
     | Inr s' \<Rightarrow> err = None \<and> streamAt m' (streamId f) = Some s')"
proof -
  note e = emplaced(2,3) [OF assms(1), of "streamId f" mb mf]
  have ok: "smap_ok (fst (smap_emplace (streamId f) (newStream (streamId f) mb mf) m))"
    using e(1) by (simp add: streams_ok_def)
  show ?thesis
    using receiveFrame_with_ok [OF assms(1,3), of mb mf]
    by (auto simp: receiveFrame_with_unfold [OF assms(1,2)] Let_def streamAt_def e(2) smap.find_assign [OF ok]
        split: sum.splits)
qed

theorem receiveFrame_isolated_witness:
  "streamAt (snd (smap_receiveFrame [] (stream 4 0 [1, 2] True))) 8 = None"
proof -
  have "streams_ok []" using streams_ok_empty by (simp add: clearStreams_def)
  moreover have "frameType (stream 4 0 [1, 2] True) = Stream" "length (data (stream 4 0 [1, 2] True)) < 2 ^ 64"
    "streamId (stream 4 0 [1, 2] True) \<noteq> 8" by (simp_all add: stream_def frame_def)
  ultimately show ?thesis
    using receiveFrame_isolated [of "[]" "stream 4 0 [1, 2] True" "1024 * 1024" 1024]
    unfolding smap_receiveFrame_def by (fastforce split: prod.splits simp: streamAt_def)
qed

text \<open>
  Reading, removing and listing: a read returns the contiguous data of its stream and
  leaves the others, a removed stream is gone and the others stay, the ids are listed in
  ascending order, each once, and are those of the streams the map has.
\<close>

theorem stream_map_operations:
  assumes "streams_ok m"
  shows "(case smap_readContiguous m sid of (bs, m') \<Rightarrow> streams_ok m' \<and>
      (\<forall>sid'. sid' \<noteq> sid \<longrightarrow> streamAt m' sid' = streamAt m sid') \<and>
      (case streamAt m sid of None \<Rightarrow> bs = [] \<and> m' = m
       | Some s \<Rightarrow> bs = fst (readContiguous s) \<and> streamAt m' sid = Some (snd (readContiguous s)))) \<and>
    (case removeStream m sid of (found, m') \<Rightarrow> streams_ok m' \<and> found = hasStream m sid \<and>
      streamAt m' = (streamAt m)(sid := None)) \<and>
    sorted_wrt (<) (streamIds m) \<and> set (streamIds m) = {i. hasStream m i} \<and>
    streamCount m = length (streamIds m)"
proof -
  have ok: "smap_ok m" using assms by (simp add: streams_ok_def)
  have "case smap_readContiguous m sid of (bs, m') \<Rightarrow> streams_ok m' \<and>
      (\<forall>sid'. sid' \<noteq> sid \<longrightarrow> streamAt m' sid' = streamAt m sid') \<and>
      (case streamAt m sid of None \<Rightarrow> bs = [] \<and> m' = m
       | Some s \<Rightarrow> bs = fst (readContiguous s) \<and> streamAt m' sid = Some (snd (readContiguous s)))"
    using smap_readContiguous_ok [OF assms, of sid]
    by (auto simp: smap_readContiguous_def streamAt_def smap.find_assign [OF ok] split: option.splits prod.splits)
  moreover have "case removeStream m sid of (found, m') \<Rightarrow> streams_ok m' \<and> found = hasStream m sid \<and>
      streamAt m' = (streamAt m)(sid := None)"
    using removeStream_ok [OF assms, of sid] smap.find_erase [OF ok, of sid] smap.count_erase [OF ok, of sid]
    by (auto simp: removeStream_def hasStream_def streamAt_def fun_eq_iff split: prod.splits if_splits)
  ultimately show ?thesis
    using smap.keys_sorted [OF ok] smap.keys_dom [OF ok]
    by (auto simp: streamIds_keys hasStream_def streamCount_def smap_keys_def dom_def)
qed

theorem stream_map_operations_witness:
  "removeStream [(4, example_stream1)] 4 = (True, []) \<and> streamIds [(4, example_stream1)] = [4]"
proof -
  let ?m = "[(4, example_stream1)]"
  have "stream_reachable example_stream1" by (rule stream_got [OF stream_start _ example_received1]) simp
  then have "streams_ok ?m" by (auto simp: streams_ok_def smap_ok_def example_stream1_def newStream_def)
  from stream_map_operations [OF this, of 4]
  have "streamCount ?m = length (streamIds ?m)" by blast
  moreover have "removeStream ?m 4 = (True, [])" by (simp add: removeStream_def smap_erase_def)
  ultimately show ?thesis by (simp add: streamIds_def)
qed

end
