(* ===== verification/Quic_Packet.thy ===== *)
theory Quic_Packet
  imports Quic_VarInt Sw_ByteArray
begin

text \<open>
  Packets: \<open>SwQuicConnectionId\<close>, \<open>SwQuicPacketHeader\<close> and \<open>SwQuicPacketCodec\<close>
  (\<open>src/core/io/quic/SwQuicConnectionId.h\<close>, \<open>SwQuicPacketHeader.h\<close>, \<open>SwQuicPacketCodec.h\<close>): the
  unprotected Initial packet and the reconstruction of packet numbers (RFC 9000, appendix A.3).
  The theory shows that decoding inverts encoding also when packets are coalesced, that the
  decoder stays inside the datagram, and that a truncated packet number is expanded to the
  one that was sent whenever that one lies in the window the RFC names.
\<close>

subsection \<open>Connection ids\<close>

type_synonym SwQuicConnectionId = bytes

definition kMaxLength :: nat where
  "kMaxLength = 20"

definition cid_setBytes :: "bytes \<Rightarrow> string + SwQuicConnectionId" where
  "cid_setBytes bs = (if length bs > kMaxLength then Inl ''QUIC connection ID is longer than 20 bytes'' else Inr bs)"

text \<open>A failed \<open>setBytes\<close> in the constructor leaves the id empty.\<close>

definition newConnectionIdOf :: "bytes \<Rightarrow> SwQuicConnectionId" where
  "newConnectionIdOf bs = (case cid_setBytes bs of Inr c \<Rightarrow> c | Inl _ \<Rightarrow> [])"

definition cid_fromBytes :: "bytes \<Rightarrow> string + SwQuicConnectionId" where
  "cid_fromBytes bs = cid_setBytes bs"

subsection \<open>Packet headers\<close>

datatype Form = LongForm | ShortForm

datatype LongPacketType = Initial | ZeroRtt | Handshake | Retry | VersionNegotiation | UnknownType

record SwQuicPacketHeader =
  m_form :: Form
  m_longPacketType :: LongPacketType
  m_version :: u32
  m_destinationConnectionId :: SwQuicConnectionId
  m_sourceConnectionId :: SwQuicConnectionId
  m_token :: bytes
  m_payloadLength :: u64
  m_packetNumber :: u64
  m_packetNumberLength :: u8

definition newHeader :: SwQuicPacketHeader where
  "newHeader =
     \<lparr>m_form = LongForm, m_longPacketType = Initial, m_version = 1,
      m_destinationConnectionId = [], m_sourceConnectionId = [], m_token = [],
      m_payloadLength = 0, m_packetNumber = 0, m_packetNumberLength = 1\<rparr>"

definition makeInitial :: "SwQuicConnectionId \<Rightarrow> SwQuicConnectionId \<Rightarrow> SwQuicPacketHeader" where
  "makeInitial dcid scid =
     newHeader\<lparr>m_form := LongForm, m_longPacketType := Initial,
       m_destinationConnectionId := dcid, m_sourceConnectionId := scid\<rparr>"

definition maxPacketNumberForLength :: "u8 \<Rightarrow> u64" where
  "maxPacketNumberForLength n =
     (if n \<ge> 8 then 0xffffffffffffffff else push_bit (unat n * 8) 1 - 1)"

definition setPacketNumber :: "u64 \<Rightarrow> SwQuicPacketHeader \<Rightarrow> string + SwQuicPacketHeader" where
  "setPacketNumber pn h =
     (if pn > maxPacketNumberForLength (m_packetNumberLength h)
      then Inl ''QUIC packet number does not fit packet number length''
      else Inr (h\<lparr>m_packetNumber := pn\<rparr>))"

definition setDecodedPacketNumber :: "u64 \<Rightarrow> SwQuicPacketHeader \<Rightarrow> SwQuicPacketHeader" where
  "setDecodedPacketNumber pn h = h\<lparr>m_packetNumber := pn\<rparr>"

definition setPacketNumberLength :: "u8 \<Rightarrow> SwQuicPacketHeader \<Rightarrow> string + SwQuicPacketHeader" where
  "setPacketNumberLength n h =
     (if n < 1 \<or> n > 4 then Inl ''QUIC packet number length must be between 1 and 4 bytes''
      else if m_packetNumber h > maxPacketNumberForLength n
      then Inl ''QUIC packet number does not fit requested length''
      else Inr (h\<lparr>m_packetNumberLength := n\<rparr>))"

subsection \<open>Helpers of the codec\<close>

definition pkt_appendByte :: "u8 \<Rightarrow> writer" where
  "pkt_appendByte v = putW [v]"

definition appendU32 :: "u32 \<Rightarrow> writer" where
  "appendU32 v =
     seqW (pkt_appendByte (ucast (drop_bit 24 v AND 0xff)))
     (seqW (pkt_appendByte (ucast (drop_bit 16 v AND 0xff)))
     (seqW (pkt_appendByte (ucast (drop_bit 8 v AND 0xff)))
       (pkt_appendByte (ucast (v AND 0xff)))))"

definition pkt_readByte :: "u8 reader" where
  "pkt_readByte buf off =
     (if off \<ge> length buf then (Inl ''QUIC packet is truncated'', off) else (Inr (buf ! off), off + 1))"

definition readU32 :: "u32 reader" where
  "readU32 buf off =
     (if size_sub (length buf) off < 4 then (Inl ''QUIC packet version is truncated'', off)
      else (Inr (push_bit 24 (ucast (buf ! off)) OR push_bit 16 (ucast (buf ! (off + 1))) OR
                 push_bit 8 (ucast (buf ! (off + 2))) OR ucast (buf ! (off + 3))), off + 4))"

definition pkt_readSlice :: "nat \<Rightarrow> bytes reader" where
  "pkt_readSlice len buf off =
     (if size_sub (length buf) off < len then (Inl ''QUIC packet field is truncated'', off)
      else (Inr (mid buf (to_int off) (to_int len)), off + len))"

definition appendPacketNumber :: "SwQuicPacketHeader \<Rightarrow> writer" where
  "appendPacketNumber h =
     (let n = m_packetNumberLength h in
      if n < 1 \<or> n > 4 then failW ''Invalid QUIC packet number length''
      else foldr (\<lambda>i w. seqW (pkt_appendByte (ucast (drop_bit ((unat n - 1 - i) * 8) (m_packetNumber h) AND 0xff))) w)
             [0..<unat n] returnW)"

definition readPacketNumber :: "u8 \<Rightarrow> u64 reader" where
  "readPacketNumber n buf off =
     (if size_sub (length buf) off < unat n then (Inl ''QUIC packet number is truncated'', off)
      else (Inr (foldl (\<lambda>acc i. push_bit 8 acc OR ucast (buf ! (off + i))) 0 [0..<unat n]), off + unat n))"

text \<open>\<open>packet.size() - offset\<close>, read at the current offset, and the offset itself.\<close>

definition pkt_remaining :: "nat reader" where
  "pkt_remaining buf off = (Inr (size_sub (length buf) off), off)"

definition pkt_offset :: "nat reader" where
  "pkt_offset buf off = (Inr off, off)"

definition liftSum :: "(string + 'a) \<Rightarrow> 'a reader" where
  "liftSum v = (case v of Inl e \<Rightarrow> failR e | Inr x \<Rightarrow> returnR x)"

subsection \<open>Initial packets\<close>

text \<open>The checks that precede \<open>outPacket.clear()\<close> leave the buffer alone.\<close>

definition encodeInitialPacket :: "SwQuicPacketHeader \<Rightarrow> bytes \<Rightarrow> writer" where
  "encodeInitialPacket h payload out =
     (if m_form h \<noteq> LongForm \<or> m_longPacketType h \<noteq> Initial
      then (out, Some ''Only QUIC Initial long packets can be encoded'')
      else if length (m_destinationConnectionId h) > 255 \<or> length (m_sourceConnectionId h) > 255
      then (out, Some ''QUIC connection ID length does not fit long header'')
      else if length payload > size_max - unat (m_packetNumberLength h)
      then (out, Some ''QUIC packet payload is too large'')
      else
        let encodedPayloadLength = word_of_nat (length payload) + ucast (m_packetNumberLength h) in
        seqW (pkt_appendByte (0xc0 OR (m_packetNumberLength h - 1)))
        (seqW (appendU32 (m_version h))
        (seqW (pkt_appendByte (word_of_nat (length (m_destinationConnectionId h))))
        (seqW (putW (m_destinationConnectionId h))
        (seqW (pkt_appendByte (word_of_nat (length (m_sourceConnectionId h))))
        (seqW (putW (m_sourceConnectionId h))
        (seqW (VarInt_encode (word_of_nat (length (m_token h))))
        (seqW (putW (m_token h))
        (seqW (VarInt_encode encodedPayloadLength)
        (seqW (appendPacketNumber h)
          (putW payload)))))))))) [])"

text \<open>
  \<open>coalesced\<close> is \<open>outConsumed != nullptr\<close>; the third component of the result is what is
  stored through it.
\<close>

definition buildHeader ::
  "SwQuicConnectionId \<Rightarrow> SwQuicConnectionId \<Rightarrow> u32 \<Rightarrow> bytes \<Rightarrow> u64 \<Rightarrow> u8 \<Rightarrow> u64 \<Rightarrow> string + SwQuicPacketHeader" where
  "buildHeader dcid scid version token payloadLength n pn =
     (let h = (makeInitial dcid scid)\<lparr>m_version := version, m_token := token, m_payloadLength := payloadLength\<rparr> in
      case setPacketNumberLength n h of Inl e \<Rightarrow> Inl e | Inr h' \<Rightarrow> setPacketNumber pn h')"

definition decodePayload ::
  "bool \<Rightarrow> u8 \<Rightarrow> u32 \<Rightarrow> SwQuicConnectionId \<Rightarrow> SwQuicConnectionId \<Rightarrow> bytes \<Rightarrow> (SwQuicPacketHeader \<times> bytes \<times> nat) reader" where
  "decodePayload coalesced firstByte version dcid scid token =
     bindR VarInt_decode (\<lambda>encodedPayloadLength.
     bindR pkt_remaining (\<lambda>remaining.
       let n = (firstByte AND 0x03) + 1 in
       if encodedPayloadLength < ucast n then failR ''QUIC payload length is shorter than packet number''
       else if encodedPayloadLength > word_of_nat remaining then failR ''QUIC payload is truncated''
       else if \<not> coalesced \<and> encodedPayloadLength \<noteq> word_of_nat remaining
       then failR ''QUIC coalesced packet decoding is not implemented''
       else
         bindR pkt_offset (\<lambda>off. let packetEnd = off + unat encodedPayloadLength in
         bindR (readPacketNumber n) (\<lambda>pn.
         let payloadLength = encodedPayloadLength - ucast n in
         bindR (pkt_readSlice (unat payloadLength)) (\<lambda>payload.
         bindR (liftSum (buildHeader dcid scid version token payloadLength n pn)) (\<lambda>h.
           returnR (h, payload, packetEnd)))))))"

definition decodeInitialPacket :: "bool \<Rightarrow> (SwQuicPacketHeader \<times> bytes \<times> nat) reader" where
  "decodeInitialPacket coalesced =
     bindR pkt_readByte (\<lambda>firstByte.
       if firstByte AND 0x80 = 0 then failR ''QUIC packet is not a long header packet''
       else if firstByte AND 0x40 = 0 then failR ''QUIC fixed bit is not set''
       else if firstByte AND 0x30 \<noteq> 0 then failR ''QUIC packet is not an Initial packet''
       else
         bindR readU32 (\<lambda>version.
         bindR pkt_readByte (\<lambda>dcidLength.
         bindR (pkt_readSlice (unat dcidLength)) (\<lambda>dcidBytes.
         bindR pkt_readByte (\<lambda>scidLength.
         bindR (pkt_readSlice (unat scidLength)) (\<lambda>scidBytes.
         bindR (liftSum (cid_fromBytes dcidBytes)) (\<lambda>dcid.
         bindR (liftSum (cid_fromBytes scidBytes)) (\<lambda>scid.
         bindR VarInt_decode (\<lambda>tokenLength.
         bindR pkt_remaining (\<lambda>remaining.
           if tokenLength > word_of_nat remaining then failR ''QUIC Initial token is truncated''
           else
             bindR (pkt_readSlice (unat tokenLength)) (\<lambda>token.
               decodePayload coalesced firstByte version dcid scid token)))))))))))"

subsection \<open>Packet numbers\<close>

definition expandPacketNumber :: "u64 \<Rightarrow> bool \<Rightarrow> u64 \<Rightarrow> u8 \<Rightarrow> u64" where
  "expandPacketNumber largestReceived hasLargestReceived truncated packetNumberLength =
     (if \<not> hasLargestReceived then truncated
      else
        let pnNbits = ucast packetNumberLength * 8 :: u64;
            expectedPn = largestReceived + 1;
            pnWin = push_bit (unat pnNbits) 1;
            pnHwin = pnWin div 2;
            pnMask = pnWin - 1;
            candidate = (expectedPn AND NOT pnMask) OR truncated
        in if candidate + pnHwin \<le> expectedPn \<and> candidate < push_bit 62 1 - pnWin then candidate + pnWin
           else if candidate > expectedPn + pnHwin \<and> candidate \<ge> pnWin then candidate - pnWin
           else candidate)"

subsection \<open>Expanding packet numbers\<close>

lemma window_candidate:
  fixes e t :: u64
  assumes "unat t < 2 ^ k" and "k \<le> 32"
  shows "unat ((e AND NOT (push_bit k 1 - 1)) OR t) = unat e div 2 ^ k * 2 ^ k + unat t"
proof -
  have m: "push_bit k (1 :: u64) - 1 = mask k" by (simp add: mask_eq_exp_minus_1 push_bit_eq_mult)
  have t: "take_bit k t = t" using assms(1) by (rule take_bit_self)
  have hi: "e AND NOT (mask k) = push_bit k (drop_bit k e)"
    by (rule bit_word_eqI) (auto simp: bit_simps)
  have u: "unat (push_bit k (drop_bit k e)) = unat e div 2 ^ k * 2 ^ k"
  proof -
    have "unat e div 2 ^ k * 2 ^ k < 2 ^ 64"
      using unsigned_less [of e, where 'a = nat] le_less_trans [OF div_times_less_eq_dividend [of "unat e" "2 ^ k"]] by simp
    moreover have "take_bit 64 (unat e) = unat e"
      using unsigned_less [of e, where 'a = nat] by (simp add: take_bit_nat_eq_self)
    ultimately show ?thesis
      unfolding unsigned_push_bit_eq unsigned_drop_bit_eq
      by (simp add: push_bit_nat_def drop_bit_nat_def take_bit_nat_eq_self)
  qed
  have "(e AND NOT (mask k)) OR t = push_bit k (drop_bit k e) + take_bit k t"
    unfolding hi t by (subst disjunctive_add) (use t in \<open>auto simp: bit_simps\<close>, metis bit_take_bit_iff not_less t)
  moreover have "unat e div 2 ^ k * 2 ^ k + unat t < 2 ^ 64"
  proof -
    have "unat e div 2 ^ k * 2 ^ k + unat t < (unat e div 2 ^ k + 1) * 2 ^ k" using assms(1) by simp
    also have "\<dots> \<le> 2 ^ 64"
    proof -
      have p: "(2 :: nat) ^ 64 = 2 ^ (64 - k) * 2 ^ k" using assms(2) by (simp flip: power_add)
      have "unat e div 2 ^ k < 2 ^ (64 - k)"
        using unsigned_less [of e, where 'a = nat] p by (intro less_mult_imp_div_less) simp
      then have "unat e div 2 ^ k + 1 \<le> 2 ^ (64 - k)" by simp
      then show ?thesis unfolding p by (rule mult_le_mono1)
    qed
    finally show ?thesis .
  qed
  ultimately show ?thesis unfolding m using t u by (simp add: unat_plus)
qed

text \<open>The arithmetic of the window, over the natural numbers.\<close>

definition nearest :: "nat \<Rightarrow> nat \<Rightarrow> nat \<Rightarrow> nat" where
  "nearest W e c = (if c + W div 2 \<le> e \<and> c < 2 ^ 62 - W then c + W
     else if c > e + W div 2 \<and> c \<ge> W then c - W else c)"

lemma nearest_window:
  assumes "even W" and "W > 0" and "W \<le> 2 ^ 32" and "e < pn + W div 2" and "pn \<le> e + W div 2" and "pn < 2 ^ 62"
  shows "nearest W e (e div W * W + pn mod W) = pn"
proof -
  let ?c = "e div W * W + pn mod W" and ?H = "W div 2"
  have W: "W = 2 * ?H" using assms(1) by simp
  have c: "?c \<le> e - e mod W + (W - 1)" "e - e mod W \<le> ?c" "e mod W < W" "e mod W \<le> e"
    using mod_less_divisor [OF assms(2), of pn] assms(2) minus_mod_eq_div_mult [of e W]
    by (linarith, linarith, simp_all)
  have cong: "?c mod W = pn mod W" by simp
  have eqI: "x = pn" if "x mod W = pn mod W" "e < x + ?H" "x \<le> e + ?H" for x
  proof (rule ccontr)
    assume "x \<noteq> pn"
    then consider "x < pn" | "pn < x" by linarith
    then show False
    proof cases
      case 1
      then have "W dvd pn - x" using that(1) mod_eq_dvd_iff_nat [of x pn W] by simp
      then have "W \<le> pn - x" using 1 by (simp add: dvd_imp_le)
      with that assms W show False by linarith
    next
      case 2
      then have "W dvd x - pn" using that(1) mod_eq_dvd_iff_nat [of pn x W] by simp
      then have "W \<le> x - pn" using 2 by (simp add: dvd_imp_le)
      with that assms W show False by linarith
    qed
  qed
  consider "?c + ?H \<le> e" | "?c > e + ?H" | "e < ?c + ?H" "?c \<le> e + ?H" by linarith
  then show ?thesis
  proof cases
    case 1
    have "?c + W = pn" using 1 c W cong by (intro eqI) (simp, linarith, linarith)
    moreover from this have "?c < 2 ^ 62 - W" using assms(6) by linarith
    ultimately show ?thesis using 1 unfolding nearest_def by simp
  next
    case 2
    have "W \<le> ?c - pn"
    proof -
      have "W dvd ?c - pn" using 2 assms(5) cong by (subst mod_eq_dvd_iff_nat [symmetric]) auto
      then show ?thesis using 2 assms(5) by (intro dvd_imp_le) auto
    qed
    moreover have "?c - W = pn"
    proof (rule eqI)
      from calculation have "W \<le> ?c" by linarith
      then show "(?c - W) mod W = pn mod W" using cong le_mod_geq [of W ?c] by metis
      show "e < ?c - W + ?H" "?c - W \<le> e + ?H" using 2 c W calculation by linarith+
    qed
    moreover from calculation have "W \<le> ?c" by linarith
    ultimately show ?thesis using 2 unfolding nearest_def by simp
  next
    case 3
    then have "?c = pn" using cong by (intro eqI)
    then show ?thesis using 3 by (simp add: nearest_def)
  qed
qed

lemma expand_nearest:
  assumes "1 \<le> n" and "n \<le> 4" and "unat t < 2 ^ (8 * unat n)" and "unat l < 2 ^ 62"
  shows "unat (expandPacketNumber l True t n) =
    nearest (2 ^ (8 * unat n)) (unat l + 1) ((unat l + 1) div 2 ^ (8 * unat n) * 2 ^ (8 * unat n) + unat t)"
proof -
  let ?k = "8 * unat n" and ?e = "l + 1"
  have n4: "unat n \<le> 4" using assms(2) by (simp add: word_le_nat_alt)
  then have k: "?k \<le> 32" by simp
  have bits: "unat (ucast n * 8 :: u64) = ?k"
    using n4 by (simp add: unat_word_ariths unsigned_ucast_eq take_bit_nat_eq_self)
  have e: "unat ?e = unat l + 1" using assms(4) by (simp add: unat_word_ariths)
  let ?c = "(?e AND NOT (push_bit ?k 1 - 1)) OR t"
  have c: "unat ?c = (unat l + 1) div 2 ^ ?k * 2 ^ ?k + unat t"
    using window_candidate [OF assms(3) k, of ?e] e by simp
  have p: "(2 :: nat) ^ ?k \<le> 2 ^ 32" using k by (rule power_increasing) simp
  have cb: "unat ?c < 2 ^ 62 + 2 ^ 33"
  proof -
    have "(unat l + 1) div 2 ^ ?k * 2 ^ ?k \<le> unat l + 1" by simp
    moreover have "(2 :: nat) ^ 62 = 4611686018427387904" "(2 :: nat) ^ 33 = 8589934592" "(2 :: nat) ^ 32 = 4294967296"
      by simp_all
    ultimately show ?thesis using c assms(3,4) p by linarith
  qed
  have win: "unat (push_bit ?k 1 :: u64) = 2 ^ ?k"
    using k power_strict_increasing [of ?k 64 "2 :: nat"]
    unfolding unsigned_push_bit_eq by (simp add: push_bit_nat_def take_bit_nat_eq_self)
  have hwin: "unat (push_bit ?k 1 div 2 :: u64) = 2 ^ ?k div 2"
    unfolding unat_div win by simp
  have lim: "unat (push_bit 62 1 - push_bit ?k 1 :: u64) = 2 ^ 62 - 2 ^ ?k"
  proof -
    have "unat (push_bit 62 1 :: u64) = 2 ^ 62" by (simp add: unsigned_push_bit_eq push_bit_eq_mult)
    with p win show ?thesis by (subst unat_minus) (simp_all add: word_le_nat_alt)
  qed
  have ph: "(2 :: nat) ^ ?k div 2 \<le> 2 ^ 32" using p by linarith
  have s: "unat (?c + push_bit ?k 1 div 2) = unat ?c + 2 ^ ?k div 2"
    "unat (?c + push_bit ?k 1) = unat ?c + 2 ^ ?k" "unat (?e + push_bit ?k 1 div 2) = unat l + 1 + 2 ^ ?k div 2"
  proof -
    have lim: "(2 :: nat) ^ 62 + 2 ^ 33 + 2 ^ 32 < 2 ^ 64" "(2 :: nat) ^ 62 + 2 ^ 32 < 2 ^ 64" by simp_all
    have b: "unat ?c + 2 ^ ?k div 2 < 2 ^ 64" "unat ?c + 2 ^ ?k < 2 ^ 64" "unat l + 1 + 2 ^ ?k div 2 < 2 ^ 64"
      using cb ph p assms(4) lim by linarith+
    show "unat (?c + push_bit ?k 1 div 2) = unat ?c + 2 ^ ?k div 2"
      using b(1) unfolding hwin [symmetric] by (rule unat_plus)
    show "unat (?c + push_bit ?k 1) = unat ?c + 2 ^ ?k"
      using b(2) unfolding win [symmetric] by (rule unat_plus)
    show "unat (?e + push_bit ?k 1 div 2) = unat l + 1 + 2 ^ ?k div 2"
      using b(3) unfolding hwin [symmetric] e [symmetric] by (rule unat_plus)
  qed
  have d: "push_bit ?k 1 \<le> ?c \<Longrightarrow> unat (?c - push_bit ?k 1) = unat ?c - 2 ^ ?k"
    unfolding win [symmetric] by (rule unat_minus)
  let ?w = "push_bit ?k 1 :: u64"
  have P: "(?c + ?w div 2 \<le> ?e \<and> ?c < push_bit 62 1 - ?w) \<longleftrightarrow>
      (unat ?c + 2 ^ ?k div 2 \<le> unat l + 1 \<and> unat ?c < 2 ^ 62 - 2 ^ ?k)"
    unfolding word_le_nat_alt word_less_nat_alt s lim e ..
  have Q: "(?c > ?e + ?w div 2 \<and> ?c \<ge> ?w) \<longleftrightarrow> (unat ?c > unat l + 1 + 2 ^ ?k div 2 \<and> unat ?c \<ge> 2 ^ ?k)"
    unfolding word_le_nat_alt word_less_nat_alt s win ..
  have "expandPacketNumber l True t n =
      (if ?c + ?w div 2 \<le> ?e \<and> ?c < push_bit 62 1 - ?w then ?c + ?w
       else if ?c > ?e + ?w div 2 \<and> ?c \<ge> ?w then ?c - ?w else ?c)"
    unfolding expandPacketNumber_def Let_def bits by (simp only: not_True_eq_False if_False)
  then show ?thesis
    unfolding c [symmetric] nearest_def P [symmetric] Q [symmetric] using s(2) d by presburger
qed

text \<open>
  C20. A truncated packet number is expanded to the number that was sent whenever that
  number is in the window around the next expected one that RFC 9000 A.3 defines:
  less than half a window behind it or at most half a window ahead.
\<close>

theorem expandPacketNumber_correct:
  fixes l pn :: u64 and n :: u8
  assumes "1 \<le> n" and "n \<le> 4" and "unat l < 2 ^ 62" and "unat pn < 2 ^ 62"
    and "unat l + 1 < unat pn + 2 ^ (8 * unat n) div 2" and "unat pn \<le> unat l + 1 + 2 ^ (8 * unat n) div 2"
  shows "expandPacketNumber l True (take_bit (8 * unat n) pn) n = pn"
proof -
  let ?W = "2 ^ (8 * unat n) :: nat"
  have n: "1 \<le> unat n" "unat n \<le> 4" using assms(1,2) by (simp_all add: word_le_nat_alt)
  have t: "unat (take_bit (8 * unat n) pn) = unat pn mod ?W"
    unfolding unsigned_take_bit_eq by (rule take_bit_nat_def)
  have W: "?W \<le> 2 ^ 32" using n by (intro power_increasing) simp_all
  have "unat (expandPacketNumber l True (take_bit (8 * unat n) pn) n) =
      nearest ?W (unat l + 1) ((unat l + 1) div ?W * ?W + unat pn mod ?W)"
    using expand_nearest [OF assms(1,2) _ assms(3), of "take_bit (8 * unat n) pn"] t by simp
  also have "\<dots> = unat pn" using n W assms(4-6) by (intro nearest_window) simp_all
  finally show ?thesis by (simp add: word_unat_eq_iff)
qed

theorem expandPacketNumber_correct_witness:
  "expandPacketNumber 0xa82f30ea True (take_bit (8 * unat (2 :: u8)) 0xa82f9b32) 2 = 0xa82f9b32"
  by (rule expandPacketNumber_correct) simp_all

subsection \<open>The packet codec\<close>

lemma appends_pkt_appendByte [appends_intros]: "appends (pkt_appendByte v) [v]"
  by (simp add: pkt_appendByte_def appends_putW)

definition u32_bytes :: "u32 \<Rightarrow> bytes" where
  "u32_bytes v = [ucast (drop_bit 24 v AND 0xff), ucast (drop_bit 16 v AND 0xff),
     ucast (drop_bit 8 v AND 0xff), ucast (v AND 0xff)]"

lemma appends_appendU32 [appends_intros]: "appends (appendU32 v) (u32_bytes v)"
  unfolding appendU32_def u32_bytes_def by (intro appends_seqW_Cons appends_pkt_appendByte)

lemma u32_join:
  "push_bit 24 (ucast (ucast (drop_bit 24 v AND 0xff) :: u8)) OR push_bit 16 (ucast (ucast (drop_bit 16 v AND 0xff) :: u8)) OR
   push_bit 8 (ucast (ucast (drop_bit 8 v AND 0xff) :: u8)) OR ucast (ucast (v AND 0xff) :: u8) = v" for v :: u32
proof -
  have ff: "(0xff :: u32) = mask 8" by (simp add: mask_eq_exp_minus_1)
  show ?thesis unfolding ff
  proof (rule bit_word_eqI)
    fix n :: nat
    consider "n < 8" | "8 \<le> n" "n < 16" | "16 \<le> n" "n < 24" | "24 \<le> n" by linarith
    then show "bit (push_bit 24 (ucast (ucast (drop_bit 24 v AND mask 8) :: u8)) OR
        push_bit 16 (ucast (ucast (drop_bit 16 v AND mask 8) :: u8)) OR
        push_bit 8 (ucast (ucast (drop_bit 8 v AND mask 8) :: u8)) OR ucast (ucast (v AND mask 8) :: u8) :: u32) n = bit v n"
      if "n < LENGTH(32)"
      using that by cases (auto simp: bit_simps)
  qed
qed

lemma reads_readU32 [reads_intros]: "reads readU32 (u32_bytes v) v"
  by (rule readsI) (simp add: readU32_def u32_bytes_def nth_append u32_join)

lemma reads_pkt_readByte [reads_intros]: "reads pkt_readByte [v] v"
  by (rule readsI) (simp add: pkt_readByte_def)

lemma reads_pkt_readSlice [reads_intros]: "n = length bs \<Longrightarrow> reads (pkt_readSlice n) bs bs"
proof (rule readsI)
  fix pre suf
  assume n: "n = length bs" and len: "length (pre @ bs @ suf) < 2 ^ 31"
  show "pkt_readSlice n (pre @ bs @ suf) (length pre) = (Inr bs, length pre + length bs)"
    using mid_append [OF len] by (simp add: pkt_readSlice_def n)
qed

lemma reads_liftSum [reads_intros]: "v = Inr x \<Longrightarrow> reads (liftSum v) [] x"
  by (simp add: liftSum_def reads_returnR)

lemma appends_packetNumber [appends_intros]:
  assumes "1 \<le> m_packetNumberLength h" and "m_packetNumberLength h \<le> 4"
  shows "appends (appendPacketNumber h) (be_bytes (unat (m_packetNumberLength h)) (m_packetNumber h))"
proof -
  have each: "appends (foldr (\<lambda>i w. seqW (pkt_appendByte (g i)) w) xs returnW) (map g xs)" for g and xs :: "nat list"
    by (induction xs) (auto intro: appends_returnW appends_seqW_Cons appends_pkt_appendByte)
  show ?thesis
    using assms each unfolding appendPacketNumber_def be_bytes_def by (auto simp: Let_def not_less)
qed

lemma reads_packetNumber [reads_intros]:
  assumes "unat n \<le> 8" and "take_bit (8 * unat n) pn = pn"
  shows "reads (readPacketNumber n) (be_bytes (unat n) pn) pn"
proof (rule readsI)
  fix pre suf :: bytes
  have "foldl (\<lambda>acc i. push_bit 8 acc OR ucast ((pre @ be_bytes (unat n) pn @ suf) ! (length pre + i))) 0 [0..<unat n] = pn"
    using decode_loop_eq [of pre "be_bytes (unat n) pn" suf 0] be_value_be_bytes [of 0 "unat n" pn] assms(2) by simp
  then show "readPacketNumber n (pre @ be_bytes (unat n) pn @ suf) (length pre) =
      (Inr pn, length pre + length (be_bytes (unat n) pn))"
    by (simp add: readPacketNumber_def)
qed

subsection \<open>What an encoded packet consists of\<close>

definition wf_packet :: "SwQuicPacketHeader \<Rightarrow> bytes \<Rightarrow> bool" where
  "wf_packet h payload \<longleftrightarrow> m_form h = LongForm \<and> m_longPacketType h = Initial \<and>
     length (m_destinationConnectionId h) \<le> kMaxLength \<and> length (m_sourceConnectionId h) \<le> kMaxLength \<and>
     1 \<le> m_packetNumberLength h \<and> m_packetNumberLength h \<le> 4 \<and>
     m_packetNumber h \<le> maxPacketNumberForLength (m_packetNumberLength h) \<and>
     length (m_token h) < 2 ^ 31 \<and> length payload < 2 ^ 31"

definition payload_bytes :: "SwQuicPacketHeader \<Rightarrow> bytes \<Rightarrow> bytes" where
  "payload_bytes h payload =
     varint_bytes (word_of_nat (length payload) + ucast (m_packetNumberLength h)) @
     be_bytes (unat (m_packetNumberLength h)) (m_packetNumber h) @ payload"

definition packet_bytes :: "SwQuicPacketHeader \<Rightarrow> bytes \<Rightarrow> bytes" where
  "packet_bytes h payload =
     [0xc0 OR (m_packetNumberLength h - 1)] @ u32_bytes (m_version h) @
     [word_of_nat (length (m_destinationConnectionId h))] @ m_destinationConnectionId h @
     [word_of_nat (length (m_sourceConnectionId h))] @ m_sourceConnectionId h @
     varint_bytes (word_of_nat (length (m_token h))) @ m_token h @ payload_bytes h payload"

lemma maxPacketNumber_take_bit:
  assumes "n \<le> 4" and "pn \<le> maxPacketNumberForLength n"
  shows "take_bit (8 * unat n) pn = pn"
proof (rule take_bit_self)
  have n4: "unat n \<le> 4" using assms(1) by (simp add: word_le_nat_alt)
  have w: "unat (push_bit (unat n * 8) 1 :: u64) = 2 ^ (8 * unat n)"
    using n4 power_strict_increasing [of "8 * unat n" 64 "2 :: nat"]
    unfolding unsigned_push_bit_eq by (simp add: push_bit_nat_def take_bit_nat_eq_self mult.commute)
  then have "unat (push_bit (unat n * 8) 1 - 1 :: u64) = 2 ^ (8 * unat n) - 1"
    by (subst unat_minus) (simp_all add: word_le_nat_alt del: push_bit_of_1)
  moreover have "maxPacketNumberForLength n = push_bit (unat n * 8) 1 - 1"
    using n4 by (simp add: maxPacketNumberForLength_def word_le_nat_alt)
  ultimately have "unat pn \<le> 2 ^ (8 * unat n) - 1" using assms(2) by (simp add: word_le_nat_alt)
  then show "unat pn < 2 ^ (8 * unat n)" by (rule le_less_trans) simp
qed

lemma payload_length_word:
  assumes "wf_packet h payload"
  shows "word_of_nat (length payload) + ucast (m_packetNumberLength h) =
      (word_of_nat (length payload + unat (m_packetNumberLength h)) :: u64)"
    and "length payload + unat (m_packetNumberLength h) < 2 ^ 32"
proof -
  have "unat (m_packetNumberLength h) \<le> 4" using assms by (simp add: wf_packet_def word_le_nat_alt)
  then show "length payload + unat (m_packetNumberLength h) < 2 ^ 32" using assms by (simp add: wf_packet_def)
  have "(ucast (m_packetNumberLength h) :: u64) = word_of_nat (unat (m_packetNumberLength h))" by simp
  then show "word_of_nat (length payload) + ucast (m_packetNumberLength h) =
      (word_of_nat (length payload + unat (m_packetNumberLength h)) :: u64)" by simp
qed

lemma encodeInitialPacket_eq:
  assumes "wf_packet h payload"
  shows "encodeInitialPacket h payload out = (packet_bytes h payload, None)"
proof -
  have n: "1 \<le> m_packetNumberLength h" "m_packetNumberLength h \<le> 4" using assms by (simp_all add: wf_packet_def)
  then have n4: "unat (m_packetNumberLength h) \<le> 4" by (simp add: word_le_nat_alt)
  have tok: "(word_of_nat (length (m_token h)) :: u64) \<le> maxValue" 
    using assms by (intro small_le_max) (simp add: wf_packet_def)
  have pl: "word_of_nat (length payload) + ucast (m_packetNumberLength h) \<le> maxValue"
    unfolding payload_length_word(1) [OF assms] by (rule small_le_max) (rule payload_length_word(2) [OF assms])
  have "length payload \<le> size_max - unat (m_packetNumberLength h)"
  proof -
    have "length payload < 2147483648" using assms by (simp add: wf_packet_def)
    with n4 show ?thesis by (simp add: size_max_def)
  qed
  then show ?thesis
    using assms appendsD [of _ "packet_bytes h payload" "[]"] n tok pl
    unfolding encodeInitialPacket_def Let_def packet_bytes_def payload_bytes_def
    by (auto simp: wf_packet_def kMaxLength_def not_less
        intro!: appendsD [of _ _ "[]", simplified] appends_seqW appends_seqW_Cons appends_putW appends_pkt_appendByte
          appends_appendU32 appends_VarInt appends_packetNumber)
qed

definition decoded :: "SwQuicPacketHeader \<Rightarrow> bytes \<Rightarrow> SwQuicPacketHeader" where
  "decoded h payload = h\<lparr>m_payloadLength := word_of_nat (length payload)\<rparr>"

lemma buildHeader_ok:
  assumes "wf_packet h payload"
  shows "buildHeader (m_destinationConnectionId h) (m_sourceConnectionId h) (m_version h) (m_token h)
    (word_of_nat (length payload)) (m_packetNumberLength h) (m_packetNumber h) = Inr (decoded h payload)"
  using assms
  by (auto simp: buildHeader_def setPacketNumberLength_def setPacketNumber_def makeInitial_def newHeader_def
      wf_packet_def decoded_def not_less Let_def)

lemma length_bits:
  assumes "1 \<le> n" and "n \<le> 4"
  shows "((0xc0 OR (n - 1)) AND 0x03) + 1 = (n :: u8)" and "(0xc0 OR (n - 1)) AND 0x80 \<noteq> 0"
    and "(0xc0 OR (n - 1)) AND 0x40 \<noteq> 0" and "(0xc0 OR (n - 1)) AND 0x30 = 0"
proof -
  have "unat n \<in> {1, 2, 3, 4}" using assms by (auto simp: word_le_nat_alt)
  then have "n = 1 \<or> n = 2 \<or> n = 3 \<or> n = 4" by (auto simp: word_unat_eq_iff)
  then show "((0xc0 OR (n - 1)) AND 0x03) + 1 = n" "(0xc0 OR (n - 1)) AND 0x80 \<noteq> 0"
    "(0xc0 OR (n - 1)) AND 0x40 \<noteq> 0" "(0xc0 OR (n - 1)) AND 0x30 = 0" by auto
qed

lemma reads_at_remaining: "reads_at pkt_remaining pre [] suf (length suf)"
  by (simp add: reads_at_def pkt_remaining_def)

lemma reads_at_offset: "reads_at pkt_offset pre [] suf (length pre)"
  by (simp add: reads_at_def pkt_offset_def)

lemma reads_at_small:
  assumes "length (pre @ bs @ suf) < 2 ^ 31 \<Longrightarrow> reads_at r pre bs suf x"
  shows "reads_at r pre bs suf x"
  using assms by (auto simp: reads_at_def)

lemma header_reads:
  assumes "wf_packet h payload"
  shows "reads (bindR (pkt_readSlice (length payload)) (\<lambda>pl.
     bindR (liftSum (buildHeader (m_destinationConnectionId h) (m_sourceConnectionId h) (m_version h) (m_token h)
       (word_of_nat (length payload)) (m_packetNumberLength h) (m_packetNumber h))) (\<lambda>h'. returnR (h', pl, e))))
    payload (decoded h payload, payload, e)"
proof -
  have "reads (bindR (pkt_readSlice (length payload)) (\<lambda>pl.
     bindR (liftSum (buildHeader (m_destinationConnectionId h) (m_sourceConnectionId h) (m_version h) (m_token h)
       (word_of_nat (length payload)) (m_packetNumberLength h) (m_packetNumber h))) (\<lambda>h'. returnR (h', pl, e))))
    (payload @ [] @ []) (decoded h payload, payload, e)"
    by (rule reads_bindR, rule reads_pkt_readSlice [OF refl], rule reads_bindR,
        rule reads_liftSum [OF buildHeader_ok [OF assms]], rule reads_returnR)
  then show ?thesis by simp
qed

lemma decodePayload_reads:
  assumes wf: "wf_packet h payload" and c: "c \<or> suf = []"
  shows "reads_at (decodePayload c (0xc0 OR (m_packetNumberLength h - 1)) (m_version h)
      (m_destinationConnectionId h) (m_sourceConnectionId h) (m_token h))
    pre (payload_bytes h payload) suf
    (decoded h payload, payload, length (pre @ payload_bytes h payload))"
proof (rule reads_at_small)
  assume len: "length (pre @ payload_bytes h payload @ suf) < 2 ^ 31"
  let ?n = "m_packetNumberLength h" and ?L = "word_of_nat (length payload) + ucast (m_packetNumberLength h) :: u64"
  let ?pn = "be_bytes (unat ?n) (m_packetNumber h)"
  have n: "1 \<le> ?n" "?n \<le> 4" using wf by (simp_all add: wf_packet_def)
  then have n4: "unat ?n \<le> 4" by (simp add: word_le_nat_alt)
  note L = payload_length_word [OF wf]
  have uL: "unat ?L = length payload + unat ?n"
    unfolding L(1) using L(2) by (simp add: unsigned_of_nat take_bit_nat_eq_self del: of_nat_add)
  have un: "unat (ucast ?n :: u64) = unat ?n" using n4 by (simp add: unsigned_ucast_eq take_bit_nat_eq_self)
  have rem: "unat (word_of_nat (length ((?pn @ payload) @ suf)) :: u64) = unat ?n + length payload + length suf"
    using len by (simp add: unsigned_of_nat take_bit_nat_eq_self payload_bytes_def del: of_nat_add)
  have tests: "\<not> ?L < ucast ?n" "\<not> ?L > word_of_nat (length ((?pn @ payload) @ suf))"
    "\<not> (\<not> c \<and> ?L \<noteq> word_of_nat (length ((?pn @ payload) @ suf)))"
    using c unfolding word_nat uL un rem by auto
  have pay: "?L - ucast ?n = word_of_nat (length payload)" by simp
  have up: "unat (word_of_nat (length payload) :: u64) = length payload"
    using L(2) by (simp add: unsigned_of_nat take_bit_nat_eq_self)
  have max: "?L \<le> maxValue" unfolding L(1) by (rule small_le_max [OF L(2)])
  have pe: "length (pre @ varint_bytes ?L) + unat ?L = length (pre @ payload_bytes h payload)"
    by (simp add: payload_bytes_def uL)
  have inner: "reads_at (bindR (readPacketNumber ?n) (\<lambda>pn.
         bindR (pkt_readSlice (unat (?L - ucast ?n))) (\<lambda>pl.
         bindR (liftSum (buildHeader (m_destinationConnectionId h) (m_sourceConnectionId h) (m_version h) (m_token h) (?L - ucast ?n) ?n pn))
         (\<lambda>h'. returnR (h', pl, length (pre @ varint_bytes ?L) + unat ?L)))))
       (pre @ varint_bytes ?L) (?pn @ payload) suf (decoded h payload, payload, length (pre @ payload_bytes h payload))"
    unfolding pe pay up
    using wf n4 maxPacketNumber_take_bit [OF n(2), of "m_packetNumber h"]
    by (intro reads_at_step [OF reads_packetNumber] reads_at_reads header_reads) (auto simp: wf_packet_def)
  show "reads_at (decodePayload c (0xc0 OR (?n - 1)) (m_version h)
      (m_destinationConnectionId h) (m_sourceConnectionId h) (m_token h))
    pre (payload_bytes h payload) suf (decoded h payload, payload, length (pre @ payload_bytes h payload))"
    unfolding decodePayload_def payload_bytes_def [of h payload] Let_def length_bits(1) [OF n]
    by (rule reads_at_step [OF reads_VarInt [OF max]], rule reads_at_here [OF reads_at_remaining])
      (simp only: tests if_False, rule reads_at_here [OF reads_at_offset],
       rule inner [unfolded payload_bytes_def])
qed

lemma decodeInitialPacket_reads:
  assumes wf: "wf_packet h payload" and c: "c \<or> suf = []"
  shows "reads_at (decodeInitialPacket c) pre (packet_bytes h payload) suf
    (decoded h payload, payload, length (pre @ packet_bytes h payload))"
proof (rule reads_at_small)
  assume len: "length (pre @ packet_bytes h payload @ suf) < 2 ^ 31"
  let ?n = "m_packetNumberLength h" and ?d = "m_destinationConnectionId h" and ?s = "m_sourceConnectionId h"
    and ?t = "m_token h"
  have n: "1 \<le> ?n" "?n \<le> 4" and cid: "length ?d \<le> 20" "length ?s \<le> 20" and tl: "length ?t < 2 ^ 31"
    using wf by (simp_all add: wf_packet_def kMaxLength_def)
  have ids: "reads (liftSum (cid_fromBytes ?d)) [] ?d" "reads (liftSum (cid_fromBytes ?s)) [] ?s"
    using cid by (auto intro!: reads_liftSum simp: cid_fromBytes_def cid_setBytes_def kMaxLength_def)
  have ul: "unat (word_of_nat (length ?d) :: u8) = length ?d" "unat (word_of_nat (length ?s) :: u8) = length ?s"
    "unat (word_of_nat (length ?t) :: u64) = length ?t"
    using cid tl by (simp_all add: unsigned_of_nat take_bit_nat_eq_self)
  have tm: "(word_of_nat (length ?t) :: u64) \<le> maxValue" using tl by (intro small_le_max) simp
  have tok: "\<not> (word_of_nat (length ?t) :: u64) > word_of_nat (length ((?t @ payload_bytes h payload) @ suf))"
  proof -
    have "unat (word_of_nat (length ((?t @ payload_bytes h payload) @ suf)) :: u64) =
        length ((?t @ payload_bytes h payload) @ suf)"
      using len unfolding packet_bytes_def by (simp add: unsigned_of_nat take_bit_nat_eq_self del: of_nat_add)
    then show ?thesis unfolding word_nat ul by simp
  qed
  show "reads_at (decodeInitialPacket c) pre (packet_bytes h payload) suf
    (decoded h payload, payload, length (pre @ packet_bytes h payload))"
    using decodePayload_reads [OF wf c, where pre = "pre @ [0xc0 OR (?n - 1)] @ u32_bytes (m_version h) @
      [word_of_nat (length ?d)] @ ?d @ [word_of_nat (length ?s)] @ ?s @ varint_bytes (word_of_nat (length ?t)) @ ?t"]
    unfolding decodeInitialPacket_def packet_bytes_def append_assoc
    apply -
    apply (rule reads_at_step [OF reads_pkt_readByte])
    apply (simp only: length_bits(2-4) [OF n] if_False simp_thms)
    apply (rule reads_at_step [OF reads_readU32], rule reads_at_step [OF reads_pkt_readByte])
    apply (rule reads_at_step [OF reads_pkt_readSlice], rule ul)
    apply (rule reads_at_step [OF reads_pkt_readByte])
    apply (rule reads_at_step [OF reads_pkt_readSlice], rule ul)
    apply (rule reads_at_here [OF reads_at_reads [OF ids(1)]], rule reads_at_here [OF reads_at_reads [OF ids(2)]])
    apply (rule reads_at_step [OF reads_VarInt [OF tm]], rule reads_at_here [OF reads_at_remaining])
    apply (simp only: tok if_False)
    apply (rule reads_at_step [OF reads_pkt_readSlice], rule ul)
    apply (simp only: append_assoc)
    done
qed

text \<open>
  C21. A well-formed Initial packet is encoded, and decoding gives back its header and its
  payload, whether it is alone in its datagram or followed by coalesced packets; the
  number of bytes it occupies is reported so that decoding can go on behind it.
\<close>

theorem decode_encode_InitialPacket:
  assumes "wf_packet h payload"
  shows "\<exists>bs. encodeInitialPacket h payload out = (bs, None) \<and>
    (length (pre @ bs @ rest) < 2 ^ 31 \<longrightarrow>
      decodeInitialPacket True (pre @ bs @ rest) (length pre) =
        (Inr (h\<lparr>m_payloadLength := word_of_nat (length payload)\<rparr>, payload, length (pre @ bs)), length (pre @ bs)) \<and>
      decodeInitialPacket False bs 0 =
        (Inr (h\<lparr>m_payloadLength := word_of_nat (length payload)\<rparr>, payload, length bs), length bs))"
proof (intro exI conjI impI)
  let ?bs = "packet_bytes h payload"
  show "encodeInitialPacket h payload out = (?bs, None)" by (rule encodeInitialPacket_eq [OF assms])
  assume len: "length (pre @ ?bs @ rest) < 2 ^ 31"
  then show "decodeInitialPacket True (pre @ ?bs @ rest) (length pre) =
      (Inr (h\<lparr>m_payloadLength := word_of_nat (length payload)\<rparr>, payload, length (pre @ ?bs)), length (pre @ ?bs))"
    using decodeInitialPacket_reads [OF assms, of True rest pre] by (simp add: reads_at_def decoded_def)
  show "decodeInitialPacket False ?bs 0 =
      (Inr (h\<lparr>m_payloadLength := word_of_nat (length payload)\<rparr>, payload, length ?bs), length ?bs)"
    using len decodeInitialPacket_reads [OF assms, of False "[]" "[]"] by (simp add: reads_at_def decoded_def)
qed

definition example_header :: SwQuicPacketHeader where
  "example_header = (makeInitial [1, 2, 3] [4])\<lparr>m_packetNumberLength := 2, m_packetNumber := 0x1234\<rparr>"

lemma example_header_wf: "wf_packet example_header [9, 9]"
  by (simp add: wf_packet_def example_header_def makeInitial_def newHeader_def kMaxLength_def maxPacketNumberForLength_def)

theorem decode_encode_InitialPacket_witness:
  "\<exists>bs. encodeInitialPacket example_header [9, 9] [] = (bs, None) \<and>
    (length ([] @ bs @ [7]) < 2 ^ 31 \<longrightarrow>
      decodeInitialPacket True ([] @ bs @ [7]) (length ([] :: bytes)) =
        (Inr (example_header\<lparr>m_payloadLength := word_of_nat (length [9, 9 :: u8])\<rparr>, [9, 9], length ([] @ bs)), length ([] @ bs)) \<and>
      decodeInitialPacket False bs 0 =
        (Inr (example_header\<lparr>m_payloadLength := word_of_nat (length [9, 9 :: u8])\<rparr>, [9, 9], length bs), length bs))"
proof -
  note example_header_wf
  then show ?thesis by (rule decode_encode_InitialPacket)
qed

subsection \<open>Packets from the network\<close>

lemma pkt_readSlice_Inr:
  assumes "pkt_readSlice len buf off = (Inr x, off')" and "off \<le> length buf" and "length buf < 2 ^ 31"
  shows "off' = off + len" and "off' \<le> length buf" and "length x = len"
proof -
  have le: "off + len \<le> length buf" and "x = mid buf (to_int off) (to_int len)" and o: "off' = off + len"
    using assms by (auto simp: pkt_readSlice_def split: if_splits)
  then show "length x = len" using mid_cast [OF le assms(3)] by simp
  show "off' = off + len" "off' \<le> length buf" using le o by simp_all
qed

lemma pkt_readByte_Inr: "pkt_readByte buf off = (Inr x, off') \<longleftrightarrow> off < length buf \<and> off' = off + 1 \<and> x = buf ! off"
  by (auto simp: pkt_readByte_def)

lemma readU32_Inr: "readU32 buf off = (Inr x, off') \<Longrightarrow> off \<le> length buf \<Longrightarrow> off' = off + 4 \<and> off' \<le> length buf"
  by (auto simp: readU32_def split: if_splits)

lemma liftSum_Inr: "liftSum v buf off = (Inr x, off') \<longleftrightarrow> v = Inr x \<and> off' = off"
  by (auto simp: liftSum_def failR_def returnR_def split: sum.splits)

lemma one_le_u8: "n \<noteq> 0 \<Longrightarrow> 1 \<le> n" for n :: u8
  by (simp add: word_le_nat_alt Suc_le_eq unat_gt_0)

lemma buildHeader_Inr:
  assumes "buildHeader dcid scid version token payloadLength n pn = Inr h"
  shows "h = newHeader\<lparr>m_destinationConnectionId := dcid, m_sourceConnectionId := scid, m_version := version, m_token := token,
      m_payloadLength := payloadLength, m_packetNumberLength := n, m_packetNumber := pn\<rparr>"
    and "1 \<le> n" and "n \<le> 4" and "pn \<le> maxPacketNumberForLength n"
  using assms
  by (auto simp: buildHeader_def setPacketNumberLength_def setPacketNumber_def makeInitial_def newHeader_def
      not_less Let_def one_le_u8 split: if_splits sum.splits)

lemma decodePayload_Inr:
  assumes "decodePayload c fb v d s t buf off = (Inr (h, p, e), off')" and "off \<le> length buf" and "length buf < 2 ^ 31"
    and "length d \<le> kMaxLength" and "length s \<le> kMaxLength" and "length t < 2 ^ 31"
  shows "off \<le> off'" and "off' = e" and "e \<le> length buf" and "\<not> c \<Longrightarrow> e = length buf" and "wf_packet h p"
    and "unat (m_payloadLength h) = length p"
proof -
  let ?n = "(fb AND 0x03) + 1"
  obtain L o1 where L: "VarInt_decode buf off = (Inr L, o1)" and
    tests: "\<not> L < ucast ?n" "\<not> L > word_of_nat (size_sub (length buf) o1)"
      "c \<or> L = word_of_nat (size_sub (length buf) o1)" and e: "e = o1 + unat L" and
    rest: "bindR (readPacketNumber ?n) (\<lambda>pn. bindR (pkt_readSlice (unat (L - ucast ?n))) (\<lambda>payload.
       bindR (liftSum (buildHeader d s v t (L - ucast ?n) ?n pn)) (\<lambda>h. returnR (h, payload, o1 + unat L)))) buf o1 =
       (Inr (h, p, e), off')"
    using assms(1)
    by (auto simp: decodePayload_def bindR_Inr_iff pkt_remaining_def pkt_offset_def failR_def returnR_def Let_def
        split: if_splits)
  obtain pn o2 where pn: "readPacketNumber ?n buf o1 = (Inr pn, o2)" and
    sl: "pkt_readSlice (unat (L - ucast ?n)) buf o2 = (Inr p, off')" and
    bh: "buildHeader d s v t (L - ucast ?n) ?n pn = Inr h"
    using rest by (auto simp: bindR_Inr_iff liftSum_Inr returnR_def)
  have o1: "off < o1" "o1 \<le> length buf" using consumingD [OF consuming_VarInt assms(2) L] by simp_all
  have un: "unat (ucast ?n :: u64) = unat ?n"
    using unsigned_less [of ?n, where 'a = nat] by (simp only: unsigned_ucast_eq) (simp add: take_bit_nat_eq_self)
  have rem: "unat (word_of_nat (size_sub (length buf) o1) :: u64) = length buf - o1"
    using o1 assms(3) by (simp add: unsigned_of_nat take_bit_nat_eq_self del: of_nat_diff)
  have uL: "unat ?n \<le> unat L" "unat L \<le> length buf - o1" "c \<or> unat L = length buf - o1"
    using tests(1,2) un rem by (simp_all add: word_nat not_less) (use tests(3) rem in auto)
  have o2: "o2 = o1 + unat ?n" "o2 \<le> length buf"
    using pn uL o1 by (auto simp: readPacketNumber_def split: if_splits)
  have sub: "unat (L - ucast ?n) = unat L - unat ?n" using tests(1) un by (subst unat_minus) simp_all
  note S = pkt_readSlice_Inr [OF sl o2(2) assms(3)]
  show "off \<le> off'" "off' = e" "e \<le> length buf" "\<not> c \<Longrightarrow> e = length buf"
    using S o2 e o1 uL sub by auto
  show "unat (m_payloadLength h) = length p" using buildHeader_Inr(1) [OF bh] S(3) by simp
  have "length p < 2 ^ 31" using S(3) sub uL assms(3) by simp
  then show "wf_packet h p"
    using buildHeader_Inr [OF bh] assms(4-6) by (simp add: wf_packet_def newHeader_def)
qed

text \<open>
  C22. Whatever arrives, a packet that decodes lies inside the datagram, its connection ids,
  packet number and lengths are well formed, and when no coalesced packets are expected
  it is the whole datagram.
\<close>

theorem decodeInitialPacket_sound:
  assumes "decodeInitialPacket c buf off = (Inr (h, p, e), off')" and "off \<le> length buf" and "length buf < 2 ^ 31"
  shows "off < off' \<and> off' = e \<and> e \<le> length buf \<and> (\<not> c \<longrightarrow> e = length buf) \<and> wf_packet h p \<and>
    unat (m_payloadLength h) = length p"
proof -
  obtain fb o1 v o2 dl o3 d o4 sl o5 s o6 tl o7 t o8 where
    1: "pkt_readByte buf off = (Inr fb, o1)" "readU32 buf o1 = (Inr v, o2)" "pkt_readByte buf o2 = (Inr dl, o3)"
    "pkt_readSlice (unat dl) buf o3 = (Inr d, o4)" "pkt_readByte buf o4 = (Inr sl, o5)"
    "pkt_readSlice (unat sl) buf o5 = (Inr s, o6)" and
    2: "cid_fromBytes d = Inr d" "cid_fromBytes s = Inr s" and
    3: "VarInt_decode buf o6 = (Inr tl, o7)" "pkt_readSlice (unat tl) buf o7 = (Inr t, o8)"
    "decodePayload c fb v d s t buf o8 = (Inr (h, p, e), off')"
    using assms(1)
    by (auto simp: decodeInitialPacket_def bindR_Inr_iff liftSum_Inr pkt_remaining_def failR_def cid_fromBytes_def
        cid_setBytes_def split: if_splits)
  have o3: "o3 \<le> length buf" "off < o3" using 1(1,3) readU32_Inr [OF 1(2)] by (auto simp: pkt_readByte_Inr)
  note r4 = pkt_readSlice_Inr [OF 1(4) o3(1) assms(3)]
  have o5: "o5 \<le> length buf" "o4 \<le> o5" using 1(5) by (auto simp: pkt_readByte_Inr)
  note r6 = pkt_readSlice_Inr [OF 1(6) o5(1) assms(3)]
  have o7: "o7 \<le> length buf" "o6 \<le> o7" using consumingD [OF consuming_VarInt r6(2) 3(1)] by simp_all
  note r8 = pkt_readSlice_Inr [OF 3(2) o7(1) assms(3)]
  have len: "length d \<le> kMaxLength" "length s \<le> kMaxLength" "length t < 2 ^ 31"
    using 2 r8 assms(3) by (auto simp: cid_fromBytes_def cid_setBytes_def split: if_splits)
  show ?thesis
    using decodePayload_Inr [OF 3(3) r8(2) assms(3) len] r8 o7 r6 o5 r4 o3 by auto
qed

theorem decodeInitialPacket_sound_witness:
  "\<exists>h p. decodeInitialPacket True (fst (encodeInitialPacket example_header [9, 9] []) @ [7]) 0 = (Inr (h, p, 17), 17) \<and>
     wf_packet h p \<and> unat (m_payloadLength h) = length p"
proof -
  let ?b = "fst (encodeInitialPacket example_header [9, 9] []) @ [7]"
  have b: "fst (encodeInitialPacket example_header [9, 9] []) = packet_bytes example_header [9, 9]"
    by (simp add: encodeInitialPacket_eq [OF example_header_wf])
  have "length (packet_bytes example_header [9, 9]) = 17"
    by (simp add: packet_bytes_def payload_bytes_def u32_bytes_def example_header_def makeInitial_def newHeader_def
        varint_bytes_length VarInt_encodedSize_def maxValue_def)
  then have "decodeInitialPacket True ?b 0 = (Inr (example_header\<lparr>m_payloadLength := 2\<rparr>, [9, 9], 17), 17)"
    and "length ?b < 2 ^ 31"
    using decodeInitialPacket_reads [OF example_header_wf, of True "[7]" "[]"] by (simp_all add: b reads_at_def decoded_def)
  then show ?thesis using decodeInitialPacket_sound by blast
qed

end
