(* ===== verification/Quic_TransportParameters.thy ===== *)
theory Quic_TransportParameters
  imports Quic_VarInt Sw_ByteArray
begin

text \<open>
  \<open>SwQuicTransportParameters\<close> (\<open>src/core/io/quic/SwQuicTransportParameters.h\<close>): the parameters
  an endpoint announces in the TLS handshake, as a sequence of id, length and value. The
  theory shows that decoding inverts encoding for every admissible set of parameters, that
  the order of the entries and unknown ids do not matter, and which limits whatever is decoded
  respects; two limits of RFC 9000 that the decoder does not check are shown by example.
\<close>

record SwQuicTransportParameters =
  maxIdleTimeoutMs :: u64
  maxUdpPayloadSize :: u64
  initialMaxData :: u64
  initialMaxStreamDataBidiLocal :: u64
  initialMaxStreamDataBidiRemote :: u64
  initialMaxStreamDataUni :: u64
  initialMaxStreamsBidi :: u64
  initialMaxStreamsUni :: u64
  ackDelayExponent :: u64
  maxAckDelayMs :: u64
  disableActiveMigration :: bool
  activeConnectionIdLimit :: u64
  maxDatagramFrameSize :: u64
  resetStreamAtFlag :: bool
  originalDestinationConnectionId :: bytes
  statelessResetTokenValue :: bytes
  initialSourceConnectionId :: bytes
  retrySourceConnectionId :: bytes
  hasOriginalDestinationConnectionId :: bool
  hasStatelessResetToken :: bool
  hasInitialSourceConnectionId :: bool
  hasRetrySourceConnectionId :: bool

definition idOriginalDestinationConnectionId :: u64 where "idOriginalDestinationConnectionId = 0x00"
definition idMaxIdleTimeout :: u64 where "idMaxIdleTimeout = 0x01"
definition idStatelessResetToken :: u64 where "idStatelessResetToken = 0x02"
definition idMaxUdpPayloadSize :: u64 where "idMaxUdpPayloadSize = 0x03"
definition idInitialMaxData :: u64 where "idInitialMaxData = 0x04"
definition idInitialMaxStreamDataBidiLocal :: u64 where "idInitialMaxStreamDataBidiLocal = 0x05"
definition idInitialMaxStreamDataBidiRemote :: u64 where "idInitialMaxStreamDataBidiRemote = 0x06"
definition idInitialMaxStreamDataUni :: u64 where "idInitialMaxStreamDataUni = 0x07"
definition idInitialMaxStreamsBidi :: u64 where "idInitialMaxStreamsBidi = 0x08"
definition idInitialMaxStreamsUni :: u64 where "idInitialMaxStreamsUni = 0x09"
definition idAckDelayExponent :: u64 where "idAckDelayExponent = 0x0a"
definition idMaxAckDelay :: u64 where "idMaxAckDelay = 0x0b"
definition idDisableActiveMigration :: u64 where "idDisableActiveMigration = 0x0c"
definition idActiveConnectionIdLimit :: u64 where "idActiveConnectionIdLimit = 0x0e"
definition idInitialSourceConnectionId :: u64 where "idInitialSourceConnectionId = 0x0f"
definition idRetrySourceConnectionId :: u64 where "idRetrySourceConnectionId = 0x10"
definition idResetStreamAt :: u64 where "idResetStreamAt = 0x1d"
definition idMaxDatagramFrameSize :: u64 where "idMaxDatagramFrameSize = 0x20"

lemmas param_ids = idOriginalDestinationConnectionId_def idMaxIdleTimeout_def idStatelessResetToken_def
  idMaxUdpPayloadSize_def idInitialMaxData_def idInitialMaxStreamDataBidiLocal_def
  idInitialMaxStreamDataBidiRemote_def idInitialMaxStreamDataUni_def idInitialMaxStreamsBidi_def
  idInitialMaxStreamsUni_def idAckDelayExponent_def idMaxAckDelay_def idDisableActiveMigration_def
  idActiveConnectionIdLimit_def idInitialSourceConnectionId_def idRetrySourceConnectionId_def
  idResetStreamAt_def idMaxDatagramFrameSize_def

definition newTransportParameters :: SwQuicTransportParameters where
  "newTransportParameters =
     \<lparr>maxIdleTimeoutMs = 0, maxUdpPayloadSize = 65527, initialMaxData = 0,
      initialMaxStreamDataBidiLocal = 0, initialMaxStreamDataBidiRemote = 0, initialMaxStreamDataUni = 0,
      initialMaxStreamsBidi = 0, initialMaxStreamsUni = 0, ackDelayExponent = 3, maxAckDelayMs = 25,
      disableActiveMigration = False, activeConnectionIdLimit = 2, maxDatagramFrameSize = 0,
      resetStreamAtFlag = False,
      originalDestinationConnectionId = [], statelessResetTokenValue = [], initialSourceConnectionId = [],
      retrySourceConnectionId = [], hasOriginalDestinationConnectionId = False, hasStatelessResetToken = False,
      hasInitialSourceConnectionId = False, hasRetrySourceConnectionId = False\<rparr>"

subsection \<open>Encoding\<close>

definition appendBytesParam :: "u64 \<Rightarrow> bytes \<Rightarrow> writer" where
  "appendBytesParam pid v =
     seqW (VarInt_encode pid) (seqW (VarInt_encode (word_of_nat (length v))) (putW v))"

definition appendVarIntParam :: "u64 \<Rightarrow> u64 \<Rightarrow> writer" where
  "appendVarIntParam pid v out =
     (case VarInt_encode v [] of
        (_, Some e) \<Rightarrow> (out, Some e)
      | (encodedValue, None) \<Rightarrow> appendBytesParam pid encodedValue out)"

definition appendEmptyParam :: "u64 \<Rightarrow> writer" where
  "appendEmptyParam pid = appendBytesParam pid []"

definition whenW :: "bool \<Rightarrow> writer \<Rightarrow> writer" where
  "whenW c w = (if c then w else returnW)"

definition params_encode :: "SwQuicTransportParameters \<Rightarrow> writer" where
  "params_encode p out =
     (seqW (whenW (hasOriginalDestinationConnectionId p) (appendBytesParam idOriginalDestinationConnectionId (originalDestinationConnectionId p)))
     (seqW (whenW (maxIdleTimeoutMs p \<noteq> 0) (appendVarIntParam idMaxIdleTimeout (maxIdleTimeoutMs p)))
     (seqW (whenW (hasStatelessResetToken p) (appendBytesParam idStatelessResetToken (statelessResetTokenValue p)))
     (seqW (whenW (maxUdpPayloadSize p \<noteq> 65527) (appendVarIntParam idMaxUdpPayloadSize (maxUdpPayloadSize p)))
     (seqW (whenW (initialMaxData p \<noteq> 0) (appendVarIntParam idInitialMaxData (initialMaxData p)))
     (seqW (whenW (initialMaxStreamDataBidiLocal p \<noteq> 0) (appendVarIntParam idInitialMaxStreamDataBidiLocal (initialMaxStreamDataBidiLocal p)))
     (seqW (whenW (initialMaxStreamDataBidiRemote p \<noteq> 0) (appendVarIntParam idInitialMaxStreamDataBidiRemote (initialMaxStreamDataBidiRemote p)))
     (seqW (whenW (initialMaxStreamDataUni p \<noteq> 0) (appendVarIntParam idInitialMaxStreamDataUni (initialMaxStreamDataUni p)))
     (seqW (whenW (initialMaxStreamsBidi p \<noteq> 0) (appendVarIntParam idInitialMaxStreamsBidi (initialMaxStreamsBidi p)))
     (seqW (whenW (initialMaxStreamsUni p \<noteq> 0) (appendVarIntParam idInitialMaxStreamsUni (initialMaxStreamsUni p)))
     (seqW (whenW (ackDelayExponent p \<noteq> 3) (appendVarIntParam idAckDelayExponent (ackDelayExponent p)))
     (seqW (whenW (maxAckDelayMs p \<noteq> 25) (appendVarIntParam idMaxAckDelay (maxAckDelayMs p)))
     (seqW (whenW (disableActiveMigration p) (appendEmptyParam idDisableActiveMigration))
     (seqW (whenW (activeConnectionIdLimit p \<noteq> 2) (appendVarIntParam idActiveConnectionIdLimit (activeConnectionIdLimit p)))
     (seqW (whenW (hasInitialSourceConnectionId p) (appendBytesParam idInitialSourceConnectionId (initialSourceConnectionId p)))
     (seqW (whenW (hasRetrySourceConnectionId p) (appendBytesParam idRetrySourceConnectionId (retrySourceConnectionId p)))
     (seqW (whenW (resetStreamAtFlag p) (appendEmptyParam idResetStreamAt))
           (whenW (maxDatagramFrameSize p \<noteq> 0) (appendVarIntParam idMaxDatagramFrameSize (maxDatagramFrameSize p)))))))))))))))))))) []"

subsection \<open>Decoding\<close>

text \<open>\<open>*varIntTarget_(id) = decoded\<close>; \<open>None\<close> stands for the null pointer.\<close>

definition varIntTarget :: "u64 \<Rightarrow> (u64 \<Rightarrow> SwQuicTransportParameters \<Rightarrow> SwQuicTransportParameters) option" where
  "varIntTarget pid =
     (if pid = idMaxIdleTimeout then Some (\<lambda>v p. p\<lparr>maxIdleTimeoutMs := v\<rparr>)
      else if pid = idMaxUdpPayloadSize then Some (\<lambda>v p. p\<lparr>maxUdpPayloadSize := v\<rparr>)
      else if pid = idInitialMaxData then Some (\<lambda>v p. p\<lparr>initialMaxData := v\<rparr>)
      else if pid = idInitialMaxStreamDataBidiLocal then Some (\<lambda>v p. p\<lparr>initialMaxStreamDataBidiLocal := v\<rparr>)
      else if pid = idInitialMaxStreamDataBidiRemote then Some (\<lambda>v p. p\<lparr>initialMaxStreamDataBidiRemote := v\<rparr>)
      else if pid = idInitialMaxStreamDataUni then Some (\<lambda>v p. p\<lparr>initialMaxStreamDataUni := v\<rparr>)
      else if pid = idInitialMaxStreamsBidi then Some (\<lambda>v p. p\<lparr>initialMaxStreamsBidi := v\<rparr>)
      else if pid = idInitialMaxStreamsUni then Some (\<lambda>v p. p\<lparr>initialMaxStreamsUni := v\<rparr>)
      else if pid = idAckDelayExponent then Some (\<lambda>v p. p\<lparr>ackDelayExponent := v\<rparr>)
      else if pid = idMaxAckDelay then Some (\<lambda>v p. p\<lparr>maxAckDelayMs := v\<rparr>)
      else if pid = idActiveConnectionIdLimit then Some (\<lambda>v p. p\<lparr>activeConnectionIdLimit := v\<rparr>)
      else if pid = idMaxDatagramFrameSize then Some (\<lambda>v p. p\<lparr>maxDatagramFrameSize := v\<rparr>)
      else None)"

definition applyVarInt ::
  "u64 \<Rightarrow> bytes \<Rightarrow> SwQuicTransportParameters \<Rightarrow> string + SwQuicTransportParameters" where
  "applyVarInt pid v p =
     (case varIntTarget pid of
        None \<Rightarrow> Inr p
      | Some target \<Rightarrow>
          (case VarInt_decode v 0 of
             (Inl e, _) \<Rightarrow> Inl e
           | (Inr decoded, valueOffset) \<Rightarrow>
               if valueOffset \<noteq> length v then Inl ''QUIC transport parameter has trailing bytes''
               else if pid = idAckDelayExponent \<and> decoded > 20 then Inl ''QUIC ack_delay_exponent must be at most 20''
               else if pid = idMaxAckDelay \<and> decoded \<ge> 16384 then Inl ''QUIC max_ack_delay must be below 2^14''
               else if pid = idActiveConnectionIdLimit \<and> decoded < 2
               then Inl ''QUIC active_connection_id_limit must be at least 2''
               else if pid = idMaxUdpPayloadSize \<and> decoded < 1200
               then Inl ''QUIC max_udp_payload_size must be at least 1200''
               else Inr (target decoded p)))"

definition applyDecoded ::
  "u64 \<Rightarrow> bytes \<Rightarrow> SwQuicTransportParameters \<Rightarrow> string + SwQuicTransportParameters" where
  "applyDecoded pid v p =
     (if pid = idOriginalDestinationConnectionId
      then Inr (p\<lparr>originalDestinationConnectionId := v, hasOriginalDestinationConnectionId := True\<rparr>)
      else if pid = idStatelessResetToken then
        if length v \<noteq> 16 then Inl ''QUIC stateless reset token must be 16 bytes''
        else Inr (p\<lparr>statelessResetTokenValue := v, hasStatelessResetToken := True\<rparr>)
      else if pid = idInitialSourceConnectionId
      then Inr (p\<lparr>initialSourceConnectionId := v, hasInitialSourceConnectionId := True\<rparr>)
      else if pid = idRetrySourceConnectionId
      then Inr (p\<lparr>retrySourceConnectionId := v, hasRetrySourceConnectionId := True\<rparr>)
      else if pid = idDisableActiveMigration then
        if v \<noteq> [] then Inl ''QUIC disable_active_migration must be empty''
        else Inr (p\<lparr>disableActiveMigration := True\<rparr>)
      else if pid = idResetStreamAt then
        if v \<noteq> [] then Inl ''QUIC reset_stream_at must be empty''
        else Inr (p\<lparr>resetStreamAtFlag := True\<rparr>)
      else applyVarInt pid v p)"

text \<open>One entry of the loop: id, length, value.\<close>

definition readParam :: "(u64 \<times> bytes) reader" where
  "readParam =
     bindR VarInt_decode (\<lambda>pid. bindR VarInt_decode (\<lambda>len. \<lambda>buf off.
       if len > word_of_nat (size_sub (length buf) off)
       then (Inl ''QUIC transport parameter value is truncated'', off)
       else (Inr (pid, mid buf (to_int off) (to_int (unat len))), off + unat len)))"

lemma readParam_moves:
  assumes "off < length buf" and "readParam buf off = (Inr x, off')"
  shows "off < off'"
proof -
  obtain pid o1 len o2 where 1: "VarInt_decode buf off = (Inr pid, o1)" "VarInt_decode buf o1 = (Inr len, o2)"
    and "off' = o2 + unat len"
    using assms(2) by (auto simp: readParam_def bindR_Inr_iff split: if_splits)
  moreover have "off < o1" "o1 \<le> length buf" using consumingD [OF consuming_VarInt _ 1(1)] assms(1) by simp_all
  moreover have "o1 < o2" using consumingD [OF consuming_VarInt _ 1(2)] calculation by simp
  ultimately show ?thesis by simp
qed

function params_decode_loop ::
  "bytes \<Rightarrow> nat \<Rightarrow> SwQuicTransportParameters \<Rightarrow> string + SwQuicTransportParameters" where
  "params_decode_loop buf off p =
     (if off < length buf then
        (case readParam buf off of
           (Inl e, _) \<Rightarrow> Inl e
         | (Inr (pid, v), off') \<Rightarrow>
             (case applyDecoded pid v p of
                Inl e \<Rightarrow> Inl e
              | Inr p' \<Rightarrow> params_decode_loop buf off' p'))
      else Inr p)"
  by pat_completeness auto
termination
  by (relation "measure (\<lambda>(buf, off, p). length buf - off)") (auto, metis readParam_moves diff_less_mono2)

declare params_decode_loop.simps [simp del]

definition params_decode :: "bytes \<Rightarrow> string + SwQuicTransportParameters" where
  "params_decode buf = params_decode_loop buf 0 newTransportParameters"

subsection \<open>Entries\<close>

definition param_bytes :: "u64 \<times> bytes \<Rightarrow> bytes" where
  "param_bytes x = varint_bytes (fst x) @ varint_bytes (word_of_nat (length (snd x))) @ snd x"

definition param_ok :: "u64 \<times> bytes \<Rightarrow> bool" where
  "param_ok x \<longleftrightarrow> fst x \<le> maxValue \<and> length (snd x) < 2 ^ 31 \<and>
     \<not> isl (applyDecoded (fst x) (snd x) newTransportParameters)"

definition applyParam :: "SwQuicTransportParameters \<Rightarrow> u64 \<times> bytes \<Rightarrow> SwQuicTransportParameters" where
  "applyParam p x = (case applyDecoded (fst x) (snd x) p of Inr p' \<Rightarrow> p' | Inl _ \<Rightarrow> p)"

lemma applyVarInt_isl: "isl (applyVarInt pid v p) = isl (applyVarInt pid v q)"
  by (cases "varIntTarget pid"; cases "VarInt_decode v 0"; cases "fst (VarInt_decode v 0)") (auto simp: applyVarInt_def)

lemma applyDecoded_isl: "isl (applyDecoded pid v p) = isl (applyDecoded pid v q)"
  using applyVarInt_isl [of pid v p q] by (simp add: applyDecoded_def)

lemma readParam_value:
  "reads (\<lambda>buf off. if word_of_nat (length v) > (word_of_nat (size_sub (length buf) off) :: u64)
     then (Inl ''QUIC transport parameter value is truncated'', off)
     else (Inr (pid, mid buf (to_int off) (to_int (unat (word_of_nat (length v) :: u64)))), off + unat (word_of_nat (length v) :: u64)))
   v (pid, v)"
proof (rule readsI)
  fix pre suf
  assume len: "length (pre @ v @ suf) < 2 ^ 31"
  have u: "unat (word_of_nat (length v) :: u64) = length v"
    "unat (word_of_nat (length v + length suf) :: u64) = length v + length suf"
    using len by (simp_all add: unsigned_of_nat take_bit_nat_eq_self del: of_nat_add)
  then have "\<not> word_of_nat (length v) > (word_of_nat (length v + length suf) :: u64)"
    unfolding word_less_nat_alt by simp
  then show "(if word_of_nat (length v) > (word_of_nat (size_sub (length (pre @ v @ suf)) (length pre)) :: u64)
      then (Inl ''QUIC transport parameter value is truncated'', length pre)
      else (Inr (pid, mid (pre @ v @ suf) (to_int (length pre)) (to_int (unat (word_of_nat (length v) :: u64)))),
            length pre + unat (word_of_nat (length v) :: u64))) = (Inr (pid, v), length pre + length v)"
    using mid_append [OF len] by (simp add: u(1) del: of_nat_add)
qed

interpretation params: wire_sequence param_bytes readParam param_ok params_decode_loop applyParam Inr
proof
  fix x :: "u64 \<times> bytes"
  assume ok: "param_ok x"
  then have le: "fst x \<le> maxValue" "(word_of_nat (length (snd x)) :: u64) \<le> maxValue"
    by (simp_all add: param_ok_def length_le_max)
  have "reads readParam (param_bytes x) (fst x, snd x)"
    unfolding readParam_def param_bytes_def
    by (rule reads_bindR [OF reads_VarInt [OF le(1)]], rule reads_bindR [OF reads_VarInt [OF le(2)]], rule readParam_value)
  then show "reads readParam (param_bytes x) x" by simp
  show "param_bytes x \<noteq> []" using varint_bytes_nonempty [OF le(1)] by (simp add: param_bytes_def)
next
  fix buf :: bytes and off p
  assume "length buf \<le> off"
  then show "params_decode_loop buf off p = Inr p" by (simp add: params_decode_loop.simps)
next
  fix off buf x off' p
  assume "off < length buf" "param_ok x" "readParam buf off = (Inr x, off')"
  then show "params_decode_loop buf off p = params_decode_loop buf off' (applyParam p x)"
    using applyDecoded_isl [of "fst x" "snd x" p newTransportParameters]
    by (subst params_decode_loop.simps) (auto simp: applyParam_def param_ok_def split: sum.splits prod.splits)
qed

subsection \<open>The entries of a set of parameters\<close>

definition wf_params :: "SwQuicTransportParameters \<Rightarrow> bool" where
  "wf_params p \<longleftrightarrow>
     (\<forall>f\<in>{maxIdleTimeoutMs, maxUdpPayloadSize, initialMaxData, initialMaxStreamDataBidiLocal,
        initialMaxStreamDataBidiRemote, initialMaxStreamDataUni, initialMaxStreamsBidi, initialMaxStreamsUni,
        ackDelayExponent, maxAckDelayMs, activeConnectionIdLimit, maxDatagramFrameSize}. f p \<le> maxValue) \<and>
     maxUdpPayloadSize p \<ge> 1200 \<and> ackDelayExponent p \<le> 20 \<and> maxAckDelayMs p < 16384 \<and>
     activeConnectionIdLimit p \<ge> 2 \<and>
     length (originalDestinationConnectionId p) < 2 ^ 31 \<and> length (initialSourceConnectionId p) < 2 ^ 31 \<and>
     length (retrySourceConnectionId p) < 2 ^ 31 \<and>
     (if hasStatelessResetToken p then length (statelessResetTokenValue p) = 16 else statelessResetTokenValue p = []) \<and>
     (\<not> hasOriginalDestinationConnectionId p \<longrightarrow> originalDestinationConnectionId p = []) \<and>
     (\<not> hasInitialSourceConnectionId p \<longrightarrow> initialSourceConnectionId p = []) \<and>
     (\<not> hasRetrySourceConnectionId p \<longrightarrow> retrySourceConnectionId p = [])"

definition entry :: "bool \<Rightarrow> u64 \<Rightarrow> bytes \<Rightarrow> (u64 \<times> bytes) list" where
  "entry c pid v = (if c then [(pid, v)] else [])"

definition param_entries :: "SwQuicTransportParameters \<Rightarrow> (u64 \<times> bytes) list" where
  "param_entries p =
     entry (hasOriginalDestinationConnectionId p) 0x00 (originalDestinationConnectionId p) @
     entry (maxIdleTimeoutMs p \<noteq> 0) 0x01 (varint_bytes (maxIdleTimeoutMs p)) @
     entry (hasStatelessResetToken p) 0x02 (statelessResetTokenValue p) @
     entry (maxUdpPayloadSize p \<noteq> 65527) 0x03 (varint_bytes (maxUdpPayloadSize p)) @
     entry (initialMaxData p \<noteq> 0) 0x04 (varint_bytes (initialMaxData p)) @
     entry (initialMaxStreamDataBidiLocal p \<noteq> 0) 0x05 (varint_bytes (initialMaxStreamDataBidiLocal p)) @
     entry (initialMaxStreamDataBidiRemote p \<noteq> 0) 0x06 (varint_bytes (initialMaxStreamDataBidiRemote p)) @
     entry (initialMaxStreamDataUni p \<noteq> 0) 0x07 (varint_bytes (initialMaxStreamDataUni p)) @
     entry (initialMaxStreamsBidi p \<noteq> 0) 0x08 (varint_bytes (initialMaxStreamsBidi p)) @
     entry (initialMaxStreamsUni p \<noteq> 0) 0x09 (varint_bytes (initialMaxStreamsUni p)) @
     entry (ackDelayExponent p \<noteq> 3) 0x0a (varint_bytes (ackDelayExponent p)) @
     entry (maxAckDelayMs p \<noteq> 25) 0x0b (varint_bytes (maxAckDelayMs p)) @
     entry (disableActiveMigration p) 0x0c [] @
     entry (activeConnectionIdLimit p \<noteq> 2) 0x0e (varint_bytes (activeConnectionIdLimit p)) @
     entry (hasInitialSourceConnectionId p) 0x0f (initialSourceConnectionId p) @
     entry (hasRetrySourceConnectionId p) 0x10 (retrySourceConnectionId p) @
     entry (resetStreamAtFlag p) 0x1d [] @
     entry (maxDatagramFrameSize p \<noteq> 0) 0x20 (varint_bytes (maxDatagramFrameSize p))"

lemma appends_BytesParam:
  assumes "pid \<le> maxValue" and "length v < 2 ^ 31"
  shows "appends (whenW c (appendBytesParam pid v)) (concat (map param_bytes (entry c pid v)))"
  using assms length_le_max [OF assms(2)]
  by (auto simp: whenW_def entry_def appendBytesParam_def param_bytes_def
      intro!: appends_seqW appends_VarInt appends_putW appends_returnW)

lemma appends_VarIntParam:
  assumes "pid \<le> maxValue" and "v \<le> maxValue"
  shows "appends (whenW c (appendVarIntParam pid v)) (concat (map param_bytes (entry c pid (varint_bytes v))))"
proof -
  have "appendVarIntParam pid v = appendBytesParam pid (varint_bytes v)"
    using assms(2) by (simp add: appendVarIntParam_def VarInt_encode_eq fun_eq_iff leD)
  then show ?thesis using appends_BytesParam [OF assms(1) varint_bytes_short [OF assms(2)]] by simp
qed

lemma wf_params_max:
  assumes "wf_params p"
  shows "maxIdleTimeoutMs p \<le> maxValue"
    and "maxUdpPayloadSize p \<le> maxValue"
    and "initialMaxData p \<le> maxValue"
    and "initialMaxStreamDataBidiLocal p \<le> maxValue"
    and "initialMaxStreamDataBidiRemote p \<le> maxValue"
    and "initialMaxStreamDataUni p \<le> maxValue"
    and "initialMaxStreamsBidi p \<le> maxValue"
    and "initialMaxStreamsUni p \<le> maxValue"
    and "ackDelayExponent p \<le> maxValue"
    and "maxAckDelayMs p \<le> maxValue"
    and "activeConnectionIdLimit p \<le> maxValue"
    and "maxDatagramFrameSize p \<le> maxValue"
  using assms by (simp_all add: wf_params_def)

lemma params_encode_eq:
  assumes wf: "wf_params p"
  shows "params_encode p out = (concat (map param_bytes (param_entries p)), None)"
proof -
  note max = wf_params_max [OF wf]
  have lens: "length (originalDestinationConnectionId p) < 2 ^ 31" "length (initialSourceConnectionId p) < 2 ^ 31"
    "length (retrySourceConnectionId p) < 2 ^ 31" "length (statelessResetTokenValue p) < 2 ^ 31"
    using wf by (auto simp: wf_params_def split: if_splits)
  show ?thesis
    unfolding params_encode_def param_entries_def map_append concat_append appendEmptyParam_def param_ids
    by (rule appendsD [where out = "[]", unfolded append_Nil])
      (intro appends_seqW appends_BytesParam appends_VarIntParam max lens; simp add: maxValue_def)
qed

lemma applyVarInt_varint:
  assumes "varIntTarget pid = Some target" and "v \<le> maxValue"
    and "pid = idAckDelayExponent \<longrightarrow> v \<le> 20" and "pid = idMaxAckDelay \<longrightarrow> v < 16384"
    and "pid = idActiveConnectionIdLimit \<longrightarrow> 2 \<le> v" and "pid = idMaxUdpPayloadSize \<longrightarrow> 1200 \<le> v"
  shows "applyVarInt pid (varint_bytes v) p = Inr (target v p)"
  using assms VarInt_decode_varint_bytes [OF assms(2), of "[]" "[]"]
  by (auto simp: applyVarInt_def not_less not_le)

definition applyEntry :: "bool \<Rightarrow> SwQuicTransportParameters \<Rightarrow> u64 \<times> bytes \<Rightarrow> SwQuicTransportParameters" where
  "applyEntry c s x = (if c then applyParam s x else s)"

lemma foldl_entry: "foldl applyParam s (entry c pid v @ xs) = foldl applyParam (applyEntry c s (pid, v)) xs"
  by (simp add: entry_def applyEntry_def)

text \<open>An entry that is present or has its default value sets its field either way.\<close>

lemma entry_varint:
  assumes "v \<le> maxValue"
  shows "maxIdleTimeoutMs s = 0 \<Longrightarrow> applyEntry (v \<noteq> 0) s (0x01, varint_bytes v) = s\<lparr>maxIdleTimeoutMs := v\<rparr>"
    and "maxUdpPayloadSize s = 65527 \<Longrightarrow> 1200 \<le> v \<Longrightarrow>
      applyEntry (v \<noteq> 65527) s (0x03, varint_bytes v) = s\<lparr>maxUdpPayloadSize := v\<rparr>"
    and "initialMaxData s = 0 \<Longrightarrow> applyEntry (v \<noteq> 0) s (0x04, varint_bytes v) = s\<lparr>initialMaxData := v\<rparr>"
    and "initialMaxStreamDataBidiLocal s = 0 \<Longrightarrow>
      applyEntry (v \<noteq> 0) s (0x05, varint_bytes v) = s\<lparr>initialMaxStreamDataBidiLocal := v\<rparr>"
    and "initialMaxStreamDataBidiRemote s = 0 \<Longrightarrow>
      applyEntry (v \<noteq> 0) s (0x06, varint_bytes v) = s\<lparr>initialMaxStreamDataBidiRemote := v\<rparr>"
    and "initialMaxStreamDataUni s = 0 \<Longrightarrow>
      applyEntry (v \<noteq> 0) s (0x07, varint_bytes v) = s\<lparr>initialMaxStreamDataUni := v\<rparr>"
    and "initialMaxStreamsBidi s = 0 \<Longrightarrow>
      applyEntry (v \<noteq> 0) s (0x08, varint_bytes v) = s\<lparr>initialMaxStreamsBidi := v\<rparr>"
    and "initialMaxStreamsUni s = 0 \<Longrightarrow>
      applyEntry (v \<noteq> 0) s (0x09, varint_bytes v) = s\<lparr>initialMaxStreamsUni := v\<rparr>"
    and "ackDelayExponent s = 3 \<Longrightarrow> v \<le> 20 \<Longrightarrow>
      applyEntry (v \<noteq> 3) s (0x0a, varint_bytes v) = s\<lparr>ackDelayExponent := v\<rparr>"
    and "maxAckDelayMs s = 25 \<Longrightarrow> v < 16384 \<Longrightarrow>
      applyEntry (v \<noteq> 25) s (0x0b, varint_bytes v) = s\<lparr>maxAckDelayMs := v\<rparr>"
    and "activeConnectionIdLimit s = 2 \<Longrightarrow> 2 \<le> v \<Longrightarrow>
      applyEntry (v \<noteq> 2) s (0x0e, varint_bytes v) = s\<lparr>activeConnectionIdLimit := v\<rparr>"
    and "maxDatagramFrameSize s = 0 \<Longrightarrow>
      applyEntry (v \<noteq> 0) s (0x20, varint_bytes v) = s\<lparr>maxDatagramFrameSize := v\<rparr>"
  using assms
  by (simp_all add: applyEntry_def applyParam_def applyDecoded_def applyVarInt_varint varIntTarget_def param_ids)

lemma entry_flag:
  "\<not> disableActiveMigration s \<Longrightarrow> applyEntry (c) s (0x0c, []) = s\<lparr>disableActiveMigration := c\<rparr>"
  "\<not> resetStreamAtFlag s \<Longrightarrow> applyEntry (c) s (0x1d, []) = s\<lparr>resetStreamAtFlag := c\<rparr>"
  by (simp_all add: applyEntry_def applyParam_def applyDecoded_def param_ids)

lemma entry_bytes:
  "\<not> hasOriginalDestinationConnectionId s \<Longrightarrow> originalDestinationConnectionId s = [] \<Longrightarrow> \<not> c \<longrightarrow> v = [] \<Longrightarrow>
     applyEntry (c) s (0x00, v) =
     s\<lparr>originalDestinationConnectionId := v, hasOriginalDestinationConnectionId := c\<rparr>"
  "\<not> hasStatelessResetToken s \<Longrightarrow> statelessResetTokenValue s = [] \<Longrightarrow> (if c then length v = 16 else v = []) \<Longrightarrow>
     applyEntry (c) s (0x02, v) = s\<lparr>statelessResetTokenValue := v, hasStatelessResetToken := c\<rparr>"
  "\<not> hasInitialSourceConnectionId s \<Longrightarrow> initialSourceConnectionId s = [] \<Longrightarrow> \<not> c \<longrightarrow> v = [] \<Longrightarrow>
     applyEntry (c) s (0x0f, v) =
     s\<lparr>initialSourceConnectionId := v, hasInitialSourceConnectionId := c\<rparr>"
  "\<not> hasRetrySourceConnectionId s \<Longrightarrow> retrySourceConnectionId s = [] \<Longrightarrow> \<not> c \<longrightarrow> v = [] \<Longrightarrow>
     applyEntry (c) s (0x10, v) =
     s\<lparr>retrySourceConnectionId := v, hasRetrySourceConnectionId := c\<rparr>"
  by (auto simp: applyEntry_def applyParam_def applyDecoded_def param_ids)

lemma foldl_entries:
  assumes "wf_params p"
  shows "foldl applyParam newTransportParameters (param_entries p) = p"
proof -
  have "foldl applyParam newTransportParameters (param_entries p @ []) = p"
    using assms unfolding param_entries_def append_assoc foldl_entry wf_params_def newTransportParameters_def
    by (simp add: entry_varint entry_flag entry_bytes)
  then show ?thesis by simp
qed

lemma param_ok_varint:
  assumes "v \<le> maxValue"
  shows "pid \<in> {0x01, 0x04, 0x05, 0x06, 0x07, 0x08, 0x09, 0x20} \<Longrightarrow> param_ok (pid, varint_bytes v)"
    and "1200 \<le> v \<Longrightarrow> param_ok (0x03, varint_bytes v)" and "v \<le> 20 \<Longrightarrow> param_ok (0x0a, varint_bytes v)"
    and "v < 16384 \<Longrightarrow> param_ok (0x0b, varint_bytes v)" and "2 \<le> v \<Longrightarrow> param_ok (0x0e, varint_bytes v)"
  using assms varint_bytes_short [OF assms] varint_bytes_nonempty [OF assms]
  by (auto simp: param_ok_def applyDecoded_def applyVarInt_varint varIntTarget_def param_ids maxValue_def)

lemma param_ok_bytes:
  "length w < 2 ^ 31 \<Longrightarrow> pid \<in> {0x00, 0x0f, 0x10} \<Longrightarrow> param_ok (pid, w)" "length w = 16 \<Longrightarrow> param_ok (0x02, w)"
  "param_ok (0x0c, [])" "param_ok (0x1d, [])"
  by (auto simp: param_ok_def applyDecoded_def param_ids maxValue_def)

lemma param_entries_ok:
  assumes wf: "wf_params p"
  shows "\<forall>x\<in>set (param_entries p). param_ok x"
proof -
  have e: "list_all param_ok (entry c pid v) \<longleftrightarrow> (c \<longrightarrow> param_ok (pid, v))" for c pid v
    by (simp add: entry_def)
  have lim: "maxUdpPayloadSize p \<ge> 1200" "ackDelayExponent p \<le> 20" "maxAckDelayMs p < 16384" "activeConnectionIdLimit p \<ge> 2"
    "length (originalDestinationConnectionId p) < 2 ^ 31" "length (initialSourceConnectionId p) < 2 ^ 31"
    "length (retrySourceConnectionId p) < 2 ^ 31" "hasStatelessResetToken p \<Longrightarrow> length (statelessResetTokenValue p) = 16"
    using wf by (simp_all add: wf_params_def)
  have "list_all param_ok (param_entries p)"
    unfolding param_entries_def list_all_append e
    by (intro conjI impI)
      (rule param_ok_bytes param_ok_varint(2-5) [OF wf_params_max(2) [OF wf]] param_ok_varint(2-5) [OF wf_params_max(9) [OF wf]]
         param_ok_varint(2-5) [OF wf_params_max(10) [OF wf]] param_ok_varint(2-5) [OF wf_params_max(11) [OF wf]]
         param_ok_varint(1) wf_params_max [OF wf] lim | assumption | simp)+
  then show ?thesis by (simp add: list_all_iff)
qed

text \<open>
  C23. Every admissible set of transport parameters is encoded, and decoding the encoding
  gives it back; parameters that have their default value are left out on the wire.
\<close>

theorem params_roundtrip:
  assumes "wf_params p"
  shows "\<exists>bs. params_encode p out = (bs, None) \<and> (length bs < 2 ^ 31 \<longrightarrow> params_decode bs = Inr p)"
proof (intro exI conjI impI)
  let ?bs = "concat (map param_bytes (param_entries p))"
  show "params_encode p out = (?bs, None)" by (rule params_encode_eq [OF assms])
  assume "length ?bs < 2 ^ 31"
  then have "params_decode ?bs = Inr (foldl applyParam newTransportParameters (param_entries p))"
    using params.loop_reads_all [of "param_entries p" "[]" newTransportParameters] param_entries_ok [OF assms]
    by (simp add: params_decode_def)
  then show "params_decode ?bs = Inr p" by (simp add: foldl_entries [OF assms])
qed

definition example_params :: SwQuicTransportParameters where
  "example_params = newTransportParameters\<lparr>initialMaxData := 1048576, ackDelayExponent := 10,
     initialSourceConnectionId := [1, 2, 3], hasInitialSourceConnectionId := True, resetStreamAtFlag := True\<rparr>"

lemma example_params_wf: "wf_params example_params"
  by (simp add: wf_params_def example_params_def newTransportParameters_def maxValue_def)

theorem params_roundtrip_witness:
  "\<exists>bs. params_encode example_params [] = (bs, None) \<and> (length bs < 2 ^ 31 \<longrightarrow> params_decode bs = Inr example_params)"
  by (rule params_roundtrip [OF example_params_wf])

subsection \<open>Parameters from the network\<close>

lemma varIntTarget_cases:
  assumes "varIntTarget pid = Some t"
  shows "(pid = idMaxIdleTimeout \<and> t = (\<lambda>v p. p\<lparr>maxIdleTimeoutMs := v\<rparr>)) \<or>
    (pid = idMaxUdpPayloadSize \<and> t = (\<lambda>v p. p\<lparr>maxUdpPayloadSize := v\<rparr>)) \<or>
    (pid = idInitialMaxData \<and> t = (\<lambda>v p. p\<lparr>initialMaxData := v\<rparr>)) \<or>
    (pid = idInitialMaxStreamDataBidiLocal \<and> t = (\<lambda>v p. p\<lparr>initialMaxStreamDataBidiLocal := v\<rparr>)) \<or>
    (pid = idInitialMaxStreamDataBidiRemote \<and> t = (\<lambda>v p. p\<lparr>initialMaxStreamDataBidiRemote := v\<rparr>)) \<or>
    (pid = idInitialMaxStreamDataUni \<and> t = (\<lambda>v p. p\<lparr>initialMaxStreamDataUni := v\<rparr>)) \<or>
    (pid = idInitialMaxStreamsBidi \<and> t = (\<lambda>v p. p\<lparr>initialMaxStreamsBidi := v\<rparr>)) \<or>
    (pid = idInitialMaxStreamsUni \<and> t = (\<lambda>v p. p\<lparr>initialMaxStreamsUni := v\<rparr>)) \<or>
    (pid = idAckDelayExponent \<and> t = (\<lambda>v p. p\<lparr>ackDelayExponent := v\<rparr>)) \<or>
    (pid = idMaxAckDelay \<and> t = (\<lambda>v p. p\<lparr>maxAckDelayMs := v\<rparr>)) \<or>
    (pid = idActiveConnectionIdLimit \<and> t = (\<lambda>v p. p\<lparr>activeConnectionIdLimit := v\<rparr>)) \<or>
    (pid = idMaxDatagramFrameSize \<and> t = (\<lambda>v p. p\<lparr>maxDatagramFrameSize := v\<rparr>))"
  using assms unfolding varIntTarget_def by (simp split: if_splits)

lemma applyVarInt_wf:
  assumes "wf_params p" and "applyVarInt pid v p = Inr p'"
  shows "wf_params p'"
proof (cases "varIntTarget pid")
  case None
  with assms show ?thesis by (simp add: applyVarInt_def)
next
  case (Some t)
  then obtain d where d: "VarInt_decode v 0 = (Inr d, length v)" and p': "p' = t d p"
    and lim: "pid = idAckDelayExponent \<longrightarrow> d \<le> 20" "pid = idMaxAckDelay \<longrightarrow> d < 16384"
      "pid = idActiveConnectionIdLimit \<longrightarrow> 2 \<le> d" "pid = idMaxUdpPayloadSize \<longrightarrow> 1200 \<le> d"
    using assms(2) by (auto simp: applyVarInt_def not_less not_le split: prod.splits sum.splits if_splits)
  have "d \<le> maxValue" using VarInt_decode_max [OF d] .
  with varIntTarget_cases [OF Some] lim assms(1) show ?thesis
    unfolding p' wf_params_def by (elim disjE conjE) simp_all
qed

lemma applyDecoded_cases:
  assumes "applyDecoded pid v p = Inr p'"
  shows "p' = p\<lparr>originalDestinationConnectionId := v, hasOriginalDestinationConnectionId := True\<rparr> \<or>
    length v = 16 \<and> p' = p\<lparr>statelessResetTokenValue := v, hasStatelessResetToken := True\<rparr> \<or>
    p' = p\<lparr>initialSourceConnectionId := v, hasInitialSourceConnectionId := True\<rparr> \<or>
    p' = p\<lparr>retrySourceConnectionId := v, hasRetrySourceConnectionId := True\<rparr> \<or>
    p' = p\<lparr>disableActiveMigration := True\<rparr> \<or> p' = p\<lparr>resetStreamAtFlag := True\<rparr> \<or>
    applyVarInt pid v p = Inr p'"
  using assms unfolding applyDecoded_def by (simp split: if_splits)

lemma applyDecoded_wf:
  assumes "wf_params p" and "length v < 2 ^ 31" and "applyDecoded pid v p = Inr p'"
  shows "wf_params p'"
  using applyDecoded_cases [OF assms(3)] assms(1,2)
proof (elim disjE conjE)
  assume "applyVarInt pid v p = Inr p'"
  then show ?thesis using assms(1) applyVarInt_wf by blast
qed (simp_all add: wf_params_def)

lemma readParam_short:
  assumes "readParam buf off = (Inr (pid, v), off')" and "length buf < 2 ^ 31"
  shows "length v < 2 ^ 31"
proof -
  obtain o2 len where "v = mid buf (to_int o2) (to_int (unat (len :: u64)))"
    using assms(1) by (auto simp: readParam_def bindR_Inr_iff split: if_splits)
  then show ?thesis using mid_length_le [of buf] assms(2) by (metis le_less_trans)
qed

lemma params_decode_loop_wf:
  assumes "length buf < 2 ^ 31" and "wf_params p" and "params_decode_loop buf off p = Inr q"
  shows "wf_params q"
  using assms
proof (induction buf off p rule: params_decode_loop.induct)
  case (1 buf off p)
  show ?case
  proof (cases "off < length buf")
    case True
    then obtain pid v off' p' where r: "readParam buf off = (Inr (pid, v), off')"
      and a: "applyDecoded pid v p = Inr p'" and l: "params_decode_loop buf off' p' = Inr q"
      using 1(4) by (subst (asm) params_decode_loop.simps) (auto split: prod.splits sum.splits)
    have "wf_params p'" using applyDecoded_wf [OF 1(3) readParam_short [OF r 1(2)] a] .
    then show ?thesis using 1(1) [OF True r [symmetric] refl refl a 1(2) _ l] by simp
  next
    case False
    with 1(3,4) show ?thesis by (subst (asm) params_decode_loop.simps) simp
  qed
qed

text \<open>
  C24. Whatever the peer sends, decoded parameters are well formed (every integer below
  \<open>2 ^ 62\<close>, absent ids empty) and respect the limits the decoder checks: a
  \<open>max_udp_payload_size\<close> of at least 1200, an \<open>ack_delay_exponent\<close> of at most 20, a
  \<open>max_ack_delay\<close> below \<open>2 ^ 14\<close>, an \<open>active_connection_id_limit\<close> of at least 2 and a stateless
  reset token of 16 bytes. Encoding them for the wire and decoding again gives the same
  parameters. The bounds of RFC 9000 on the stream limits and on the length of connection ids are
  not among the checks (\<open>unchecked_limits\<close>).
\<close>

theorem params_decode_limits:
  assumes "params_decode buf = Inr p" and "length buf < 2 ^ 31"
  shows "wf_params p \<and> maxUdpPayloadSize p \<ge> 1200 \<and> ackDelayExponent p \<le> 20 \<and> maxAckDelayMs p < 16384 \<and>
    activeConnectionIdLimit p \<ge> 2 \<and> (hasStatelessResetToken p \<longrightarrow> length (statelessResetTokenValue p) = 16) \<and>
    (\<exists>bs. params_encode p [] = (bs, None) \<and> (length bs < 2 ^ 31 \<longrightarrow> params_decode bs = params_decode buf))"
proof -
  have new: "wf_params newTransportParameters" by (simp add: wf_params_def newTransportParameters_def maxValue_def)
  have wf: "wf_params p" using params_decode_loop_wf [OF assms(2) new] assms(1) by (simp add: params_decode_def)
  let ?bs = "concat (map param_bytes (param_entries p))"
  have "length ?bs < 2 ^ 31 \<longrightarrow> params_decode ?bs = Inr p"
    using params.loop_reads_all [of "param_entries p" "[]" newTransportParameters] param_entries_ok [OF wf]
    by (simp add: params_decode_def foldl_entries [OF wf])
  then show ?thesis using wf params_encode_eq [OF wf, of "[]"] assms(1) by (auto simp: wf_params_def)
qed

theorem params_decode_limits_witness:
  "params_decode [0x0a, 1, 7] = Inr (newTransportParameters\<lparr>ackDelayExponent := 7\<rparr>) \<and>
   (\<exists>bs. params_encode (newTransportParameters\<lparr>ackDelayExponent := 7\<rparr>) [] = (bs, None) \<and>
     (length bs < 2 ^ 31 \<longrightarrow> params_decode bs = params_decode [0x0a, 1, 7]))"
proof -
  have 7: "varint_bytes 7 = [7]" "param_bytes (0x0a, [7]) = [0x0a, 1, 7]"
    by (simp_all add: varint_bytes_def param_bytes_def VarInt_encode_def appendByte_def maxValue_def)
  have "param_ok (0x0a, [7])" using param_ok_varint(3) [of 7] by (simp add: maxValue_def 7)
  then have "params_decode [0x0a, 1, 7] = Inr (applyParam newTransportParameters (0x0a, [7]))"
    using params.loop_reads_all [of "[(0x0a, [7])]" "[]" newTransportParameters] by (simp add: params_decode_def 7)
  moreover have "applyParam newTransportParameters (0x0a, [7]) = newTransportParameters\<lparr>ackDelayExponent := 7\<rparr>"
    using entry_varint(9) [of 7 newTransportParameters]
    by (simp add: maxValue_def 7 applyEntry_def newTransportParameters_def)
  ultimately have "params_decode [0x0a, 1, 7] = Inr (newTransportParameters\<lparr>ackDelayExponent := 7\<rparr>)" by simp
  moreover have "length [0x0a, 1, 7 :: u8] < 2 ^ 31" by simp
  ultimately show ?thesis using params_decode_limits by blast
qed

text \<open>
  What the decoder lets through although RFC 9000 forbids it: more than \<open>2 ^ 60\<close> streams, and a
  connection id of more than 20 bytes.
\<close>

lemma unchecked_limits:
  "params_decode [0x08, 8, 0xe0, 0, 0, 0, 0, 0, 0, 0] = Inr (newTransportParameters\<lparr>initialMaxStreamsBidi := 2 ^ 61\<rparr>)"
  "params_decode (0x0f # 21 # replicate 21 7) =
     Inr (newTransportParameters\<lparr>initialSourceConnectionId := replicate 21 7, hasInitialSourceConnectionId := True\<rparr>)"
proof -
  let ?v = "0x2000000000000000 :: u64"
  have big: "param_bytes (0x08, varint_bytes ?v) = [0x08, 8, 0xe0, 0, 0, 0, 0, 0, 0, 0]"
    "param_bytes (0x0f, replicate 21 7) = 0x0f # 21 # replicate 21 7" by code_simp+
  have "param_ok (0x08, varint_bytes ?v)" using param_ok_varint(1) [of ?v "0x08"] by (simp add: maxValue_def)
  moreover have "length [0x08, 8, 0xe0, 0, 0, 0, 0, 0, 0, 0 :: u8] < 2 ^ 31" by simp
  ultimately have "params_decode_loop [0x08, 8, 0xe0, 0, 0, 0, 0, 0, 0, 0] 0 newTransportParameters =
      Inr (applyParam newTransportParameters (0x08, varint_bytes ?v))"
    using params.loop_reads_all [of "[(0x08, varint_bytes ?v)]" "[]" newTransportParameters]
    unfolding list.map concat.simps append_Nil append_Nil2 big by simp
  moreover have "applyParam newTransportParameters (0x08, varint_bytes ?v) = newTransportParameters\<lparr>initialMaxStreamsBidi := ?v\<rparr>"
    using entry_varint(7) [of ?v newTransportParameters]
    by (simp add: maxValue_def applyEntry_def newTransportParameters_def)
  ultimately show "params_decode [0x08, 8, 0xe0, 0, 0, 0, 0, 0, 0, 0] = Inr (newTransportParameters\<lparr>initialMaxStreamsBidi := 2 ^ 61\<rparr>)"
    by (simp add: params_decode_def)
  have "param_ok (0x0f, replicate 21 7)" by (rule param_ok_bytes) simp_all
  moreover have "length (0x0f # 21 # replicate 21 7 :: bytes) < 2 ^ 31" by simp
  ultimately have "params_decode_loop (0x0f # 21 # replicate 21 7) 0 newTransportParameters =
      Inr (applyParam newTransportParameters (0x0f, replicate 21 7))"
    using params.loop_reads_all [of "[(0x0f, replicate 21 7)]" "[]" newTransportParameters]
    unfolding list.map concat.simps append_Nil append_Nil2 big by simp
  moreover have "applyParam newTransportParameters (0x0f, replicate 21 7) =
      newTransportParameters\<lparr>initialSourceConnectionId := replicate 21 7, hasInitialSourceConnectionId := True\<rparr>"
    using entry_bytes(3) [of newTransportParameters True "replicate 21 7"]
    by (simp add: applyEntry_def newTransportParameters_def)
  ultimately show "params_decode (0x0f # 21 # replicate 21 7) =
     Inr (newTransportParameters\<lparr>initialSourceConnectionId := replicate 21 7, hasInitialSourceConnectionId := True\<rparr>)"
    by (simp add: params_decode_def)
qed

end
