(* ===== verification/Http3_FrameCodec.thy ===== *)
theory Http3_FrameCodec
  imports Quic_VarInt Sw_ByteArray
begin

text \<open>
  \<open>SwHttp3Frame\<close> and \<open>SwHttp3FrameCodec\<close> (\<open>src/core/io/http3/SwHttp3FrameCodec.h\<close>): the frames of
  HTTP/3, a type, a length and a payload, and the codec. The theory shows that decoding
  inverts encoding, at any place of a buffer, that the decoder stays inside the buffer and
  always delivers a frame the encoder accepts, and that frames of unknown types pass through
  unchanged.
\<close>

subsection \<open>Frames\<close>

datatype h3_Type = H3Data | H3Headers | H3CancelPush | H3Settings | H3PushPromise | H3GoAway | H3MaxPushId | H3Unknown

definition typeData :: u64 where "typeData = 0x00"
definition typeHeaders :: u64 where "typeHeaders = 0x01"
definition typeCancelPush :: u64 where "typeCancelPush = 0x03"
definition typeSettings :: u64 where "typeSettings = 0x04"
definition typePushPromise :: u64 where "typePushPromise = 0x05"
definition typeGoAway :: u64 where "typeGoAway = 0x07"
definition typeMaxPushId :: u64 where "typeMaxPushId = 0x0d"

lemmas h3_types = typeData_def typeHeaders_def typeCancelPush_def typeSettings_def typePushPromise_def
  typeGoAway_def typeMaxPushId_def

type_synonym SettingList = "(u64 \<times> u64) list"

record SwHttp3Frame =
  h3_type :: h3_Type
  h3_rawType :: u64
  h3_id :: u64
  h3_payload :: bytes
  h3_settings :: SettingList

definition h3_frame :: "h3_Type \<Rightarrow> SwHttp3Frame" where
  "h3_frame t = \<lparr>h3_type = t, h3_rawType = 0, h3_id = 0, h3_payload = [], h3_settings = []\<rparr>"

definition h3_data :: "bytes \<Rightarrow> SwHttp3Frame" where
  "h3_data p = (h3_frame H3Data)\<lparr>h3_rawType := typeData, h3_payload := p\<rparr>"

definition h3_headers :: "bytes \<Rightarrow> SwHttp3Frame" where
  "h3_headers p = (h3_frame H3Headers)\<lparr>h3_rawType := typeHeaders, h3_payload := p\<rparr>"

definition h3_settingsFrame :: "SettingList \<Rightarrow> SwHttp3Frame" where
  "h3_settingsFrame ps = (h3_frame H3Settings)\<lparr>h3_rawType := typeSettings, h3_settings := ps\<rparr>"

definition goAway :: "u64 \<Rightarrow> SwHttp3Frame" where
  "goAway i = (h3_frame H3GoAway)\<lparr>h3_rawType := typeGoAway, h3_id := i\<rparr>"

definition maxPushId :: "u64 \<Rightarrow> SwHttp3Frame" where
  "maxPushId i = (h3_frame H3MaxPushId)\<lparr>h3_rawType := typeMaxPushId, h3_id := i\<rparr>"

definition cancelPush :: "u64 \<Rightarrow> SwHttp3Frame" where
  "cancelPush i = (h3_frame H3CancelPush)\<lparr>h3_rawType := typeCancelPush, h3_id := i\<rparr>"

definition pushPromise :: "u64 \<Rightarrow> bytes \<Rightarrow> SwHttp3Frame" where
  "pushPromise i p = (h3_frame H3PushPromise)\<lparr>h3_rawType := typePushPromise, h3_id := i, h3_payload := p\<rparr>"

definition h3_unknown :: "u64 \<Rightarrow> bytes \<Rightarrow> SwHttp3Frame" where
  "h3_unknown t p = (h3_frame H3Unknown)\<lparr>h3_rawType := t, h3_payload := p\<rparr>"

lemmas h3_factories = h3_data_def h3_headers_def h3_settingsFrame_def goAway_def maxPushId_def cancelPush_def
  pushPromise_def h3_unknown_def h3_frame_def

subsection \<open>Encoding\<close>

primrec appendSettings :: "SettingList \<Rightarrow> writer" where
  "appendSettings [] = returnW"
| "appendSettings (s # ss) = seqW (VarInt_encode (fst s)) (seqW (VarInt_encode (snd s)) (appendSettings ss))"

text \<open>The type value and the writer of the payload.\<close>

definition buildPayload :: "SwHttp3Frame \<Rightarrow> u64 \<times> writer" where
  "buildPayload f =
     (case h3_type f of
        H3Data \<Rightarrow> (typeData, putW (h3_payload f))
      | H3Headers \<Rightarrow> (typeHeaders, putW (h3_payload f))
      | H3CancelPush \<Rightarrow> (typeCancelPush, VarInt_encode (h3_id f))
      | H3Settings \<Rightarrow> (typeSettings, appendSettings (h3_settings f))
      | H3PushPromise \<Rightarrow> (typePushPromise, seqW (VarInt_encode (h3_id f)) (putW (h3_payload f)))
      | H3GoAway \<Rightarrow> (typeGoAway, VarInt_encode (h3_id f))
      | H3MaxPushId \<Rightarrow> (typeMaxPushId, VarInt_encode (h3_id f))
      | H3Unknown \<Rightarrow> (h3_rawType f, putW (h3_payload f)))"

definition h3_encodeFrame :: "SwHttp3Frame \<Rightarrow> writer" where
  "h3_encodeFrame f out =
     (case buildPayload f of (typeValue, w) \<Rightarrow>
       (case w [] of
          (_, Some e) \<Rightarrow> (out, Some e)
        | (payload, None) \<Rightarrow>
            seqW (VarInt_encode typeValue)
              (seqW (VarInt_encode (word_of_nat (length payload))) (putW payload)) out))"

subsection \<open>Decoding\<close>

definition h3_readSlice :: "u64 \<Rightarrow> bytes reader" where
  "h3_readSlice len buf off =
     (if unat len > int_max then (Inl ''HTTP/3 frame length is too large for SwByteArray slicing'', off)
      else if off > length buf \<or> len > word_of_nat (size_sub (length buf) off)
      then (Inl ''HTTP/3 frame payload is truncated'', off)
      else (Inr (if len = 0 then [] else mid buf (to_int off) (to_int (unat len))), off + unat len))"

definition readSinglePayloadVarInt :: "bytes \<Rightarrow> string + u64" where
  "readSinglePayloadVarInt payload =
     (case VarInt_decode payload 0 of
        (Inl e, _) \<Rightarrow> Inl e
      | (Inr v, inner) \<Rightarrow>
          if inner \<noteq> length payload then Inl ''HTTP/3 frame has trailing bytes after its value'' else Inr v)"

definition readSetting :: "(u64 \<times> u64) reader" where
  "readSetting = bindR VarInt_decode (\<lambda>identifier. bindR VarInt_decode (\<lambda>v. returnR (identifier, v)))"

lemma readSetting_moves: "off < length buf \<Longrightarrow> readSetting buf off = (Inr x, off') \<Longrightarrow> off < off'"
proof -
  assume "off < length buf" and r: "readSetting buf off = (Inr x, off')"
  have c: "consuming readSetting"
    unfolding readSetting_def by (intro consuming_bindR consuming_VarInt safe_bindR safe_VarInt safe_returnR)
  show "off < off'" using consumingD [OF c less_imp_le r] \<open>off < length buf\<close> by simp
qed

function parseSettings_loop :: "bytes \<Rightarrow> nat \<Rightarrow> SettingList \<Rightarrow> string + SettingList" where
  "parseSettings_loop payload inner outPairs =
     (if inner < length payload then
        (case readSetting payload inner of
           (Inl e, _) \<Rightarrow> Inl e
         | (Inr s, inner') \<Rightarrow> parseSettings_loop payload inner' (outPairs @ [s]))
      else Inr outPairs)"
  by pat_completeness auto
termination
  by (relation "measure (\<lambda>(p, i, ps). length p - i)") (auto, metis readSetting_moves diff_less_mono2)

declare parseSettings_loop.simps [simp del]

definition parseSettings :: "bytes \<Rightarrow> string + SettingList" where
  "parseSettings payload = parseSettings_loop payload 0 []"

definition h3_decodeBody :: "u64 \<Rightarrow> bytes \<Rightarrow> string + SwHttp3Frame" where
  "h3_decodeBody typeValue payload =
     (if typeValue = typeData then Inr (h3_data payload)
      else if typeValue = typeHeaders then Inr (h3_headers payload)
      else if typeValue = typeCancelPush then map_sum id cancelPush (readSinglePayloadVarInt payload)
      else if typeValue = typeSettings then map_sum id h3_settingsFrame (parseSettings payload)
      else if typeValue = typePushPromise then
        (case VarInt_decode payload 0 of
           (Inl e, _) \<Rightarrow> Inl e
         | (Inr pushId, inner) \<Rightarrow>
             Inr (pushPromise pushId (mid payload (to_int inner) (to_int (size_sub (length payload) inner)))))
      else if typeValue = typeGoAway then map_sum id goAway (readSinglePayloadVarInt payload)
      else if typeValue = typeMaxPushId then map_sum id maxPushId (readSinglePayloadVarInt payload)
      else Inr (h3_unknown typeValue payload))"

definition h3_decodeFrame :: "SwHttp3Frame reader" where
  "h3_decodeFrame =
     bindR VarInt_decode (\<lambda>typeValue. bindR VarInt_decode (\<lambda>len. bindR (h3_readSlice len) (\<lambda>payload.
       \<lambda>buf off. (h3_decodeBody typeValue payload, off))))"

subsection \<open>Settings\<close>

definition setting_bytes :: "u64 \<times> u64 \<Rightarrow> bytes" where
  "setting_bytes s = varint_bytes (fst s) @ varint_bytes (snd s)"

definition setting_ok :: "u64 \<times> u64 \<Rightarrow> bool" where
  "setting_ok s \<longleftrightarrow> fst s \<le> maxValue \<and> snd s \<le> maxValue"

interpretation settings: wire_sequence setting_bytes readSetting setting_ok parseSettings_loop "\<lambda>ps s. ps @ [s]" Inr
proof
  fix x assume ok: "setting_ok x"
  have "reads readSetting (varint_bytes (fst x) @ varint_bytes (snd x) @ []) (fst x, snd x)"
    using ok unfolding readSetting_def setting_ok_def
    by (elim conjE, intro reads_bindR [OF reads_VarInt] reads_returnR)
  then show "reads readSetting (setting_bytes x) x" by (simp add: setting_bytes_def)
  show "setting_bytes x \<noteq> []" using ok varint_bytes_nonempty by (simp add: setting_bytes_def setting_ok_def)
next
  fix buf :: bytes and off ps
  assume "length buf \<le> off"
  then show "parseSettings_loop buf off ps = Inr ps" by (simp add: parseSettings_loop.simps)
next
  fix off buf x off' ps
  assume "off < length buf" "readSetting buf off = (Inr x, off')"
  then show "parseSettings_loop buf off ps = parseSettings_loop buf off' (ps @ [x])"
    by (subst parseSettings_loop.simps) simp
qed

lemma parseSettings_bytes:
  assumes "\<forall>s\<in>set ss. setting_ok s" and "length (concat (map setting_bytes ss)) < 2 ^ 31"
  shows "parseSettings (concat (map setting_bytes ss)) = Inr ss"
proof -
  have "foldl (\<lambda>ps s. ps @ [s]) [] ss = ss" using foldl_append_map [of "\<lambda>s. s" "[]" ss] by simp
  then show ?thesis using settings.loop_reads_all [of ss "[]" "[]"] assms by (simp add: parseSettings_def)
qed

lemma appends_settings: "\<forall>s\<in>set ss. setting_ok s \<Longrightarrow> appends (appendSettings ss) (concat (map setting_bytes ss))"
  by (induction ss)
    (auto simp: setting_ok_def setting_bytes_def appends_returnW append.assoc intro!: appends_seqW appends_VarInt)

lemma parseSettings_loop_ok:
  assumes "\<forall>s\<in>set ps. setting_ok s" and "parseSettings_loop buf off ps = Inr ss"
  shows "\<forall>s\<in>set ss. setting_ok s"
  using assms
proof (induction buf off ps rule: parseSettings_loop.induct)
  case (1 buf off ps)
  show ?case
  proof (cases "off < length buf")
    case True
    then obtain s off' where r: "readSetting buf off = (Inr s, off')"
      and l: "parseSettings_loop buf off' (ps @ [s]) = Inr ss"
      using 1(3) by (subst (asm) parseSettings_loop.simps) (auto split: prod.splits sum.splits)
    have "setting_ok s" using r
      by (auto simp: readSetting_def bindR_Inr_iff returnR_def setting_ok_def dest: VarInt_decode_max)
    with 1(2) have "\<forall>t\<in>set (ps @ [s]). setting_ok t" by simp
    then show ?thesis by (rule 1(1) [OF True r [symmetric] refl _ l])
  next
    case False
    with 1(2,3) show ?thesis by (subst (asm) parseSettings_loop.simps) simp
  qed
qed

subsection \<open>Well-formed frames and their bytes\<close>

definition h3_known :: "u64 \<Rightarrow> bool" where
  "h3_known t \<longleftrightarrow> t \<in> {typeData, typeHeaders, typeCancelPush, typeSettings, typePushPromise, typeGoAway, typeMaxPushId}"

definition payload_of :: "SwHttp3Frame \<Rightarrow> bytes" where
  "payload_of f =
     (case h3_type f of
        H3CancelPush \<Rightarrow> varint_bytes (h3_id f)
      | H3Settings \<Rightarrow> concat (map setting_bytes (h3_settings f))
      | H3PushPromise \<Rightarrow> varint_bytes (h3_id f) @ h3_payload f
      | H3GoAway \<Rightarrow> varint_bytes (h3_id f)
      | H3MaxPushId \<Rightarrow> varint_bytes (h3_id f)
      | _ \<Rightarrow> h3_payload f)"

text \<open>The frames the factories build from values that fit.\<close>

definition wf_h3 :: "SwHttp3Frame \<Rightarrow> bool" where
  "wf_h3 f \<longleftrightarrow> length (payload_of f) < 2 ^ 31 \<and> h3_rawType f \<le> maxValue \<and> h3_id f \<le> maxValue \<and>
     (\<forall>s\<in>set (h3_settings f). setting_ok s) \<and>
     (case h3_type f of
        H3Data \<Rightarrow> h3_rawType f = typeData \<and> h3_id f = 0 \<and> h3_settings f = []
      | H3Headers \<Rightarrow> h3_rawType f = typeHeaders \<and> h3_id f = 0 \<and> h3_settings f = []
      | H3CancelPush \<Rightarrow> h3_rawType f = typeCancelPush \<and> h3_payload f = [] \<and> h3_settings f = []
      | H3Settings \<Rightarrow> h3_rawType f = typeSettings \<and> h3_id f = 0 \<and> h3_payload f = []
      | H3PushPromise \<Rightarrow> h3_rawType f = typePushPromise \<and> h3_settings f = []
      | H3GoAway \<Rightarrow> h3_rawType f = typeGoAway \<and> h3_payload f = [] \<and> h3_settings f = []
      | H3MaxPushId \<Rightarrow> h3_rawType f = typeMaxPushId \<and> h3_payload f = [] \<and> h3_settings f = []
      | H3Unknown \<Rightarrow> \<not> h3_known (h3_rawType f) \<and> h3_id f = 0 \<and> h3_settings f = [])"

definition h3_bytes :: "SwHttp3Frame \<Rightarrow> bytes" where
  "h3_bytes f = varint_bytes (h3_rawType f) @ varint_bytes (word_of_nat (length (payload_of f))) @ payload_of f"

lemma buildPayload_wf:
  assumes "wf_h3 f"
  shows "fst (buildPayload f) = h3_rawType f" and "appends (snd (buildPayload f)) (payload_of f)"
  using assms
  by (cases "h3_type f"; simp add: wf_h3_def buildPayload_def payload_of_def appends_putW appends_VarInt
      appends_settings appends_seqW)+

lemma appends_h3:
  assumes "wf_h3 f"
  shows "appends (h3_encodeFrame f) (h3_bytes f)"
proof -
  have "snd (buildPayload f) [] = (payload_of f, None)" using appendsD [OF buildPayload_wf(2) [OF assms], of "[]"] by simp
  moreover have "appends (seqW (VarInt_encode (h3_rawType f))
      (seqW (VarInt_encode (word_of_nat (length (payload_of f)))) (putW (payload_of f)))) (h3_bytes f)"
    using assms unfolding h3_bytes_def
    by (intro appends_seqW appends_VarInt appends_putW length_le_max) (simp_all add: wf_h3_def)
  ultimately show ?thesis
    using buildPayload_wf(1) [OF assms] by (cases "buildPayload f") (simp add: appends_def h3_encodeFrame_def)
qed

lemma reads_h3_slice:
  assumes "length bs < 2 ^ 31"
  shows "reads (h3_readSlice (word_of_nat (length bs))) bs bs"
proof (rule readsI)
  fix pre suf
  assume len: "length (pre @ bs @ suf) < 2 ^ 31"
  have u: "unat (word_of_nat (length bs) :: u64) = length bs"
    "unat (word_of_nat (length bs + length suf) :: u64) = length bs + length suf"
    using len by (simp_all add: unsigned_of_nat take_bit_nat_eq_self del: of_nat_add)
  then have "\<not> word_of_nat (length bs) > (word_of_nat (length bs + length suf) :: u64)"
    unfolding word_less_nat_alt by simp
  moreover have "(word_of_nat (length bs) :: u64) = 0 \<longleftrightarrow> bs = []" using u(1) by (auto simp: word_unat_eq_iff)
  ultimately show "h3_readSlice (word_of_nat (length bs)) (pre @ bs @ suf) (length pre) = (Inr bs, length pre + length bs)"
    using mid_append [OF len] assms u(1) by (simp add: h3_readSlice_def int_max_def del: of_nat_add)
qed

lemma readSingle_varint: "v \<le> maxValue \<Longrightarrow> readSinglePayloadVarInt (varint_bytes v) = Inr v"
  using VarInt_decode_varint_bytes [of v "[]" "[]"] by (simp add: readSinglePayloadVarInt_def)

lemma decodeBody_wf:
  assumes "wf_h3 f"
  shows "h3_decodeBody (h3_rawType f) (payload_of f) = Inr f"
proof (cases "h3_type f")
  case H3PushPromise
  let ?v = "varint_bytes (h3_id f)"
  have len: "length (?v @ h3_payload f) < 2 ^ 31" and v: "h3_id f \<le> maxValue"
    using assms H3PushPromise by (simp_all add: wf_h3_def payload_of_def)
  have "VarInt_decode (?v @ h3_payload f) 0 = (Inr (h3_id f), length ?v)"
    using VarInt_decode_varint_bytes [OF v, of "[]" "h3_payload f"] by simp
  moreover have "mid (?v @ h3_payload f) (to_int (length ?v)) (to_int (length (h3_payload f))) = h3_payload f"
    using mid_append [of ?v "h3_payload f" "[]"] len by simp
  ultimately show ?thesis
    using assms H3PushPromise by (cases f) (simp add: h3_decodeBody_def wf_h3_def payload_of_def h3_types h3_factories)
qed (use assms in \<open>cases f; simp add: h3_decodeBody_def wf_h3_def payload_of_def h3_types h3_factories readSingle_varint
      parseSettings_bytes h3_known_def\<close>)+

interpretation h3_frames: wire_format h3_bytes h3_decodeFrame wf_h3
proof
  fix f assume wf: "wf_h3 f"
  then have raw: "h3_rawType f \<le> maxValue" and len: "length (payload_of f) < 2 ^ 31" by (simp_all add: wf_h3_def)
  have "reads h3_decodeFrame (varint_bytes (h3_rawType f) @ varint_bytes (word_of_nat (length (payload_of f))) @ payload_of f @ []) f"
    unfolding h3_decodeFrame_def
    by (intro reads_bindR [OF reads_VarInt [OF raw]] reads_bindR [OF reads_VarInt [OF length_le_max [OF len]]]
        reads_bindR [OF reads_h3_slice [OF len]]) (simp add: reads_def decodeBody_wf [OF wf])
  then show "reads h3_decodeFrame (h3_bytes f) f" by (simp add: h3_bytes_def)
  show "h3_bytes f \<noteq> []" using varint_bytes_nonempty [OF raw] by (simp add: h3_bytes_def)
qed

subsection \<open>Frames from the network\<close>

lemma h3_readSlice_Inr:
  assumes "h3_readSlice len buf off = (Inr x, off')" and "length buf < 2 ^ 31"
  shows "off' = off + unat len" and "off' \<le> length buf" and "length x = unat len"
    and "x = take (unat len) (drop off buf)"
proof -
  have le: "off \<le> length buf" and l: "\<not> len > word_of_nat (length buf - off)" and o: "off' = off + unat len"
    and x: "x = (if len = 0 then [] else mid buf (to_int off) (to_int (unat len)))"
    using assms(1) by (auto simp: h3_readSlice_def split: if_splits)
  have "unat (word_of_nat (length buf - off) :: u64) = length buf - off"
    using assms(2) by (simp add: unsigned_of_nat take_bit_nat_eq_self del: of_nat_diff)
  then have le2: "off + unat len \<le> length buf" using l le by (simp add: word_less_nat_alt)
  then show "off' = off + unat len" "off' \<le> length buf" "length x = unat len" "x = take (unat len) (drop off buf)"
    using o x mid_cast [OF le2 assms(2)] by simp_all
qed

lemma parseSettings_loop_length:
  assumes "parseSettings_loop buf off ps = Inr ss" and "off \<le> length buf"
  shows "length (concat (map setting_bytes ss)) \<le> length (concat (map setting_bytes ps)) + (length buf - off)"
  using assms
proof (induction buf off ps rule: parseSettings_loop.induct)
  case (1 buf off ps)
  show ?case
  proof (cases "off < length buf")
    case True
    then obtain s off' where r: "readSetting buf off = (Inr s, off')"
      and l: "parseSettings_loop buf off' (ps @ [s]) = Inr ss"
      using 1(2) by (subst (asm) parseSettings_loop.simps) (auto split: prod.splits sum.splits)
    obtain o1 where v: "VarInt_decode buf off = (Inr (fst s), o1)" "VarInt_decode buf o1 = (Inr (snd s), off')"
      using r by (auto simp: readSetting_def bindR_Inr_iff returnR_def)
    note v1 = VarInt_decode_shortest [OF v(1)] and v2 = VarInt_decode_shortest [OF v(2)]
    have "length (concat (map setting_bytes ss)) \<le> length (concat (map setting_bytes (ps @ [s]))) + (length buf - off')"
      by (rule 1(1) [OF True r [symmetric] refl l]) (use v2 in simp)
    moreover have "length (concat (map setting_bytes (ps @ [s]))) =
        length (concat (map setting_bytes ps)) + length (varint_bytes (fst s)) + length (varint_bytes (snd s))"
      by (simp add: setting_bytes_def [of s])
    ultimately show ?thesis using v1 v2 by linarith
  next
    case False
    with 1(2,3) show ?thesis by (subst (asm) parseSettings_loop.simps) simp
  qed
qed

lemma readSingle_Inr:
  assumes "readSinglePayloadVarInt p = Inr v"
  shows "v \<le> maxValue" and "length (varint_bytes v) \<le> length p"
proof -
  have d: "VarInt_decode p 0 = (Inr v, length p)"
    using assms by (auto simp: readSinglePayloadVarInt_def split: prod.splits sum.splits if_splits)
  show "v \<le> maxValue" "length (varint_bytes v) \<le> length p"
    using VarInt_decode_max [OF d] VarInt_decode_shortest [OF d] by simp_all
qed

lemma parseSettings_Inr:
  assumes "parseSettings p = Inr ss"
  shows "\<forall>s\<in>set ss. setting_ok s" and "length (concat (map setting_bytes ss)) \<le> length p"
  using parseSettings_loop_ok [of "[]" p 0 ss] parseSettings_loop_length [of p 0 "[]" ss] assms
  by (simp_all add: parseSettings_def)

lemma pushPromise_Inr:
  assumes "VarInt_decode p 0 = (Inr v, inner)" and "length p < 2 ^ 31"
  shows "v \<le> maxValue" and "length (varint_bytes v @ mid p (to_int inner) (to_int (size_sub (length p) inner))) \<le> length p"
proof -
  note s = VarInt_decode_shortest [OF assms(1)]
  show "v \<le> maxValue" using VarInt_decode_max [OF assms(1)] .
  have "mid p (to_int inner) (to_int (length p - inner)) = take (length p - inner) (drop inner p)"
    using s assms(2) by (intro mid_cast) simp_all
  then show "length (varint_bytes v @ mid p (to_int inner) (to_int (size_sub (length p) inner))) \<le> length p" using s by simp
qed

lemma decodeBody_Inr:
  assumes "h3_decodeBody t p = Inr f" and "t \<le> maxValue" and "length p < 2 ^ 31"
  shows "wf_h3 f" and "h3_rawType f = t" and "length (payload_of f) \<le> length p"
proof -
  have "wf_h3 f \<and> h3_rawType f = t \<and> length (payload_of f) \<le> length p"
  proof (cases "h3_known t")
    case False
    then have "f = h3_unknown t p" using assms(1) by (auto simp: h3_decodeBody_def h3_known_def)
    with False assms show ?thesis by (simp add: wf_h3_def payload_of_def h3_factories maxValue_def)
  next
    case True
    then consider "t = typeData" | "t = typeHeaders" | "t = typeCancelPush" | "t = typeSettings" | "t = typePushPromise"
      | "t = typeGoAway" | "t = typeMaxPushId" unfolding h3_known_def by blast
    then show ?thesis
    proof cases
      case 3
      then obtain v where v: "readSinglePayloadVarInt p = Inr v" and "f = cancelPush v"
        using assms(1) by (cases "readSinglePayloadVarInt p") (auto simp: h3_decodeBody_def h3_types)
      with 3 assms readSingle_Inr [OF v] show ?thesis by (simp add: wf_h3_def payload_of_def h3_factories)
    next
      case 4
      then obtain ss where ss: "parseSettings p = Inr ss" and "f = h3_settingsFrame ss"
        using assms(1) by (cases "parseSettings p") (auto simp: h3_decodeBody_def h3_types)
      with 4 assms parseSettings_Inr [OF ss] show ?thesis by (simp add: wf_h3_def payload_of_def h3_factories maxValue_def)
    next
      case 5
      then obtain v inner where d: "VarInt_decode p 0 = (Inr v, inner)"
        and "f = pushPromise v (mid p (to_int inner) (to_int (size_sub (length p) inner)))"
        using assms(1) by (auto simp: h3_decodeBody_def h3_types split: prod.splits sum.splits)
      with 5 assms pushPromise_Inr [OF d assms(3)] show ?thesis by (simp add: wf_h3_def payload_of_def h3_factories)
    next
      case 6
      then obtain v where v: "readSinglePayloadVarInt p = Inr v" and "f = goAway v"
        using assms(1) by (cases "readSinglePayloadVarInt p") (auto simp: h3_decodeBody_def h3_types)
      with 6 assms readSingle_Inr [OF v] show ?thesis by (simp add: wf_h3_def payload_of_def h3_factories)
    next
      case 7
      then obtain v where v: "readSinglePayloadVarInt p = Inr v" and "f = maxPushId v"
        using assms(1) by (cases "readSinglePayloadVarInt p") (auto simp: h3_decodeBody_def h3_types)
      with 7 assms readSingle_Inr [OF v] show ?thesis by (simp add: wf_h3_def payload_of_def h3_factories)
    qed (use assms in \<open>auto simp: h3_decodeBody_def wf_h3_def payload_of_def h3_factories h3_types maxValue_def\<close>)
  qed
  then show "wf_h3 f" "h3_rawType f = t" "length (payload_of f) \<le> length p" by simp_all
qed

text \<open>
  C25. A well-formed HTTP/3 frame is encoded by appending its bytes, and wherever these
  bytes stand in a buffer the decoder delivers the same frame and the offset right behind it.
\<close>

theorem h3_roundtrip:
  assumes "wf_h3 f"
  shows "\<exists>bs. h3_encodeFrame f out = (out @ bs, None) \<and>
    (length (out @ bs @ suf) < 2 ^ 31 \<longrightarrow>
      h3_decodeFrame (out @ bs @ suf) (length out) = (Inr f, length (out @ bs)))"
  using appendsD [OF appends_h3 [OF assms]] readsD [OF h3_frames.rd_enc [OF assms]] by auto

theorem h3_roundtrip_witness:
  "\<exists>bs. h3_encodeFrame (h3_settingsFrame [(6, 16384), (0x33, 1)]) [0] = ([0] @ bs, None) \<and>
    (length ([0] @ bs @ [1]) < 2 ^ 31 \<longrightarrow>
      h3_decodeFrame ([0] @ bs @ [1]) (length [0 :: u8]) = (Inr (h3_settingsFrame [(6, 16384), (0x33, 1)]), length ([0] @ bs)))"
proof -
  have "wf_h3 (h3_settingsFrame [(6, 16384), (0x33, 1)])" by (simp add: h3_types wf_h3_def h3_settingsFrame_def h3_frame_def setting_ok_def setting_bytes_def maxValue_def
        varint_bytes_length VarInt_encodedSize_def payload_of_def)
  then show ?thesis by (rule h3_roundtrip)
qed

text \<open>
  C26. Whatever the buffer holds, a frame that is decoded lies inside it, is well formed,
  and encoding it again takes no more bytes and decodes to the same frame. Its type is the one
  in the buffer, and a DATA or HEADERS frame and a frame of a type that is not known carry
  exactly the bytes of the buffer that its length field delimits.
\<close>

theorem h3_decode_sound:
  assumes "h3_decodeFrame buf off = (Inr f, off')" and "length buf < 2 ^ 31"
  shows "off < off' \<and> off' \<le> length buf \<and> wf_h3 f \<and>
    (\<exists>bs. h3_encodeFrame f [] = (bs, None) \<and> length bs \<le> off' - off \<and> h3_decodeFrame bs 0 = (Inr f, length bs)) \<and>
    (\<exists>o1 len o2. VarInt_decode buf off = (Inr (h3_rawType f), o1) \<and> VarInt_decode buf o1 = (Inr len, o2) \<and>
      off' = o2 + unat len \<and>
      (h3_rawType f = typeData \<longrightarrow> f = h3_data (take (unat len) (drop o2 buf))) \<and>
      (h3_rawType f = typeHeaders \<longrightarrow> f = h3_headers (take (unat len) (drop o2 buf))) \<and>
      (\<not> h3_known (h3_rawType f) \<longrightarrow> f = h3_unknown (h3_rawType f) (take (unat len) (drop o2 buf))))"
proof -
  obtain t o1 len o2 p where r: "VarInt_decode buf off = (Inr t, o1)" "VarInt_decode buf o1 = (Inr len, o2)"
    "h3_readSlice len buf o2 = (Inr p, off')" and b: "h3_decodeBody t p = Inr f"
    using assms(1) by (auto simp: h3_decodeFrame_def bindR_Inr_iff)
  note v1 = VarInt_decode_shortest [OF r(1)] and v2 = VarInt_decode_shortest [OF r(2)]
  note sl = h3_readSlice_Inr [OF r(3) assms(2)]
  have p: "length p < 2 ^ 31" using sl assms(2) by simp
  note body = decodeBody_Inr [OF b VarInt_decode_max [OF r(1)] p]
  have "length (varint_bytes (word_of_nat (length (payload_of f)))) \<le> length (varint_bytes len)"
  proof -
    have "(word_of_nat (length (payload_of f)) :: u64) \<le> len"
      using body(3) sl(3) p by (simp add: word_le_nat_alt unsigned_of_nat take_bit_nat_eq_self)
    then show ?thesis using VarInt_decode_max [OF r(2)] by (rule varint_bytes_mono)
  qed
  then have len: "length (h3_bytes f) \<le> off' - off"
    using v1 v2 sl body(2,3) by (simp add: h3_bytes_def)
  moreover have "h3_encodeFrame f [] = (h3_bytes f, None)" using appendsD [OF appends_h3 [OF body(1)], of "[]"] by simp
  moreover have "h3_decodeFrame (h3_bytes f) 0 = (Inr f, length (h3_bytes f))"
    using readsD0 [OF h3_frames.rd_enc [OF body(1)]] len sl assms(2) by simp
  moreover have "\<exists>o1 len o2. VarInt_decode buf off = (Inr (h3_rawType f), o1) \<and> VarInt_decode buf o1 = (Inr len, o2) \<and>
      off' = o2 + unat len \<and>
      (h3_rawType f = typeData \<longrightarrow> f = h3_data (take (unat len) (drop o2 buf))) \<and>
      (h3_rawType f = typeHeaders \<longrightarrow> f = h3_headers (take (unat len) (drop o2 buf))) \<and>
      (\<not> h3_known (h3_rawType f) \<longrightarrow> f = h3_unknown (h3_rawType f) (take (unat len) (drop o2 buf)))"
    using r(1,2) sl(1) body(2) b unfolding sl(4)
    by (intro exI [of _ o1] exI [of _ len] exI [of _ o2]) (auto simp: h3_decodeBody_def h3_known_def h3_types)
  ultimately show ?thesis using v1 v2 sl(1,2) body(1) by auto
qed

theorem h3_decode_sound_witness:
  "h3_decodeFrame [9, 0x40, 0x21, 2, 7, 7, 9] 1 = (Inr (h3_unknown 0x21 [7, 7]), 6) \<and>
   wf_h3 (h3_unknown 0x21 [7, 7])"
proof -
  have "h3_decodeFrame [9, 0x40, 0x21, 2, 7, 7, 9] 1 = (Inr (h3_unknown 0x21 [7, 7]), 6)"
    by (simp add: h3_decodeFrame_def bindR_def h3_readSlice_def h3_decodeBody_def VarInt_decode_def Let_def h3_types int_max_def mid_def slice_def sanitizePosition_def to_int_def upt_rec)
  moreover have "length [9, 0x40, 0x21, 2, 7, 7, 9 :: u8] < 2 ^ 31" by simp
  ultimately show ?thesis using h3_decode_sound by blast
qed

end
