(* ===== verification/Quic_LossRecovery.thy ===== *)
theory Quic_LossRecovery
  imports Complex_Main Sw_Map
begin

text \<open>
  \<open>SwQuicLossRecovery\<close> (\<open>src/core/io/quic/SwQuicLossRecovery.h\<close>): round-trip estimation and loss
  detection (RFC 9002, sections 5 and 6) of one packet number space.

  The estimator computes with \<open>double\<close>s. A finite \<open>double\<close> is the rational number it stands for,
  and every arithmetic operation is the exact one followed by the rounding \<open>rnd\<close>, an argument
  of the definitions. Of the rounding the theorems use what IEEE 754 fixes: it is monotone,
  and exact on the integers below \<open>2 ^ 53\<close>. Overflow to infinity does not occur for times below
  \<open>2 ^ 64\<close> ms and is not modelled.

  The theory shows that an acknowledgement splits the tracked packets exactly into
  acknowledged, lost and still tracked ones, that only packets behind the largest
  acknowledged one by the packet or the time threshold are declared lost, and the bounds
  of the timers.
\<close>

record SentPacket =
  sp_packetNumber :: u64
  sp_sentTimeMs :: u64
  sp_ackEliciting :: bool
  sp_inFlight :: bool
  sp_sentBytes :: nat

record AckResult =
  newlyAcked :: "u64 list"
  lost :: "u64 list"

record SwQuicLossRecovery =
  m_handshakeConfirmed :: bool
  m_firstSample :: bool
  m_latestRttMs :: rat
  m_minRttMs :: rat
  m_smoothedRttMs :: rat
  m_rttVarMs :: rat
  m_largestAckedPacket :: u64
  m_haveLargestAcked :: bool
  m_sent :: "(u64, SentPacket) smap"

definition kPacketThreshold :: u64 where "kPacketThreshold = 3"
definition kTimeThresholdFactor :: rat where "kTimeThresholdFactor = 9 / 8"
definition kGranularityMs :: rat where "kGranularityMs = 1"
definition kInitialRttMs :: rat where "kInitialRttMs = 333"

definition newLossRecovery :: SwQuicLossRecovery where
  "newLossRecovery =
     \<lparr>m_handshakeConfirmed = False, m_firstSample = False, m_latestRttMs = kInitialRttMs, m_minRttMs = 0,
      m_smoothedRttMs = kInitialRttMs, m_rttVarMs = kInitialRttMs / 2, m_largestAckedPacket = 0,
      m_haveLargestAcked = False, m_sent = []\<rparr>"

definition setHandshakeConfirmed :: "bool \<Rightarrow> SwQuicLossRecovery \<Rightarrow> SwQuicLossRecovery" where
  "setHandshakeConfirmed c l = l\<lparr>m_handshakeConfirmed := c\<rparr>"

definition loss_onPacketSent :: "SentPacket \<Rightarrow> SwQuicLossRecovery \<Rightarrow> SwQuicLossRecovery" where
  "loss_onPacketSent p l = l\<lparr>m_sent := smap_insert (sp_packetNumber p) p (m_sent l)\<rparr>"

definition inFlightCount :: "SwQuicLossRecovery \<Rightarrow> nat" where
  "inFlightCount l = length (m_sent l)"

subsection \<open>The estimator\<close>

definition updateRtt :: "(rat \<Rightarrow> rat) \<Rightarrow> rat \<Rightarrow> rat \<Rightarrow> SwQuicLossRecovery \<Rightarrow> SwQuicLossRecovery" where
  "updateRtt rnd latestRtt ackDelay l =
     (let l1 = l\<lparr>m_latestRttMs := latestRtt\<rparr> in
      if \<not> m_firstSample l1
      then l1\<lparr>m_firstSample := True, m_minRttMs := latestRtt, m_smoothedRttMs := latestRtt,
              m_rttVarMs := rnd (latestRtt / 2)\<rparr>
      else
        let l2 = (if latestRtt < m_minRttMs l1 then l1\<lparr>m_minRttMs := latestRtt\<rparr> else l1);
            adjustedRtt = (if m_handshakeConfirmed l2 \<and> rnd (latestRtt - m_minRttMs l2) \<ge> ackDelay
                           then rnd (latestRtt - ackDelay) else latestRtt);
            diff = \<bar>rnd (m_smoothedRttMs l2 - adjustedRtt)\<bar>
        in l2\<lparr>m_rttVarMs := rnd (rnd (3 / 4 * m_rttVarMs l2) + rnd (1 / 4 * diff)),
              m_smoothedRttMs := rnd (rnd (7 / 8 * m_smoothedRttMs l2) + rnd (1 / 8 * adjustedRtt))\<rparr>)"

definition lossTimeThresholdMs :: "(rat \<Rightarrow> rat) \<Rightarrow> SwQuicLossRecovery \<Rightarrow> rat" where
  "lossTimeThresholdMs rnd l =
     (let base = (if m_latestRttMs l > m_smoothedRttMs l then m_latestRttMs l else m_smoothedRttMs l);
          threshold = rnd (kTimeThresholdFactor * base)
      in if threshold < kGranularityMs then kGranularityMs else threshold)"

definition computePtoMsExact :: "(rat \<Rightarrow> rat) \<Rightarrow> u64 \<Rightarrow> SwQuicLossRecovery \<Rightarrow> rat" where
  "computePtoMsExact rnd maxAckDelay l =
     (let variance0 = rnd (4 * m_rttVarMs l);
          variance = (if variance0 < kGranularityMs then kGranularityMs else variance0)
      in rnd (rnd (m_smoothedRttMs l + variance) + rnd (of_nat (unat maxAckDelay))))"

text \<open>The conversion to \<open>std::uint64_t\<close> is that of a value in its range.\<close>

definition computePtoMs :: "(rat \<Rightarrow> rat) \<Rightarrow> u64 \<Rightarrow> SwQuicLossRecovery \<Rightarrow> u64" where
  "computePtoMs rnd maxAckDelay l = word_of_int \<lfloor>rnd (computePtoMsExact rnd maxAckDelay l + 1 / 2)\<rfloor>"

subsection \<open>Acknowledgements\<close>

definition range_low :: "u64 \<times> u64 \<Rightarrow> u64" where
  "range_low r = (if fst r > snd r then snd r else fst r)"

definition range_high :: "u64 \<times> u64 \<Rightarrow> u64" where
  "range_high r = (if fst r > snd r then fst r else snd r)"

text \<open>The search for an ack-eliciting packet, from \<open>lowerBound(low)\<close> on, over all ranges.\<close>

fun elicitingScan :: "(u64, SentPacket) smap \<Rightarrow> u64 \<Rightarrow> bool" where
  "elicitingScan [] hi = False"
| "elicitingScan ((pn, p) # it) hi =
     (if pn \<le> hi then if sp_ackEliciting p then True else elicitingScan it hi else False)"

fun elicitingInRanges :: "(u64, SentPacket) smap \<Rightarrow> (u64 \<times> u64) list \<Rightarrow> bool" where
  "elicitingInRanges m [] = False"
| "elicitingInRanges m (r # rs) =
     (if elicitingScan (lowerBound (range_low r) m) (range_high r) then True else elicitingInRanges m rs)"

text \<open>
  The removal of one range. The iterator is the suffix of the map it has not visited; what
  it skipped by \<open>lowerBound\<close> stays.
\<close>

fun ackScan :: "(u64, SentPacket) smap \<Rightarrow> u64 \<Rightarrow> u64 list \<Rightarrow> u64 list \<times> (u64, SentPacket) smap" where
  "ackScan [] hi acked = (acked, [])"
| "ackScan ((pn, p) # it) hi acked =
     (if pn \<le> hi then ackScan it hi (acked @ [pn]) else (acked, (pn, p) # it))"

definition ackRange :: "u64 \<times> u64 \<Rightarrow> u64 list \<times> (u64, SentPacket) smap \<Rightarrow> u64 list \<times> (u64, SentPacket) smap" where
  "ackRange r s =
     (case s of (acked, m) \<Rightarrow>
       (case ackScan (lowerBound (range_low r) m) (range_high r) acked of
          (acked', rest) \<Rightarrow> (acked', takeWhile (\<lambda>e. fst e < range_low r) m @ rest)))"

definition ackLargest :: "u64 \<Rightarrow> u64 list \<times> (u64, SentPacket) smap \<Rightarrow> u64 list \<times> (u64, SentPacket) smap" where
  "ackLargest largestAcked s =
     (case s of (acked, m) \<Rightarrow>
       if smap_contains m largestAcked then (acked @ [largestAcked], fst (smap_erase largestAcked m)) else (acked, m))"

definition packetLost :: "(rat \<Rightarrow> rat) \<Rightarrow> rat \<Rightarrow> u64 \<Rightarrow> u64 \<Rightarrow> u64 \<times> SentPacket \<Rightarrow> bool" where
  "packetLost rnd timeThreshold largestAcked now e \<longleftrightarrow>
     largestAcked - fst e \<ge> kPacketThreshold \<or>
     rnd (rnd (of_nat (unat now)) - rnd (of_nat (unat (sp_sentTimeMs (snd e))))) \<ge> timeThreshold"

fun lossScan :: "(u64 \<times> SentPacket \<Rightarrow> bool) \<Rightarrow> u64 \<Rightarrow> (u64, SentPacket) smap \<Rightarrow> u64 list \<times> (u64, SentPacket) smap" where
  "lossScan isLost largestAcked [] = ([], [])"
| "lossScan isLost largestAcked (e # it) =
     (if fst e < largestAcked then
        (case lossScan isLost largestAcked it of (ls, kept) \<Rightarrow>
           if isLost e then (fst e # ls, kept) else (ls, e # kept))
      else ([], e # it))"

definition onAckReceived ::
  "(rat \<Rightarrow> rat) \<Rightarrow> u64 \<Rightarrow> u64 \<Rightarrow> (u64 \<times> u64) list \<Rightarrow> u64 \<Rightarrow> SwQuicLossRecovery \<Rightarrow> string + (AckResult \<times> SwQuicLossRecovery)" where
  "onAckReceived rnd largestAcked ackDelayMs ranges now l =
     (let anyAckEliciting = (case smap_find (m_sent l) largestAcked of
            None \<Rightarrow> False
          | Some p \<Rightarrow> if sp_ackEliciting p then True else elicitingInRanges (m_sent l) ranges);
          largestSentTime = (case smap_find (m_sent l) largestAcked of None \<Rightarrow> 0 | Some p \<Rightarrow> sp_sentTimeMs p)
      in if anyAckEliciting \<and> now < largestSentTime then Inl ''QUIC ACK time precedes packet send time''
         else
           let l1 = (if anyAckEliciting
                     then updateRtt rnd (rnd (of_nat (unat (now - largestSentTime)))) (rnd (of_nat (unat ackDelayMs))) l
                     else l);
               (acked, m1) = ackLargest largestAcked (fold ackRange (rev ranges) ([], m_sent l1));
               l2 = (if \<not> m_haveLargestAcked l1 \<or> largestAcked > m_largestAckedPacket l1
                     then l1\<lparr>m_largestAckedPacket := largestAcked, m_haveLargestAcked := True\<rparr> else l1);
               (ls, m2) = lossScan (packetLost rnd (lossTimeThresholdMs rnd l2) largestAcked now) largestAcked m1
           in Inr (\<lparr>newlyAcked = acked, lost = ls\<rparr>, l2\<lparr>m_sent := m2\<rparr>))"

text \<open>The reference: which packets a list of ranges acknowledges.\<close>

definition isAcked :: "u64 \<Rightarrow> u64 \<Rightarrow> (u64 \<times> u64) list \<Rightarrow> bool" where
  "isAcked pn largestAcked ranges \<longleftrightarrow>
     (if pn = largestAcked then True
      else list_ex (\<lambda>r. pn \<ge> range_low r \<and> pn \<le> range_high r) ranges)"

subsection \<open>The scans over an ordered map\<close>

lemma elicitingScan_iff:
  "smap_ok m \<Longrightarrow> elicitingScan m hi \<longleftrightarrow> (\<exists>e\<in>set m. fst e \<le> hi \<and> sp_ackEliciting (snd e))"
proof (induction m hi rule: elicitingScan.induct)
  case (2 pn p it hi)
  then have "\<forall>e\<in>set it. pn < fst e" "smap_ok it" by (simp_all add: smap_ok_Cons)
  with 2 show ?case by (auto dest: leD)
qed simp

lemma elicitingInRanges_iff:
  assumes "smap_ok m"
  shows "elicitingInRanges m rs \<longleftrightarrow> (\<exists>r\<in>set rs. \<exists>e\<in>set m. range_low r \<le> fst e \<and> fst e \<le> range_high r \<and> sp_ackEliciting (snd e))"
proof (induction rs)
  case (Cons r rs)
  have scan: "elicitingScan (lowerBound (range_low r) m) (range_high r) \<longleftrightarrow>
      (\<exists>e\<in>set m. range_low r \<le> fst e \<and> fst e \<le> range_high r \<and> sp_ackEliciting (snd e))"
    unfolding lowerBound_filter [OF assms] elicitingScan_iff [OF smap_ok_filter [OF assms]] set_filter by blast
  show ?case unfolding elicitingInRanges.simps scan Cons.IH by auto
qed simp

lemma ackScan_eq:
  "smap_ok m \<Longrightarrow> ackScan m hi acked =
     (acked @ map fst (filter (\<lambda>e. fst e \<le> hi) m), filter (\<lambda>e. \<not> fst e \<le> hi) m)"
proof (induction m hi acked rule: ackScan.induct)
  case (2 pn p it hi acked)
  then have above: "\<forall>e\<in>set it. pn < fst e" "smap_ok it" by (simp_all add: smap_ok_Cons)
  show ?case
  proof (cases "pn \<le> hi")
    case False
    then have "\<forall>e\<in>set it. \<not> fst e \<le> hi" using above(1) by auto
    with False show ?thesis by (simp add: filter_id_conv filter_empty_conv)
  qed (use 2 above in simp)
qed simp

definition inRange :: "u64 \<times> u64 \<Rightarrow> u64 \<Rightarrow> bool" where
  "inRange r pn \<longleftrightarrow> range_low r \<le> pn \<and> pn \<le> range_high r"

lemma ackRange_eq:
  assumes "smap_ok m"
  shows "ackRange r (acked, m) =
    (acked @ map fst (filter (\<lambda>e. inRange r (fst e)) m), filter (\<lambda>e. \<not> inRange r (fst e)) m)"
proof -
  have low: "takeWhile (\<lambda>e. fst e < range_low r) m = filter (\<lambda>e. fst e < range_low r) m"
    using assms by (rule takeWhile_sorted) auto
  have split: "filter (\<lambda>e. fst e < range_low r) m @ filter (\<lambda>e. \<not> fst e \<le> range_high r) (filter (\<lambda>e. range_low r \<le> fst e) m) =
      filter (\<lambda>e. \<not> inRange r (fst e)) m"
    using assms
  proof (induction m)
    case (Cons e m)
    obtain k v where e: "e = (k, v)" by fastforce
    show ?case
    proof (cases "k < range_low r")
      case False
      then have "\<forall>x\<in>set m. \<not> fst x < range_low r" using Cons.prems e by (auto simp: smap_ok_Cons)
      then have "filter (\<lambda>e. fst e < range_low r) m = []" by (simp add: filter_empty_conv)
      with Cons e False show ?thesis by (auto simp: smap_ok_Cons inRange_def)
    qed (use Cons e in \<open>auto simp: smap_ok_Cons inRange_def\<close>)
  qed simp
  show ?thesis
    using assms split
    by (simp add: ackRange_def ackScan_eq lowerBound_filter smap_ok_filter low filter_filter inRange_def conj_commute)
qed

lemma lossScan_eq:
  "smap_ok m \<Longrightarrow> lossScan P la m =
     (map fst (filter (\<lambda>e. fst e < la \<and> P e) m), filter (\<lambda>e. \<not> (fst e < la \<and> P e)) m)"
proof (induction P la m rule: lossScan.induct)
  case (2 P la e it)
  obtain k v where e: "e = (k, v)" by fastforce
  with 2 have above: "\<forall>x\<in>set it. k < fst x" "smap_ok it" by (simp_all add: smap_ok_Cons)
  show ?case
  proof (cases "fst e < la")
    case False
    then have "\<forall>x\<in>set it. \<not> fst x < la" using above(1) e by fastforce
    with False show ?thesis by (simp add: filter_id_conv filter_empty_conv)
  qed (use 2 above in \<open>auto\<close>)
qed simp

subsection \<open>What an acknowledgement does\<close>

lemma fold_ackRange:
  assumes "smap_ok m"
  shows "snd (fold ackRange rs (acked, m)) = filter (\<lambda>e. \<not> (\<exists>r\<in>set rs. inRange r (fst e))) m"
    and "set (fst (fold ackRange rs (acked, m))) = set acked \<union> {pn \<in> fst ` set m. \<exists>r\<in>set rs. inRange r pn}"
    and "distinct acked \<Longrightarrow> set acked \<inter> fst ` set m = {} \<Longrightarrow> distinct (fst (fold ackRange rs (acked, m)))"
proof -
  have "snd (fold ackRange rs (acked, m)) = filter (\<lambda>e. \<not> (\<exists>r\<in>set rs. inRange r (fst e))) m \<and>
    set (fst (fold ackRange rs (acked, m))) = set acked \<union> {pn \<in> fst ` set m. \<exists>r\<in>set rs. inRange r pn} \<and>
    (distinct acked \<longrightarrow> set acked \<inter> fst ` set m = {} \<longrightarrow> distinct (fst (fold ackRange rs (acked, m))))"
    using assms
  proof (induction rs arbitrary: acked m)
    case (Cons r rs)
    let ?a = "acked @ map fst (filter (\<lambda>e. inRange r (fst e)) m)" and ?m = "filter (\<lambda>e. \<not> inRange r (fst e)) m"
    have ok: "smap_ok ?m" using Cons.prems by (rule smap_ok_filter)
    have d: "distinct (map fst (filter (\<lambda>e. inRange r (fst e)) m))"
      using smap.keys_distinct [OF smap_ok_filter [OF Cons.prems]] by (simp add: smap_keys_def)
    have f: "fold ackRange (r # rs) (acked, m) = fold ackRange rs (?a, ?m)" by (simp add: ackRange_eq [OF Cons.prems])
    show ?case unfolding f using Cons.IH [OF ok, of ?a] d by (auto simp: filter_filter conj_commute)
  qed simp
  then show "snd (fold ackRange rs (acked, m)) = filter (\<lambda>e. \<not> (\<exists>r\<in>set rs. inRange r (fst e))) m"
    "set (fst (fold ackRange rs (acked, m))) = set acked \<union> {pn \<in> fst ` set m. \<exists>r\<in>set rs. inRange r pn}"
    "distinct acked \<Longrightarrow> set acked \<inter> fst ` set m = {} \<Longrightarrow> distinct (fst (fold ackRange rs (acked, m)))"
    by blast+
qed

lemma isAcked_iff: "isAcked pn la rs \<longleftrightarrow> pn = la \<or> (\<exists>r\<in>set rs. inRange r pn)"
  by (simp add: isAcked_def inRange_def list_ex_iff)

lemma acked_packets:
  assumes ok: "smap_ok m" and a: "ackLargest la (fold ackRange (rev rs) ([], m)) = (acked, m')"
  shows "m' = filter (\<lambda>e. \<not> isAcked (fst e) la rs) m" and "set acked = {pn \<in> fst ` set m. isAcked pn la rs}"
    and "distinct acked"
proof -
  obtain a0 m0 where f: "fold ackRange (rev rs) ([], m) = (a0, m0)" by fastforce
  note s = fold_ackRange [OF ok, where rs = "rev rs" and acked = "[]", unfolded f, simplified]
  have in0: "la \<in> fst ` set m0 \<longleftrightarrow> la \<in> fst ` set m \<and> \<not> (\<exists>r\<in>set rs. inRange r la)" using s(1) by auto
  have c: "smap_contains m0 la \<longleftrightarrow> la \<in> fst ` set m0"
    by (simp add: smap_contains_def smap_find_None)
  have "m' = filter (\<lambda>e. \<not> isAcked (fst e) la rs) m \<and> set acked = {pn \<in> fst ` set m. isAcked pn la rs} \<and> distinct acked"
  proof (cases "la \<in> fst ` set m0")
    case True
    then have "acked = a0 @ [la]" "m' = filter (\<lambda>e. fst e \<noteq> la) m0"
      using a c f by (auto simp: ackLargest_def smap_erase_def)
    with True s in0 show ?thesis by (auto simp: isAcked_iff filter_filter intro!: filter_cong)
  next
    case False
    then have "acked = a0" "m' = m0" using a c f by (auto simp: ackLargest_def)
    moreover have "(\<exists>r\<in>set rs. inRange r la) \<or> la \<notin> fst ` set m" using False in0 by blast
    ultimately show ?thesis using s by (auto simp: isAcked_iff intro!: filter_cong)
  qed
  then show "m' = filter (\<lambda>e. \<not> isAcked (fst e) la rs) m" "set acked = {pn \<in> fst ` set m. isAcked pn la rs}" "distinct acked"
    by blast+
qed

lemma updateRtt_sent [simp]: "m_sent (updateRtt rnd r d l) = m_sent l"
  by (simp add: updateRtt_def Let_def)

definition ackElicitingAcked :: "SwQuicLossRecovery \<Rightarrow> u64 \<Rightarrow> (u64 \<times> u64) list \<Rightarrow> bool" where
  "ackElicitingAcked l la rs \<longleftrightarrow> la \<in> fst ` set (m_sent l) \<and>
     (\<exists>e\<in>set (m_sent l). isAcked (fst e) la rs \<and> sp_ackEliciting (snd e))"

lemma anyAckEliciting_iff:
  assumes "smap_ok (m_sent l)"
  shows "(case smap_find (m_sent l) la of None \<Rightarrow> False
    | Some p \<Rightarrow> if sp_ackEliciting p then True else elicitingInRanges (m_sent l) rs) \<longleftrightarrow> ackElicitingAcked l la rs"
proof (cases "smap_find (m_sent l) la")
  case None
  then have "la \<notin> fst ` set (m_sent l)" by (simp add: smap_find_None)
  with None show ?thesis by (simp add: ackElicitingAcked_def)
next
  case (Some p)
  then have p: "(la, p) \<in> set (m_sent l)" using assms by (simp add: smap_find_Some)
  have u: "snd e = p" if "e \<in> set (m_sent l)" "fst e = la" for e
    using assms that Some smap_find_Some [OF assms, of la "snd e"] by (cases e) auto
  have "la \<in> fst ` set (m_sent l)" using p by force
  then show ?thesis
    using Some p u by (auto simp: ackElicitingAcked_def elicitingInRanges_iff [OF assms] isAcked_iff inRange_def)
qed

definition afterSample :: "(rat \<Rightarrow> rat) \<Rightarrow> u64 \<Rightarrow> u64 \<Rightarrow> (u64 \<times> u64) list \<Rightarrow> u64 \<Rightarrow> SwQuicLossRecovery \<Rightarrow> SwQuicLossRecovery" where
  "afterSample rnd la d rs now l =
     (if ackElicitingAcked l la rs
      then updateRtt rnd (rnd (of_nat (unat (now - sp_sentTimeMs (the (smap_find (m_sent l) la)))))) (rnd (of_nat (unat d))) l
      else l)"

lemma lossTimeThreshold_cong:
  "m_latestRttMs l = m_latestRttMs l' \<Longrightarrow> m_smoothedRttMs l = m_smoothedRttMs l' \<Longrightarrow>
   lossTimeThresholdMs rnd l = lossTimeThresholdMs rnd l'"
  by (simp add: lossTimeThresholdMs_def)

lemma onAckReceived_Inr:
  assumes ok: "smap_ok (m_sent l)" and res: "onAckReceived rnd la d rs now l = Inr (out, l')"
  defines "l1 \<equiv> afterSample rnd la d rs now l"
  defines "gone \<equiv> \<lambda>e. fst e < la \<and> packetLost rnd (lossTimeThresholdMs rnd l1) la now e"
  shows "set (newlyAcked out) = {pn \<in> fst ` set (m_sent l). isAcked pn la rs}" and "distinct (newlyAcked out)"
    and "lost out = map fst (filter (\<lambda>e. \<not> isAcked (fst e) la rs \<and> gone e) (m_sent l))"
    and "m_sent l' = filter (\<lambda>e. \<not> isAcked (fst e) la rs \<and> \<not> gone e) (m_sent l)"
    and "m_latestRttMs l' = m_latestRttMs l1" and "m_smoothedRttMs l' = m_smoothedRttMs l1"
proof -
  have find: "ackElicitingAcked l la rs \<Longrightarrow> \<exists>p. smap_find (m_sent l) la = Some p"
    by (metis ackElicitingAcked_def not_None_eq smap_find_None)
  obtain acked m1 where a: "ackLargest la (fold ackRange (rev rs) ([], m_sent l)) = (acked, m1)" by fastforce
  have l1s: "m_sent l1 = m_sent l" by (simp add: l1_def afterSample_def)
  have ok1: "smap_ok m1" using acked_packets(1) [OF ok a] ok smap_ok_filter by simp
  let ?l2 = "if \<not> m_haveLargestAcked l1 \<or> la > m_largestAckedPacket l1
     then l1\<lparr>m_largestAckedPacket := la, m_haveLargestAcked := True\<rparr> else l1"
  have thr: "lossTimeThresholdMs rnd ?l2 = lossTimeThresholdMs rnd l1" by (rule lossTimeThreshold_cong) simp_all
  have l1': "l1 = (if ackElicitingAcked l la rs
      then updateRtt rnd (rnd (of_nat (unat (now - (case smap_find (m_sent l) la of None \<Rightarrow> 0 | Some p \<Rightarrow> sp_sentTimeMs p)))))
        (rnd (of_nat (unat d))) l else l)"
    using find by (auto simp: l1_def afterSample_def)
  have "(out, l') = (case lossScan (packetLost rnd (lossTimeThresholdMs rnd ?l2) la now) la m1 of
      (ls, m2) \<Rightarrow> (\<lparr>newlyAcked = acked, lost = ls\<rparr>, ?l2\<lparr>m_sent := m2\<rparr>))"
    using res a unfolding onAckReceived_def anyAckEliciting_iff [OF ok] Let_def l1' [symmetric] l1s
    by (auto split: if_splits prod.splits)
  then have *: "out = \<lparr>newlyAcked = acked, lost = map fst (filter gone m1)\<rparr>" "l' = ?l2\<lparr>m_sent := filter (\<lambda>e. \<not> gone e) m1\<rparr>"
    unfolding thr lossScan_eq [OF ok1] gone_def by simp_all
  show "set (newlyAcked out) = {pn \<in> fst ` set (m_sent l). isAcked pn la rs}" "distinct (newlyAcked out)"
    using acked_packets(2,3) [OF ok a] * by simp_all
  show "lost out = map fst (filter (\<lambda>e. \<not> isAcked (fst e) la rs \<and> gone e) (m_sent l))"
    "m_sent l' = filter (\<lambda>e. \<not> isAcked (fst e) la rs \<and> \<not> gone e) (m_sent l)"
    "m_latestRttMs l' = m_latestRttMs l1" "m_smoothedRttMs l' = m_smoothedRttMs l1"
    using acked_packets(1) [OF ok a] * by (auto simp: filter_filter conj_commute)
qed

text \<open>
  C27. An acknowledgement splits the tracked packets in three: acknowledged are exactly those
  the reference predicate \<open>isAcked\<close> names, each once; lost are exactly those of the others that
  were sent before the largest acknowledged packet and are behind it by three packets or
  outstanding for the time threshold; the rest stays tracked, in order.
\<close>

theorem onAckReceived_partition:
  assumes "smap_ok (m_sent l)" and "onAckReceived rnd la d rs now l = Inr (out, l')"
  shows "set (newlyAcked out) = {pn \<in> fst ` set (m_sent l). isAcked pn la rs} \<and> distinct (newlyAcked out) \<and>
    (\<forall>pn. pn \<in> set (lost out) \<longleftrightarrow> (\<exists>p. (pn, p) \<in> set (m_sent l) \<and> \<not> isAcked pn la rs \<and> unat pn < unat la \<and>
      (unat pn + 3 \<le> unat la \<or>
       rnd (rnd (of_nat (unat now)) - rnd (of_nat (unat (sp_sentTimeMs p)))) \<ge> lossTimeThresholdMs rnd l'))) \<and>
    m_sent l' = filter (\<lambda>e. fst e \<notin> set (newlyAcked out) \<union> set (lost out)) (m_sent l) \<and> smap_ok (m_sent l')"
proof -
  note I = onAckReceived_Inr [OF assms]
  have thr: "lossTimeThresholdMs rnd (afterSample rnd la d rs now l) = lossTimeThresholdMs rnd l'"
    using I(5,6) by (intro lossTimeThreshold_cong) simp_all
  have k: "unat (3 :: u64) = 3" by simp
  have three: "(la - pn \<ge> kPacketThreshold) = (unat pn + 3 \<le> unat la)" if "pn < la" for pn
    using that unat_minus [OF less_imp_le [OF that]]
    unfolding kPacketThreshold_def word_le_nat_alt word_less_nat_alt k by linarith
  have uniq: "p = p'" if "(pn, p) \<in> set (m_sent l)" "(pn, p') \<in> set (m_sent l)" for pn p p'
    using that smap_find_Some [OF assms(1)] by (metis option.inject)
  have lost: "pn \<in> set (lost out) \<longleftrightarrow> (\<exists>p. (pn, p) \<in> set (m_sent l) \<and> \<not> isAcked pn la rs \<and> pn < la \<and>
      packetLost rnd (lossTimeThresholdMs rnd l') la now (pn, p))" for pn
    unfolding I(3) thr by force
  have "m_sent l' = filter (\<lambda>e. fst e \<notin> set (newlyAcked out) \<union> set (lost out)) (m_sent l)"
    unfolding I(4) thr
  proof (rule filter_cong [OF refl])
    fix e assume e: "e \<in> set (m_sent l)"
    obtain pn p where [simp]: "e = (pn, p)" by fastforce
    have "(pn \<in> set (newlyAcked out)) = isAcked pn la rs" using I(1) e by force
    moreover have "(pn \<in> set (lost out)) = (\<not> isAcked pn la rs \<and> pn < la \<and> packetLost rnd (lossTimeThresholdMs rnd l') la now (pn, p))"
      unfolding lost using e uniq by auto
    ultimately show "(\<not> isAcked (fst e) la rs \<and> \<not> (fst e < la \<and> packetLost rnd (lossTimeThresholdMs rnd l') la now e)) =
        (fst e \<notin> set (newlyAcked out) \<union> set (lost out))" by auto
  qed
  moreover have "smap_ok (m_sent l')" unfolding I(4) by (rule smap_ok_filter [OF assms(1)])
  moreover have "(pn < la \<and> packetLost rnd (lossTimeThresholdMs rnd l') la now (pn, p)) \<longleftrightarrow>
      (unat pn < unat la \<and> (unat pn + 3 \<le> unat la \<or>
       rnd (rnd (of_nat (unat now)) - rnd (of_nat (unat (sp_sentTimeMs p)))) \<ge> lossTimeThresholdMs rnd l'))" for pn p
    using three [of pn] by (auto simp: packetLost_def word_less_nat_alt)
  ultimately show ?thesis using I(1,2) by (simp only: lost simp_thms)
qed

definition example_packet :: "u64 \<Rightarrow> SentPacket" where
  "example_packet n = \<lparr>sp_packetNumber = n, sp_sentTimeMs = 100, sp_ackEliciting = True, sp_inFlight = True, sp_sentBytes = 1200\<rparr>"

definition example_sent :: SwQuicLossRecovery where
  "example_sent = fold (\<lambda>n. loss_onPacketSent (example_packet n)) [0, 1, 2, 3, 4, 5] newLossRecovery"

lemma onAckReceived_isl:
  assumes "smap_ok (m_sent l)" and "smap_find (m_sent l) la = Some p"
  shows "isl (onAckReceived rnd la d rs now l) \<longleftrightarrow> ackElicitingAcked l la rs \<and> now < sp_sentTimeMs p"
  unfolding onAckReceived_def anyAckEliciting_iff [OF assms(1)] Let_def by (simp add: assms(2) split: prod.splits)

lemma example_sent_packets: "m_sent example_sent = map (\<lambda>n. (n, example_packet n)) [0, 1, 2, 3, 4, 5]"
  by (simp add: example_sent_def example_packet_def loss_onPacketSent_def newLossRecovery_def)

lemma example_sent_ok: "smap_ok (m_sent example_sent)"
  by (simp add: example_sent_packets smap_ok_def)

theorem onAckReceived_partition_witness:
  "\<exists>out l'. onAckReceived (\<lambda>x. x) 5 0 [(4, 5)] 150 example_sent = Inr (out, l') \<and>
     set (newlyAcked out) = {pn \<in> fst ` set (m_sent example_sent). isAcked pn 5 [(4, 5)]} \<and> 1 \<in> set (lost out)"
proof -
  let ?r = "onAckReceived (\<lambda>x. x) 5 0 [(4, 5)] 150 example_sent"
  have "\<not> isl ?r"
    using onAckReceived_isl [OF example_sent_ok, of 5 "example_packet 5"] by (simp add: example_sent_packets example_packet_def)
  then obtain out l' where r: "?r = Inr (out, l')" by (cases ?r) auto
  note P = onAckReceived_partition [OF example_sent_ok r]
  have "(1, example_packet 1) \<in> set (m_sent example_sent)" by (simp add: example_sent_packets)
  moreover have "\<not> isAcked 1 5 [(4, 5)]" by (simp add: isAcked_def range_low_def range_high_def word_le_nat_alt)
  moreover have "unat (1 :: u64) < unat (5 :: u64)" "unat (1 :: u64) + 3 \<le> unat (5 :: u64)" by simp_all
  ultimately have "1 \<in> set (lost out)" using P [THEN conjunct2, THEN conjunct2, THEN conjunct1, THEN spec, of 1] by blast
  then show ?thesis using P [THEN conjunct1] r by blast
qed

text \<open>
  C28. The only error: an acknowledgement that would give a round-trip sample, that is one that
  newly acknowledges its largest packet and some ack-eliciting packet, arrives before the
  largest packet was sent.
\<close>

theorem onAckReceived_error_iff:
  assumes "smap_ok (m_sent l)"
  shows "onAckReceived rnd la d rs now l = Inl ''QUIC ACK time precedes packet send time'' \<longleftrightarrow>
    (\<exists>p. (la, p) \<in> set (m_sent l) \<and> unat now < unat (sp_sentTimeMs p)) \<and>
    (\<exists>pn p. (pn, p) \<in> set (m_sent l) \<and> isAcked pn la rs \<and> sp_ackEliciting p)"
proof (cases "smap_find (m_sent l) la")
  case None
  then have "\<not> (\<exists>p. (la, p) \<in> set (m_sent l))" by (force simp: smap_find_None)
  with None show ?thesis by (simp add: onAckReceived_def Let_def split: prod.splits)
next
  case (Some p)
  then have p: "(la, p) \<in> set (m_sent l)" and u: "\<And>p'. (la, p') \<in> set (m_sent l) \<Longrightarrow> p' = p"
    using smap_find_Some [OF assms] by (simp, metis option.inject)
  have la: "la \<in> fst ` set (m_sent l)" using p by force
  have eq: "onAckReceived rnd la d rs now l = Inl ''QUIC ACK time precedes packet send time'' \<longleftrightarrow>
      isl (onAckReceived rnd la d rs now l)"
    unfolding onAckReceived_def Let_def by (simp split: prod.splits)
  have "(\<exists>p. (la, p) \<in> set (m_sent l) \<and> unat now < unat (sp_sentTimeMs p)) = (unat now < unat (sp_sentTimeMs p))"
    using p u by blast
  then show ?thesis
    unfolding eq onAckReceived_isl [OF assms Some] ackElicitingAcked_def word_less_nat_alt
    using la by (simp add: Bex_def split_paired_Ex conj_commute)
qed

theorem onAckReceived_error_iff_witness:
  "onAckReceived (\<lambda>x. x) 5 0 [] 50 example_sent = Inl ''QUIC ACK time precedes packet send time''"
proof -
  have "(5, example_packet 5) \<in> set (m_sent example_sent)" by (simp add: example_sent_packets)
  moreover have "isAcked 5 5 []" "sp_ackEliciting (example_packet 5)" by (simp_all add: isAcked_def example_packet_def)
  moreover have "unat (50 :: u64) < unat (sp_sentTimeMs (example_packet 5))" by (simp add: example_packet_def)
  ultimately show ?thesis using onAckReceived_error_iff [OF example_sent_ok] by blast
qed

subsection \<open>The round-trip estimate\<close>

text \<open>What IEEE 754 fixes of the rounding, as far as the estimator needs it.\<close>

definition double_rounding :: "(rat \<Rightarrow> rat) \<Rightarrow> bool" where
  "double_rounding rnd \<longleftrightarrow> mono rnd \<and> (\<forall>n k. n \<le> 2 ^ 53 \<and> k \<le> 3 \<longrightarrow> rnd (of_nat n / 2 ^ k) = of_nat n / 2 ^ k)"

lemma rnd_nat: "double_rounding rnd \<Longrightarrow> n \<le> 2 ^ 53 \<Longrightarrow> rnd (of_nat n) = of_nat n"
  unfolding double_rounding_def by (elim conjE allE [of _ n] allE [of _ 0]) simp

lemma rnd_eighth: "double_rounding rnd \<Longrightarrow> n \<le> 2 ^ 53 \<Longrightarrow> rnd (of_nat n / 8) = of_nat n / 8"
  unfolding double_rounding_def by (elim conjE allE [of _ n] allE [of _ 3]) simp

lemma rnd_mono: "double_rounding rnd \<Longrightarrow> x \<le> y \<Longrightarrow> rnd x \<le> rnd y"
  by (simp add: double_rounding_def monoD)

lemma rnd_0: "double_rounding rnd \<Longrightarrow> rnd 0 = 0"
  using rnd_nat [of rnd 0] by simp

lemma rnd_nonneg: "double_rounding rnd \<Longrightarrow> 0 \<le> x \<Longrightarrow> 0 \<le> rnd x"
  using rnd_mono [of rnd 0 x] rnd_0 [of rnd] by simp

definition sample :: "(rat \<Rightarrow> rat) \<Rightarrow> bool \<times> nat \<times> nat \<Rightarrow> SwQuicLossRecovery \<Rightarrow> SwQuicLossRecovery" where
  "sample rnd x l = (case x of (confirmed, rtt, delay) \<Rightarrow>
     updateRtt rnd (of_nat rtt) (of_nat delay) (setHandshakeConfirmed confirmed l))"

lemma smoothed_between:
  fixes s :: rat
  assumes rnd: "double_rounding rnd" and lo: "lo < 2 ^ 50" and hi: "hi < 2 ^ 50"
    and s: "of_nat lo \<le> s" "s \<le> of_nat hi" and a: "lo \<le> a" "a \<le> hi"
  shows "of_nat lo \<le> rnd (rnd (7 / 8 * s) + rnd (1 / 8 * of_nat a))"
    and "rnd (rnd (7 / 8 * s) + rnd (1 / 8 * of_nat a)) \<le> of_nat hi"
proof -
  have eighth: "rnd (1 / 8 * of_nat a) = of_nat a / 8" using rnd_eighth [OF rnd, of a] hi a by simp
  have seven: "rnd (7 / 8 * of_nat n) = 7 / 8 * of_nat n" if "n < 2 ^ 50" for n
    using rnd_eighth [OF rnd, of "7 * n"] that by simp
  have an: "of_nat lo \<le> (of_nat a :: rat)" "(of_nat a :: rat) \<le> of_nat hi" using a by simp_all
  have "7 / 8 * of_nat lo \<le> rnd (7 / 8 * s)" using rnd_mono [OF rnd, of "7 / 8 * of_nat lo" "7 / 8 * s"] seven [OF lo] s by simp
  then have "of_nat lo \<le> rnd (7 / 8 * s) + of_nat a / 8" using an by simp
  then show "of_nat lo \<le> rnd (rnd (7 / 8 * s) + rnd (1 / 8 * of_nat a))"
    using rnd_mono [OF rnd] rnd_nat [OF rnd, of lo] lo unfolding eighth by fastforce
  have "rnd (7 / 8 * s) \<le> 7 / 8 * of_nat hi" using rnd_mono [OF rnd, of "7 / 8 * s" "7 / 8 * of_nat hi"] seven [OF hi] s by simp
  then have "rnd (7 / 8 * s) + of_nat a / 8 \<le> of_nat hi" using an by simp
  then show "rnd (rnd (7 / 8 * s) + rnd (1 / 8 * of_nat a)) \<le> of_nat hi"
    using rnd_mono [OF rnd] rnd_nat [OF rnd, of hi] hi unfolding eighth by fastforce
qed

definition estimate_ok :: "nat \<Rightarrow> nat \<Rightarrow> SwQuicLossRecovery \<Rightarrow> bool" where
  "estimate_ok lo hi l \<longleftrightarrow> m_firstSample l \<and> m_minRttMs l = of_nat lo \<and> of_nat lo \<le> m_smoothedRttMs l \<and>
     m_smoothedRttMs l \<le> of_nat hi \<and> 0 \<le> m_rttVarMs l"

lemma sample_first:
  assumes "double_rounding rnd" and "\<not> m_firstSample l"
  shows "estimate_ok r r (sample rnd (c, r, d) l)"
  using assms rnd_nonneg [OF assms(1)]
  by (simp add: estimate_ok_def sample_def updateRtt_def setHandshakeConfirmed_def Let_def)

lemma sample_adjusted:
  assumes rnd: "double_rounding rnd" and lim: "r < 2 ^ 50" and lo: "lo \<le> r"
  shows "\<exists>a. lo \<le> a \<and> a \<le> r \<and>
    (if c \<and> rnd (of_nat r - of_nat lo) \<ge> of_nat d then rnd (of_nat r - of_nat d) else of_nat r) = (of_nat a :: rat)"
proof -
  have sub: "rnd (of_nat r - of_nat x) = (of_nat (r - x) :: rat)" if "x \<le> r" for x
    using rnd_nat [OF rnd, of "r - x"] lim that by (simp add: of_nat_diff)
  show ?thesis
  proof (cases "c \<and> d \<le> r - lo")
    case True
    then have c and d: "d \<le> r - lo" by auto
    moreover have "d \<le> r" "lo \<le> r - d" using d lo by linarith+
    ultimately show ?thesis using sub [OF lo] sub [of d] by (intro exI [of _ "r - d"]) (simp del: of_nat_diff)
  next
    case False
    then show ?thesis using sub [OF lo] lo by (intro exI [of _ r]) (auto simp del: of_nat_diff)
  qed
qed

lemma updateRtt_next:
  assumes "m_firstSample l" and "(if r < m_minRttMs l then r else m_minRttMs l) = mn"
    and "(if m_handshakeConfirmed l \<and> rnd (r - mn) \<ge> d then rnd (r - d) else r) = a"
  shows "updateRtt rnd r d l = l\<lparr>m_latestRttMs := r, m_minRttMs := mn,
      m_rttVarMs := rnd (rnd (3 / 4 * m_rttVarMs l) + rnd (1 / 4 * \<bar>rnd (m_smoothedRttMs l - a)\<bar>)),
      m_smoothedRttMs := rnd (rnd (7 / 8 * m_smoothedRttMs l) + rnd (1 / 8 * a))\<rparr>"
proof (cases "r < m_minRttMs l")
  case True
  then have "mn = r" using assms(2) by simp
  with True assms(1,3) show ?thesis by (simp add: updateRtt_def Let_def)
next
  case False
  then have "mn = m_minRttMs l" using assms(2) by simp
  with False assms(1,3) show ?thesis by (cases l) (simp add: updateRtt_def Let_def)
qed

lemma sample_next:
  assumes rnd: "double_rounding rnd" and ok: "estimate_ok lo hi l" and lim: "lo < 2 ^ 50" "hi < 2 ^ 50" "r < 2 ^ 50"
  shows "estimate_ok (min lo r) (max hi r) (sample rnd (c, r, d) l)"
proof -
  define lo' hi' where "lo' = min lo r" and "hi' = max hi r"
  have b: "lo' \<le> lo" "lo' \<le> r" "hi \<le> hi'" "r \<le> hi'" "lo' < 2 ^ 50" "hi' < 2 ^ 50" using lim by (simp_all add: lo'_def hi'_def)
  have l: "m_firstSample l" "m_minRttMs l = of_nat lo" "of_nat lo \<le> m_smoothedRttMs l" "m_smoothedRttMs l \<le> of_nat hi"
    "0 \<le> m_rttVarMs l" using ok by (simp_all add: estimate_ok_def)
  obtain a where a: "lo' \<le> a" "a \<le> r" and
    adj: "(if c \<and> rnd (of_nat r - of_nat lo') \<ge> of_nat d then rnd (of_nat r - of_nat d) else of_nat r) = (of_nat a :: rat)"
    using sample_adjusted [OF rnd lim(3) b(2)] by blast
  have upd: "sample rnd (c, r, d) l = l\<lparr>m_handshakeConfirmed := c, m_latestRttMs := of_nat r, m_minRttMs := of_nat lo',
      m_rttVarMs := rnd (rnd (3 / 4 * m_rttVarMs l) + rnd (1 / 4 * \<bar>rnd (m_smoothedRttMs l - of_nat a)\<bar>)),
      m_smoothedRttMs := rnd (rnd (7 / 8 * m_smoothedRttMs l) + rnd (1 / 8 * of_nat a))\<rparr>"
    unfolding sample_def prod.case setHandshakeConfirmed_def
    by (subst updateRtt_next [where mn = "of_nat lo'" and a = "of_nat a"])
      (use l(1,2) adj in \<open>simp_all add: lo'_def min_def\<close>)
  have "0 \<le> rnd (rnd (3 / 4 * m_rttVarMs l) + rnd (1 / 4 * \<bar>rnd (m_smoothedRttMs l - of_nat a)\<bar>))"
    using l(5) by (intro rnd_nonneg [OF rnd] add_nonneg_nonneg) simp_all
  moreover have "of_nat lo' \<le> m_smoothedRttMs l" "m_smoothedRttMs l \<le> of_nat hi'"
    using l(3,4) b(1,3) of_nat_mono [OF b(1), where 'a = rat] of_nat_mono [OF b(3), where 'a = rat] by linarith+
  ultimately have "estimate_ok lo' hi' (sample rnd (c, r, d) l)"
    using smoothed_between [OF rnd b(5,6), of "m_smoothedRttMs l" a] l(1) a b(4)
    unfolding upd estimate_ok_def by (simp del: of_nat_le_iff)
  then show ?thesis by (simp add: lo'_def hi'_def)
qed

text \<open>
  C29. After one or more samples, whatever their acknowledgement delays, the minimum is that
  of the samples and the smoothed estimate lies between the smallest and the largest
  sample; the variance is not negative.
\<close>

theorem estimate_between_samples:
  assumes "double_rounding rnd" and "xs \<noteq> []" and "\<forall>(c, r, d)\<in>set xs. r < 2 ^ 50"
  shows "m_minRttMs (fold (sample rnd) xs newLossRecovery) = of_nat (Min ((\<lambda>(c, r, d). r) ` set xs)) \<and>
    of_nat (Min ((\<lambda>(c, r, d). r) ` set xs)) \<le> m_smoothedRttMs (fold (sample rnd) xs newLossRecovery) \<and>
    m_smoothedRttMs (fold (sample rnd) xs newLossRecovery) \<le> of_nat (Max ((\<lambda>(c, r, d). r) ` set xs)) \<and>
    0 \<le> m_rttVarMs (fold (sample rnd) xs newLossRecovery)"
proof -
  let ?S = "\<lambda>xs. (\<lambda>(c, r, d). r) ` set xs"
  have "estimate_ok (Min (?S xs)) (Max (?S xs)) (fold (sample rnd) xs newLossRecovery)"
    using assms(2,3)
  proof (induction xs rule: rev_induct)
    case (snoc x xs)
    obtain c r d where x: "x = (c, r, d)" by (cases x)
    show ?case
    proof (cases "xs = []")
      case True
      then show ?thesis using sample_first [OF assms(1), of newLossRecovery] x by (simp add: newLossRecovery_def)
    next
      case False
      then have fin: "finite (?S xs)" "?S xs \<noteq> {}" by simp_all
      have ins: "?S (xs @ [x]) = insert r (?S xs)" by (simp add: x)
      have lim: "\<forall>y\<in>?S xs. y < 2 ^ 50" "r < 2 ^ 50" using snoc.prems x by auto
      have ok: "estimate_ok (Min (?S xs)) (Max (?S xs)) (fold (sample rnd) xs newLossRecovery)"
        using snoc.IH snoc.prems False by simp
      have "estimate_ok (min (Min (?S xs)) r) (max (Max (?S xs)) r) (sample rnd (c, r, d) (fold (sample rnd) xs newLossRecovery))"
        using sample_next [OF assms(1) ok] lim fin Min_in [OF fin] Max_in [OF fin] by blast
      then show ?thesis unfolding ins Min_insert [OF fin] Max_insert [OF fin] by (simp add: x min.commute max.commute)
    qed
  qed simp
  then show ?thesis by (simp add: estimate_ok_def)
qed

text \<open>A rounding for the examples: down to the next multiple of \<open>1 / 1024\<close>.\<close>

definition round_1024 :: "rat \<Rightarrow> rat" where
  "round_1024 x = of_int \<lfloor>x * 1024\<rfloor> / 1024"

lemma round_1024_double: "double_rounding round_1024"
  unfolding double_rounding_def
proof (intro conjI allI impI)
  show "mono round_1024" by (rule monoI) (simp add: round_1024_def divide_right_mono floor_mono)
  fix n k :: nat
  assume "n \<le> 2 ^ 53 \<and> k \<le> 3"
  then have "k = 0 \<or> k = 1 \<or> k = 2 \<or> k = 3" by auto
  then obtain j :: nat where j: "(1024 :: rat) / 2 ^ k = of_nat j" "j > 0"
    by (elim disjE) (auto intro: that [of 1024] that [of 512] that [of 256] that [of 128])
  then have "(of_nat n / 2 ^ k) * 1024 = (of_nat (n * j) :: rat)"
    by (simp add: field_simps)
  then have "\<lfloor>(of_nat n / 2 ^ k) * (1024 :: rat)\<rfloor> = int (n * j)" by (simp only: floor_of_nat)
  then have "round_1024 (of_nat n / 2 ^ k) = of_nat (n * j) / 1024" by (simp add: round_1024_def)
  also have "\<dots> = of_nat n / 2 ^ k" using j by (simp add: field_simps)
  finally show "round_1024 (of_nat n / 2 ^ k) = of_nat n / 2 ^ k" .
qed

theorem estimate_between_samples_witness:
  "m_minRttMs (fold (sample round_1024) [(True, 100, 0), (True, 121, 20)] newLossRecovery) = 100 \<and>
   m_smoothedRttMs (fold (sample round_1024) [(True, 100, 0), (True, 121, 20)] newLossRecovery) \<le> 121"
  using estimate_between_samples [OF round_1024_double, of "[(True, 100, 0), (True, 121, 20)]"] by simp

subsection \<open>The timers\<close>

lemma uint_of_int: "0 \<le> z \<Longrightarrow> z < 2 ^ 64 \<Longrightarrow> uint (word_of_int z :: u64) = z"
  by (simp add: uint_word_of_int take_bit_int_eq_self)

text \<open>
  The time threshold of loss detection is never below the timer granularity, and the probe
  timeout is longer than the peer may delay an acknowledgement.
\<close>

theorem timers_bounded_below:
  assumes "double_rounding rnd" and "0 \<le> m_smoothedRttMs l" and "unat d < 2 ^ 52" and "computePtoMsExact rnd d l < 2 ^ 52"
  shows "kGranularityMs \<le> lossTimeThresholdMs rnd l \<and> unat d + 1 \<le> unat (computePtoMs rnd d l)"
proof -
  let ?v = "if rnd (4 * m_rttVarMs l) < kGranularityMs then kGranularityMs else rnd (4 * m_rttVarMs l)"
  let ?p = "computePtoMsExact rnd d l"
  have v: "1 \<le> ?v" by (simp add: kGranularityMs_def)
  have d1: "rnd (of_nat (unat d)) = of_nat (unat d)" "rnd (of_nat (unat d + 1)) = of_nat (unat d + 1)"
    using assms(3) by (intro rnd_nat [OF assms(1)]; simp)+
  have "rnd (of_nat 1) \<le> rnd (m_smoothedRttMs l + ?v)" using assms(2) v by (intro rnd_mono [OF assms(1)]) simp
  then have "1 \<le> rnd (m_smoothedRttMs l + ?v)" using rnd_nat [OF assms(1), of 1] by simp
  then have "of_nat (unat d + 1) \<le> rnd (m_smoothedRttMs l + ?v) + of_nat (unat d)" by simp
  from rnd_mono [OF assms(1) this] have p: "of_nat (unat d + 1) \<le> ?p"
    unfolding computePtoMsExact_def Let_def d1 .
  have "of_nat (unat d + 1) \<le> rnd (?p + 1 / 2)"
    using rnd_mono [OF assms(1), of "of_nat (unat d + 1)" "?p + 1 / 2"] p unfolding d1(2) by simp
  then have "int (unat d + 1) \<le> \<lfloor>rnd (?p + 1 / 2)\<rfloor>" by (simp add: le_floor_iff)
  moreover have "\<lfloor>rnd (?p + 1 / 2)\<rfloor> < 2 ^ 64"
  proof -
    have "?p + 1 / 2 \<le> of_nat (2 ^ 53)" using assms(4) by simp
    from rnd_mono [OF assms(1) this] have "rnd (?p + 1 / 2) \<le> 2 ^ 53" using rnd_nat [OF assms(1), of "2 ^ 53"] by simp
    then have "rnd (?p + 1 / 2) < 2 ^ 64" by simp
    then show ?thesis by (simp add: floor_less_iff)
  qed
  ultimately have "int (unat d + 1) \<le> uint (computePtoMs rnd d l)"
    unfolding computePtoMs_def by (subst uint_of_int) linarith+
  then have "unat d + 1 \<le> unat (computePtoMs rnd d l)" unfolding uint_nat of_nat_le_iff .
  moreover have "kGranularityMs \<le> lossTimeThresholdMs rnd l" by (simp add: lossTimeThresholdMs_def Let_def)
  ultimately show ?thesis by simp
qed

theorem timers_bounded_below_witness:
  "kGranularityMs \<le> lossTimeThresholdMs round_1024 newLossRecovery \<and>
   unat (25 :: u64) + 1 \<le> unat (computePtoMs round_1024 25 newLossRecovery)"
proof (rule timers_bounded_below [OF round_1024_double])
  have "computePtoMsExact round_1024 25 newLossRecovery = 1024"
    by (simp add: computePtoMsExact_def newLossRecovery_def kInitialRttMs_def kGranularityMs_def round_1024_def Let_def)
  then show "computePtoMsExact round_1024 25 newLossRecovery < 2 ^ 52" by simp
qed (simp_all add: newLossRecovery_def kInitialRttMs_def)

end
