(* ===== verification/Sw_RingBuffer.thy ===== *)
theory Sw_RingBuffer
  imports Sw_ByteArray
begin

text \<open>
  \<open>SwByteRingBuffer\<close> (\<open>src/core/types/SwByteRingBuffer.h\<close>), the byte queue of the stream sockets:
  a growing circular buffer. The theory shows that every operation acts on the queue the
  buffer represents as the corresponding list operation does, wherever the data wraps around
  and whenever the storage is reallocated. What a client relies on is the locale
  \<open>byte_queue\<close>; any interleaving of writes and reads delivers the bytes in order.

  The doubling of the capacity is computed in \<open>std::size_t\<close>, with its wrap-around, and may then
  not end; \<open>None\<close> stands for that. It ends for every required capacity up to \<open>2 ^ 63\<close>, more than
  a \<open>std::vector<char>\<close> can hold.
\<close>

record SwByteRingBuffer =
  m_buffer :: bytes
  m_head :: nat
  m_size :: nat

definition newRing :: SwByteRingBuffer where
  "newRing = \<lparr>m_buffer = [], m_head = 0, m_size = 0\<rparr>"




definition physicalIndex :: "SwByteRingBuffer \<Rightarrow> nat \<Rightarrow> nat" where
  "physicalIndex b logicalOffset =
     (let capacity = length (m_buffer b) in
      if capacity = 0 then 0
      else let index = m_head b + logicalOffset in if index \<ge> capacity then index - capacity else index)"

text \<open>\<open>std::memcpy(dest + at, src, length src)\<close>.\<close>

definition memcpy :: "bytes \<Rightarrow> nat \<Rightarrow> bytes \<Rightarrow> bytes" where
  "memcpy dest at src = take at dest @ src @ drop (at + length src) dest"

definition copyRangeTo :: "SwByteRingBuffer \<Rightarrow> nat \<Rightarrow> bytes \<Rightarrow> nat \<Rightarrow> bytes" where
  "copyRangeTo b off dest len =
     (if len = 0 \<or> m_size b = 0 then dest
      else if off \<ge> m_size b then dest
      else
        let n = min len (m_size b - off);
            start = physicalIndex b off;
            first = min n (length (m_buffer b) - start);
            dest1 = memcpy dest 0 (take first (drop start (m_buffer b)))
        in if first < n then memcpy dest1 first (take (n - first) (m_buffer b)) else dest1)"

definition copyTo :: "SwByteRingBuffer \<Rightarrow> bytes \<Rightarrow> nat \<Rightarrow> bytes" where
  "copyTo b dest len = copyRangeTo b 0 dest len"

definition reallocate :: "nat \<Rightarrow> SwByteRingBuffer \<Rightarrow> SwByteRingBuffer" where
  "reallocate capacity b =
     (let next = replicate capacity 0;
          next1 = (if m_size b \<noteq> 0 then copyTo b next (m_size b) else next)
      in b\<lparr>m_buffer := next1, m_head := 0\<rparr>)"

definition reserve :: "nat \<Rightarrow> SwByteRingBuffer \<Rightarrow> SwByteRingBuffer" where
  "reserve capacity b = (if capacity > length (m_buffer b) then reallocate capacity b else b)"

partial_function (option) growCapacity :: "nat \<Rightarrow> nat \<Rightarrow> nat option" where
  "growCapacity nextCapacity required =
     (if nextCapacity < required then growCapacity (nextCapacity * 2 mod 2 ^ 64) required
      else Some nextCapacity)"

definition ensureCapacity :: "nat \<Rightarrow> SwByteRingBuffer \<Rightarrow> SwByteRingBuffer option" where
  "ensureCapacity required b =
     (if required \<le> length (m_buffer b) then Some b
      else map_option (\<lambda>c. reallocate c b)
             (growCapacity (if m_buffer b = [] then 4096 else length (m_buffer b)) required))"

definition ring_append :: "bytes \<Rightarrow> SwByteRingBuffer \<Rightarrow> SwByteRingBuffer option" where
  "ring_append d b =
     (if d = [] then Some b
      else map_option (\<lambda>b1.
        let tail = physicalIndex b1 (m_size b1);
            first = min (length d) (length (m_buffer b1) - tail);
            buf1 = memcpy (m_buffer b1) tail (take first d);
            buf2 = (if first < length d then memcpy buf1 0 (drop first d) else buf1)
        in b1\<lparr>m_buffer := buf2, m_size := m_size b1 + length d\<rparr>)
        (ensureCapacity ((m_size b + length d) mod 2 ^ 64) b))"













definition ring_consume :: "nat \<Rightarrow> SwByteRingBuffer \<Rightarrow> SwByteRingBuffer" where
  "ring_consume len b =
     (let consumed = min len (m_size b) in
      if consumed = 0 then b
      else let b1 = b\<lparr>m_head := physicalIndex b consumed, m_size := m_size b - consumed\<rparr>
           in if m_size b1 = 0 then b1\<lparr>m_head := 0\<rparr> else b1)"

definition ring_read :: "nat \<Rightarrow> SwByteRingBuffer \<Rightarrow> bytes \<times> SwByteRingBuffer" where
  "ring_read maxLength b =
     (let n = min maxLength (m_size b) in
      if n = 0 then ([], b) else (copyTo b (replicate n 0) n, ring_consume n b))"



definition toByteArray :: "SwByteRingBuffer \<Rightarrow> bytes" where
  "toByteArray b = (if m_size b = 0 then [] else copyTo b (replicate (m_size b) 0) (m_size b))"

subsection \<open>The queue a buffer represents\<close>

definition ring_inv :: "SwByteRingBuffer \<Rightarrow> bool" where
  "ring_inv b \<longleftrightarrow> m_size b \<le> length (m_buffer b) \<and> (m_head b < length (m_buffer b) \<or> m_head b = 0)"

definition contents :: "SwByteRingBuffer \<Rightarrow> bytes" where
  "contents b = map (\<lambda>i. m_buffer b ! physicalIndex b i) [0..<m_size b]"

lemma length_contents [simp]: "length (contents b) = m_size b"
  by (simp add: contents_def)

lemma contents_nth: "i < m_size b \<Longrightarrow> contents b ! i = m_buffer b ! physicalIndex b i"
  by (simp add: contents_def)

lemma contents_empty: "contents b = [] \<longleftrightarrow> m_size b = 0"
  using length_contents [of b] by (metis length_0_conv)

lemma length_memcpy: "at + length src \<le> length dest \<Longrightarrow> length (memcpy dest at src) = length dest"
  by (simp add: memcpy_def)

lemma memcpy_nth:
  assumes "at + length src \<le> length dest" and "i < length dest"
  shows "memcpy dest at src ! i = (if at \<le> i \<and> i < at + length src then src ! (i - at) else dest ! i)"
  using assms by (auto simp: memcpy_def nth_append min_def)

lemma physicalIndex_less: "ring_inv b \<Longrightarrow> i < m_size b \<Longrightarrow> physicalIndex b i < length (m_buffer b)"
  by (auto simp: ring_inv_def physicalIndex_def Let_def)

text \<open>The two pieces a range is copied in are the range.\<close>

lemma copyRangeTo_eq:
  assumes inv: "ring_inv b" and n: "off + n \<le> m_size b" "n \<le> length dest"
  shows "copyRangeTo b off dest n = take n (drop off (contents b)) @ drop n dest"
proof (cases "n = 0")
  case True
  then show ?thesis by (simp add: copyRangeTo_def)
next
  case False
  let ?s = "physicalIndex b off" and ?cap = "length (m_buffer b)"
  let ?first = "min n (?cap - ?s)"
  let ?A = "take ?first (drop ?s (m_buffer b))" and ?B = "take (n - ?first) (m_buffer b)"
  have s: "?s < ?cap" using physicalIndex_less [OF inv, of off] n False by simp
  have cap: "m_size b \<le> ?cap" "m_head b < ?cap" using inv s by (auto simp: ring_inv_def)
  have lA: "length ?A = ?first" using s by simp
  have lB: "length ?B = n - ?first" using cap n by simp
  have eq: "?A @ ?B = take n (drop off (contents b))"
  proof (rule nth_equalityI)
    show "length (?A @ ?B) = length (take n (drop off (contents b)))" using lA lB n by simp
    fix i assume "i < length (?A @ ?B)"
    then have i: "i < n" using lA lB by simp
    have "take n (drop off (contents b)) ! i = m_buffer b ! physicalIndex b (off + i)"
      using i n by (simp add: contents_nth)
    also have "\<dots> = (?A @ ?B) ! i"
      using i n s cap lA by (auto simp: nth_append physicalIndex_def Let_def min_def intro!: arg_cong [of _ _ "nth (m_buffer b)"])
    finally show "(?A @ ?B) ! i = take n (drop off (contents b)) ! i" by simp
  qed
  have m: "min n (m_size b - off) = n" using n by simp
  have c: "copyRangeTo b off dest n = (if ?first < n then memcpy (memcpy dest 0 ?A) ?first ?B else memcpy dest 0 ?A)"
    using False n unfolding copyRangeTo_def m Let_def by simp
  have "copyRangeTo b off dest n = ?A @ ?B @ drop n dest"
  proof (cases "?first < n")
    case True
    have "memcpy (memcpy dest 0 ?A) ?first ?B = ?A @ ?B @ drop n dest"
      using lA lB n(2) True by (simp add: memcpy_def)
    then show ?thesis unfolding c using True by presburger
  next
    case f: False
    then have "n - ?first = 0" by simp
    then have "?B = []" by simp
    moreover have "memcpy dest 0 ?A = ?A @ drop n dest" using lA f by (simp add: memcpy_def)
    ultimately show ?thesis unfolding c using f by simp
  qed
  then show ?thesis using eq by (metis append_assoc)
qed

lemma copyTo_eq:
  assumes "ring_inv b" and "n \<le> m_size b" and "n \<le> length dest"
  shows "copyTo b dest n = take n (contents b) @ drop n dest"
  using copyRangeTo_eq [of b 0 n dest] assms by (simp add: copyTo_def)

lemma reallocate_ok:
  assumes "ring_inv b" and "m_size b \<le> c"
  shows "ring_inv (reallocate c b)" and "contents (reallocate c b) = contents b"
    and "m_size (reallocate c b) = m_size b" and "length (m_buffer (reallocate c b)) = c"
proof -
  let ?next = "if m_size b \<noteq> 0 then copyTo b (replicate c 0) (m_size b) else replicate c 0"
  have n: "?next = contents b @ replicate (c - m_size b) 0"
    using copyTo_eq [OF assms(1), of "m_size b" "replicate c 0"] assms(2) by (auto simp: contents_empty)
  have r: "reallocate c b = b\<lparr>m_buffer := contents b @ replicate (c - m_size b) 0, m_head := 0\<rparr>"
    unfolding reallocate_def Let_def n ..
  show "ring_inv (reallocate c b)" "m_size (reallocate c b) = m_size b" "length (m_buffer (reallocate c b)) = c"
    using assms(2) by (auto simp: r ring_inv_def)
  show "contents (reallocate c b) = contents b"
  proof (rule nth_equalityI)
    fix i assume "i < length (contents (reallocate c b))"
    then have i: "i < m_size b" by (simp add: r)
    then have "physicalIndex (reallocate c b) i = i" using assms(2) by (simp add: r physicalIndex_def Let_def)
    then have "contents (reallocate c b) ! i = m_buffer (reallocate c b) ! i"
      using contents_nth [of i "reallocate c b"] i by (simp add: r)
    then show "contents (reallocate c b) ! i = contents b ! i" using i by (simp add: r nth_append)
  qed (simp add: r)
qed

lemma growCapacity_ok:
  assumes "0 < c" and "c \<le> 2 ^ 63" and "req \<le> 2 ^ 63"
  shows "\<exists>c'. growCapacity c req = Some c' \<and> req \<le> c' \<and> c \<le> c'"
  using assms
proof (induction "req - c" arbitrary: c rule: less_induct)
  case less
  show ?case
  proof (cases "c < req")
    case True
    then have "c * 2 mod 2 ^ 64 = c * 2" using less.prems by simp
    moreover have "\<exists>c'. growCapacity (c * 2) req = Some c' \<and> req \<le> c' \<and> c * 2 \<le> c'" if "c * 2 \<le> 2 ^ 63"
      using less.hyps [of "c * 2"] less.prems True that by auto
    moreover have "growCapacity (c * 2) req = Some (c * 2)" if "\<not> c * 2 \<le> 2 ^ 63"
      using that less.prems by (subst growCapacity.simps) simp
    ultimately show ?thesis
      using True less.prems by (subst growCapacity.simps) (cases "c * 2 \<le> 2 ^ 63"; force)
  next
    case False
    then show ?thesis by (subst growCapacity.simps) simp
  qed
qed

lemma growCapacity_bound:
  assumes "growCapacity c req = Some c'" and "req \<le> 2 ^ 62" and "c \<le> 2 ^ 63"
  shows "c' \<le> 2 ^ 63"
proof -
  have "c' \<le> 2 ^ 63" if "c \<le> 2 ^ 63" "req \<le> 2 ^ 62"
    using assms(1) that
  proof (induction rule: growCapacity.raw_induct [rotated, consumes 1])
    case (1 grow c req c')
    show ?case
    proof (cases "c < req")
      case True
      then have "c * 2 mod 2 ^ 64 \<le> 2 ^ 63" using 1(4) by simp
      then show ?thesis using 1(1) [OF _ _ 1(4)] 1(2) True by simp
    qed (use 1 in simp)
  qed
  then show ?thesis using assms(2,3) by simp
qed

lemma ensureCapacity_ok:
  assumes "ring_inv b" and "req \<le> 2 ^ 63" and "m_size b \<le> req" and "length (m_buffer b) \<le> 2 ^ 63"
  shows "\<exists>b'. ensureCapacity req b = Some b' \<and> ring_inv b' \<and> contents b' = contents b \<and> m_size b' = m_size b \<and>
    req \<le> length (m_buffer b') \<and> (req \<le> 2 ^ 62 \<longrightarrow> length (m_buffer b') \<le> 2 ^ 63)"
proof (cases "req \<le> length (m_buffer b)")
  case True
  with assms show ?thesis by (simp add: ensureCapacity_def)
next
  case False
  let ?c = "if m_buffer b = [] then 4096 else length (m_buffer b)"
  have c: "0 < ?c" "?c \<le> 2 ^ 63" using assms(4) by auto
  then obtain c' where c': "growCapacity ?c req = Some c'" "req \<le> c'" using growCapacity_ok [of ?c req] assms(2) by blast
  have "req \<le> 2 ^ 62 \<longrightarrow> c' \<le> 2 ^ 63" using growCapacity_bound [OF c'(1) _ c(2)] by blast
  with False assms c' reallocate_ok [OF assms(1), of c'] show ?thesis by (simp add: ensureCapacity_def)
qed

lemma append_room:
  assumes inv: "ring_inv b" and room: "m_size b + length d \<le> length (m_buffer b)" and d: "d \<noteq> []"
  defines "tail \<equiv> physicalIndex b (m_size b)"
  defines "first \<equiv> min (length d) (length (m_buffer b) - tail)"
  defines "buf \<equiv> (if first < length d then memcpy (memcpy (m_buffer b) tail (take first d)) 0 (drop first d)
     else memcpy (m_buffer b) tail (take first d))"
  shows "ring_inv (b\<lparr>m_buffer := buf, m_size := m_size b + length d\<rparr>)"
    and "contents (b\<lparr>m_buffer := buf, m_size := m_size b + length d\<rparr>) = contents b @ d"
    and "length buf = length (m_buffer b)"
proof -
  let ?cap = "length (m_buffer b)" and ?b = "b\<lparr>m_buffer := buf, m_size := m_size b + length d\<rparr>"
  have cap: "m_size b < ?cap" "m_head b < ?cap" using room d inv by (cases d; auto simp: ring_inv_def)+
  have tail: "tail < ?cap" "tail = (if m_head b + m_size b \<ge> ?cap then m_head b + m_size b - ?cap else m_head b + m_size b)"
    using cap by (auto simp: tail_def physicalIndex_def Let_def)
  have l1: "tail + length (take first d) \<le> ?cap" using tail by (simp add: first_def)
  have l2: "0 + length (drop first d) \<le> length (memcpy (m_buffer b) tail (take first d))" if "first < length d"
    using length_memcpy [OF l1] room that by simp
  show len: "length buf = ?cap" using length_memcpy [OF l1] length_memcpy [OF l2] by (auto simp: buf_def)
  show "ring_inv ?b" using len room cap by (simp add: ring_inv_def)
  have nth: "buf ! j = (if tail \<le> j \<and> j < tail + first then d ! (j - tail)
      else if first < length d \<and> j < length d - first then d ! (first + j) else m_buffer b ! j)" if "j < ?cap" for j
  proof (cases "first < length d")
    case True
    then have "first = ?cap - tail" by (simp add: first_def min_def split: if_splits)
    then have low: "length d - first \<le> tail" using True room tail by simp
    have lens: "length (take first d) = first" "length (drop first d) = length d - first" using True by simp_all
    have nt: "take first d ! (j - tail) = d ! (j - tail)" if "tail \<le> j" "j < tail + first" using that by simp
    have nd: "drop first d ! j = d ! (first + j)" if "j < length d - first" using that by simp
    have b: "buf ! j = (if j < length d - first then drop first d ! j
        else if tail \<le> j \<and> j < tail + first then take first d ! (j - tail) else m_buffer b ! j)"
      using True that memcpy_nth [OF l1 that] memcpy_nth [OF l2 [OF True], of j] length_memcpy [OF l1]
      unfolding buf_def lens by simp
    show ?thesis unfolding b using True low nt nd by auto
  next
    case False
    then have "first = length d" by (simp add: first_def min_def split: if_splits)
    then show ?thesis using that memcpy_nth [OF l1 that] by (simp add: buf_def)
  qed
  show "contents ?b = contents b @ d"
  proof (rule nth_equalityI)
    fix i assume "i < length (contents ?b)"
    then have i: "i < m_size b + length d" by simp
    define j where "j = (if m_head b + i \<ge> ?cap then m_head b + i - ?cap else m_head b + i)"
    have p: "physicalIndex ?b i = j" "physicalIndex b i = j" "j < ?cap"
      using cap len i room by (auto simp: physicalIndex_def Let_def j_def)
    have "buf ! j = (contents b @ d) ! i"
    proof (cases "i < m_size b")
      case True
      then have "\<not> (tail \<le> j \<and> j < tail + first)" "\<not> (first < length d \<and> j < length d - first)"
        using tail cap room by (auto simp: j_def first_def min_def split: if_splits)
      with True p show ?thesis using nth [of j] by (auto simp: nth_append contents_nth)
    next
      case False
      then have "i - m_size b < length d" using i by simp
      moreover have "(tail \<le> j \<and> j < tail + first \<and> j - tail = i - m_size b) \<or>
          (\<not> (tail \<le> j \<and> j < tail + first) \<and> first < length d \<and> j < length d - first \<and> first + j = i - m_size b)"
        using False i tail cap room by (auto simp: j_def first_def min_def split: if_splits)
      ultimately show ?thesis using False p by (auto simp: nth nth_append)
    qed
    then show "contents ?b ! i = (contents b @ d) ! i" using i p by (simp add: contents_nth [of i ?b])
  qed simp
qed

lemma ring_append_ok:
  assumes "ring_inv b" and "m_size b + length d \<le> 2 ^ 63" and "length (m_buffer b) \<le> 2 ^ 63"
  shows "\<exists>b'. ring_append d b = Some b' \<and> ring_inv b' \<and> contents b' = contents b @ d \<and>
    (m_size b + length d \<le> 2 ^ 62 \<longrightarrow> length (m_buffer b') \<le> 2 ^ 63)"
proof (cases "d = []")
  case True
  with assms show ?thesis by (simp add: ring_append_def)
next
  case False
  have m: "(m_size b + length d) mod 2 ^ 64 = m_size b + length d" using assms(2) by simp
  obtain b1 where b1: "ensureCapacity (m_size b + length d) b = Some b1" "ring_inv b1" "contents b1 = contents b"
    "m_size b1 = m_size b" "m_size b + length d \<le> length (m_buffer b1)"
    "m_size b + length d \<le> 2 ^ 62 \<longrightarrow> length (m_buffer b1) \<le> 2 ^ 63"
    using ensureCapacity_ok [OF assms(1,2) _ assms(3)] by auto
  have "m_size b1 + length d \<le> length (m_buffer b1)" using b1 by simp
  from append_room [OF b1(2) this False] False b1 show ?thesis
    unfolding ring_append_def m by (simp add: Let_def)
qed

lemma ring_consume_ok:
  assumes inv: "ring_inv b"
  shows "ring_inv (ring_consume n b)" and "contents (ring_consume n b) = drop n (contents b)"
    and "m_buffer (ring_consume n b) = m_buffer b"
proof -
  let ?k = "min n (m_size b)" and ?cap = "length (m_buffer b)"
  show "m_buffer (ring_consume n b) = m_buffer b" by (simp add: ring_consume_def Let_def)
  have "ring_inv (ring_consume n b) \<and> contents (ring_consume n b) = drop n (contents b)"
  proof (cases "?k = 0 \<or> ?k = m_size b")
    case True
    then have "ring_consume n b = b \<and> (n = 0 \<or> m_size b = 0) \<or>
        ring_consume n b = b\<lparr>m_head := 0, m_size := 0\<rparr> \<and> m_size b \<le> n"
      by (auto simp: ring_consume_def Let_def min_def split: if_splits)
    then show ?thesis using inv by (auto simp: ring_inv_def contents_def)
  next
    case False
    then have k: "?k = n" "0 < n" "n < m_size b" by auto
    let ?h = "physicalIndex b n" and ?b = "b\<lparr>m_head := physicalIndex b n, m_size := m_size b - n\<rparr>"
    have cap: "m_size b \<le> ?cap" "m_head b < ?cap" using inv k by (auto simp: ring_inv_def)
    have r: "ring_consume n b = ?b" using k by (simp add: ring_consume_def Let_def)
    have "?h < ?cap" using physicalIndex_less [OF inv k(3)] .
    moreover have "physicalIndex ?b i = physicalIndex b (n + i)" if "i < m_size b - n" for i
      using that cap by (auto simp: physicalIndex_def Let_def)
    ultimately show ?thesis
      using cap unfolding r by (auto simp: ring_inv_def contents_def drop_map intro!: nth_equalityI)
  qed
  then show "ring_inv (ring_consume n b)" "contents (ring_consume n b) = drop n (contents b)" by simp_all
qed

lemma ring_read_ok:
  assumes "ring_inv b"
  shows "fst (ring_read n b) = take n (contents b)" and "contents (snd (ring_read n b)) = drop n (contents b)"
    and "ring_inv (snd (ring_read n b))" and "m_buffer (snd (ring_read n b)) = m_buffer b"
proof -
  let ?k = "min n (m_size b)"
  have t: "take ?k (contents b) = take n (contents b)" "drop ?k (contents b) = drop n (contents b)"
    by (simp_all add: min_def)
  show "fst (ring_read n b) = take n (contents b)"
    using copyTo_eq [OF assms, of ?k "replicate ?k 0"] t(1) by (auto simp: ring_read_def Let_def contents_empty)
  show "contents (snd (ring_read n b)) = drop n (contents b)"
    using ring_consume_ok(2) [OF assms, of ?k] t(2) by (auto simp: ring_read_def Let_def contents_empty)
  show "ring_inv (snd (ring_read n b))" "m_buffer (snd (ring_read n b)) = m_buffer b"
    using ring_consume_ok(1,3) [OF assms] assms by (simp_all add: ring_read_def Let_def)
qed

lemma toByteArray_eq: "ring_inv b \<Longrightarrow> toByteArray b = contents b"
  using copyTo_eq [of b "m_size b" "replicate (m_size b) 0"] by (auto simp: toByteArray_def contents_def)




subsection \<open>Bounds of the storage\<close>

definition storage_ok :: "SwByteRingBuffer \<Rightarrow> bool" where
  "storage_ok b \<longleftrightarrow> ring_inv b \<and> length (m_buffer b) \<le> 2 ^ 63"

lemma append_storage:
  assumes "storage_ok b" and "m_size b + length d \<le> 2 ^ 62"
  shows "\<exists>b'. ring_append d b = Some b' \<and> storage_ok b' \<and> contents b' = contents b @ d"
proof -
  have "m_size b + length d \<le> 2 ^ 63" using assms(2) by simp
  then show ?thesis using ring_append_ok [of b d] assms by (auto simp: storage_ok_def)
qed

lemma reserve_storage:
  assumes "storage_ok b" and "n \<le> 2 ^ 63"
  shows "storage_ok (reserve n b)" and "contents (reserve n b) = contents b"
proof -
  have "m_size b \<le> n" if "n > length (m_buffer b)" using that assms(1) by (simp add: storage_ok_def ring_inv_def)
  then show "storage_ok (reserve n b)" "contents (reserve n b) = contents b"
    using assms reallocate_ok [of b n] by (auto simp: storage_ok_def reserve_def)
qed

subsection \<open>The contract of a byte queue\<close>

datatype queue_op = Write bytes | Read nat | Reserve nat

fun written :: "queue_op list \<Rightarrow> bytes" where
  "written [] = []"
| "written (Write d # ops) = d @ written ops"
| "written (_ # ops) = written ops"

fun reserved :: "queue_op list \<Rightarrow> nat" where
  "reserved [] = 0"
| "reserved (Reserve n # ops) = max n (reserved ops)"
| "reserved (_ # ops) = reserved ops"

text \<open>Running a sequence of operations; the result is what was read, and the queue.\<close>

fun runQueue ::
  "(bytes \<Rightarrow> 'q \<Rightarrow> 'q option) \<Rightarrow> (nat \<Rightarrow> 'q \<Rightarrow> bytes \<times> 'q) \<Rightarrow> (nat \<Rightarrow> 'q \<Rightarrow> 'q) \<Rightarrow> queue_op list \<Rightarrow> 'q \<Rightarrow> (bytes \<times> 'q) option" where
  "runQueue app rd rsv [] q = Some ([], q)"
| "runQueue app rd rsv (Write d # ops) q = (case app d q of None \<Rightarrow> None | Some q' \<Rightarrow> runQueue app rd rsv ops q')"
| "runQueue app rd rsv (Read n # ops) q =
     (case rd n q of (bs, q') \<Rightarrow> map_option (\<lambda>(out, q''). (bs @ out, q'')) (runQueue app rd rsv ops q'))"
| "runQueue app rd rsv (Reserve n # ops) q = runQueue app rd rsv ops (rsv n q)"

locale byte_queue =
  fixes inv :: "'q \<Rightarrow> bool"
    and abs :: "'q \<Rightarrow> bytes"
    and app :: "bytes \<Rightarrow> 'q \<Rightarrow> 'q option"
    and rd :: "nat \<Rightarrow> 'q \<Rightarrow> bytes \<times> 'q"
    and rsv :: "nat \<Rightarrow> 'q \<Rightarrow> 'q"
    and limit :: nat
  assumes app_law: "inv q \<Longrightarrow> length (abs q) + length d \<le> limit \<Longrightarrow>
      \<exists>q'. app d q = Some q' \<and> inv q' \<and> abs q' = abs q @ d"
    and rd_law: "inv q \<Longrightarrow> rd n q = (bs, q') \<Longrightarrow> inv q' \<and> bs = take n (abs q) \<and> abs q' = drop n (abs q)"
    and rsv_law: "inv q \<Longrightarrow> n \<le> limit \<Longrightarrow> inv (rsv n q) \<and> abs (rsv n q) = abs q"
begin

lemma run_in_order:
  assumes "inv q" and "length (abs q) + length (written ops) \<le> limit" and "reserved ops \<le> limit"
  shows "\<exists>out q'. runQueue app rd rsv ops q = Some (out, q') \<and> inv q' \<and> abs q @ written ops = out @ abs q'"
  using assms
proof (induction ops arbitrary: q)
  case (Cons x ops)
  show ?case
  proof (cases x)
    case (Write d)
    then obtain q1 where q1: "app d q = Some q1" "inv q1" "abs q1 = abs q @ d"
      using app_law [OF Cons.prems(1), of d] Cons.prems(2) by auto
    then show ?thesis using Cons.IH [OF q1(2)] Cons.prems Write by auto
  next
    case (Read n)
    obtain bs q1 where r: "rd n q = (bs, q1)" by fastforce
    note l = rd_law [OF Cons.prems(1) r]
    have "length (abs q1) + length (written ops) \<le> limit" "reserved ops \<le> limit" using l Cons.prems Read by auto
    then obtain out q' where o: "runQueue app rd rsv ops q1 = Some (out, q')" "inv q'" "abs q1 @ written ops = out @ abs q'"
      using Cons.IH l by blast
    have "abs q @ written ops = bs @ abs q1 @ written ops" using l by simp
    then show ?thesis using o r Read by auto
  next
    case (Reserve n)
    then show ?thesis using Cons.IH [of "rsv n q"] rsv_law [OF Cons.prems(1), of n] Cons.prems by auto
  qed
qed simp

end

interpretation ring_queue: byte_queue storage_ok contents ring_append ring_read reserve "2 ^ 62"
proof
  show "\<exists>q'. ring_append d q = Some q' \<and> storage_ok q' \<and> contents q' = contents q @ d"
    if "storage_ok q" "length (contents q) + length d \<le> 2 ^ 62" for q d
    using append_storage that by simp
  show "storage_ok q' \<and> bs = take n (contents q) \<and> contents q' = drop n (contents q)"
    if "storage_ok q" "ring_read n q = (bs, q')" for q n bs q'
    using ring_read_ok [of q n] that by (simp add: storage_ok_def)
  show "storage_ok (reserve n q) \<and> contents (reserve n q) = contents q" if "storage_ok q" "n \<le> 2 ^ 62" for q n
    using reserve_storage [of q n] that by simp
qed

subsection \<open>Properties\<close>

text \<open>
  C30. From an empty buffer, any interleaving of writes, reads and reservations terminates
  without losing, duplicating or reordering a byte: what was read, followed by what the
  buffer still holds, is what was written.
\<close>

theorem ring_in_order:
  assumes "length (written ops) \<le> 2 ^ 62" and "reserved ops \<le> 2 ^ 62"
  shows "\<exists>out b. runQueue ring_append ring_read reserve ops newRing = Some (out, b) \<and> written ops = out @ toByteArray b"
proof -
  have new: "storage_ok newRing" "contents newRing = []"
    by (simp_all add: storage_ok_def ring_inv_def newRing_def contents_def)
  obtain out b where "runQueue ring_append ring_read reserve ops newRing = Some (out, b)" "storage_ok b"
    "written ops = out @ contents b"
    using ring_queue.run_in_order [OF new(1), of ops] assms by (auto simp: new(2))
  then show ?thesis using toByteArray_eq [of b] by (auto simp: storage_ok_def)
qed

theorem ring_in_order_witness:
  "\<exists>out b. runQueue ring_append ring_read reserve [Reserve 4, Write [1, 2, 3], Read 2, Write [4, 5, 6]] newRing = Some (out, b) \<and>
     written [Reserve 4, Write [1, 2, 3], Read 2, Write [4, 5, 6]] = out @ toByteArray b"
  by (rule ring_in_order) simp_all









end
