(* ===== verification/Hpack_Huffman.thy ===== *)
theory Hpack_Huffman
  imports Sw_Map "HOL-Library.Sublist"
begin

text \<open>
  \<open>SwHpackHuffman\<close> (\<open>src/core/io/http3/SwHpackHuffman.h\<close>): the Huffman code of HPACK and QPACK
  string literals. The encoder shifts the code words through a 64-bit buffer; the decoder
  collects bits and asks a map from length and value of the collected bits to the symbol.

  The theory computes that the table is a complete canonical code, so that no code word is a
  prefix of another. What the decoder relies on is the locale \<open>prefix_code\<close>; it gives that
  decoding is exactly the inverse of encoding: a byte string decodes if and only if it is
  the encoding of the result.
\<close>

subsection \<open>The table\<close>

text \<open>A \<open>Code\<close> is the pair of its bits and its length. The rows of the table, 32 entries at a time.\<close>

type_synonym Code = "u32 \<times> u8"

definition table_0 :: "Code list" where
  "table_0 = [
    (0x1ff8, 13), (0x7fffd8, 23), (0xfffffe2, 28), (0xfffffe3, 28), (0xfffffe4, 28), (0xfffffe5,
    28), (0xfffffe6, 28), (0xfffffe7, 28), (0xfffffe8, 28), (0xffffea, 24), (0x3ffffffc, 30),
    (0xfffffe9, 28), (0xfffffea, 28), (0x3ffffffd, 30), (0xfffffeb, 28), (0xfffffec, 28),
    (0xfffffed, 28), (0xfffffee, 28), (0xfffffef, 28), (0xffffff0, 28), (0xffffff1, 28), (0xffffff2,
    28), (0x3ffffffe, 30), (0xffffff3, 28), (0xffffff4, 28), (0xffffff5, 28), (0xffffff6, 28),
    (0xffffff7, 28), (0xffffff8, 28), (0xffffff9, 28), (0xffffffa, 28), (0xffffffb, 28)]"

definition table_1 :: "Code list" where
  "table_1 = [
    (0x14, 6), (0x3f8, 10), (0x3f9, 10), (0xffa, 12), (0x1ff9, 13), (0x15, 6), (0xf8, 8), (0x7fa,
    11), (0x3fa, 10), (0x3fb, 10), (0xf9, 8), (0x7fb, 11), (0xfa, 8), (0x16, 6), (0x17, 6), (0x18,
    6), (0x0, 5), (0x1, 5), (0x2, 5), (0x19, 6), (0x1a, 6), (0x1b, 6), (0x1c, 6), (0x1d, 6), (0x1e,
    6), (0x1f, 6), (0x5c, 7), (0xfb, 8), (0x7ffc, 15), (0x20, 6), (0xffb, 12), (0x3fc, 10)]"

definition table_2 :: "Code list" where
  "table_2 = [
    (0x1ffa, 13), (0x21, 6), (0x5d, 7), (0x5e, 7), (0x5f, 7), (0x60, 7), (0x61, 7), (0x62, 7),
    (0x63, 7), (0x64, 7), (0x65, 7), (0x66, 7), (0x67, 7), (0x68, 7), (0x69, 7), (0x6a, 7), (0x6b,
    7), (0x6c, 7), (0x6d, 7), (0x6e, 7), (0x6f, 7), (0x70, 7), (0x71, 7), (0x72, 7), (0xfc, 8),
    (0x73, 7), (0xfd, 8), (0x1ffb, 13), (0x7fff0, 19), (0x1ffc, 13), (0x3ffc, 14), (0x22, 6)]"

definition table_3 :: "Code list" where
  "table_3 = [
    (0x7ffd, 15), (0x3, 5), (0x23, 6), (0x4, 5), (0x24, 6), (0x5, 5), (0x25, 6), (0x26, 6), (0x27,
    6), (0x6, 5), (0x74, 7), (0x75, 7), (0x28, 6), (0x29, 6), (0x2a, 6), (0x7, 5), (0x2b, 6), (0x76,
    7), (0x2c, 6), (0x8, 5), (0x9, 5), (0x2d, 6), (0x77, 7), (0x78, 7), (0x79, 7), (0x7a, 7), (0x7b,
    7), (0x7ffe, 15), (0x7fc, 11), (0x3ffd, 14), (0x1ffd, 13), (0xffffffc, 28)]"

definition table_4 :: "Code list" where
  "table_4 = [
    (0xfffe6, 20), (0x3fffd2, 22), (0xfffe7, 20), (0xfffe8, 20), (0x3fffd3, 22), (0x3fffd4, 22),
    (0x3fffd5, 22), (0x7fffd9, 23), (0x3fffd6, 22), (0x7fffda, 23), (0x7fffdb, 23), (0x7fffdc, 23),
    (0x7fffdd, 23), (0x7fffde, 23), (0xffffeb, 24), (0x7fffdf, 23), (0xffffec, 24), (0xffffed, 24),
    (0x3fffd7, 22), (0x7fffe0, 23), (0xffffee, 24), (0x7fffe1, 23), (0x7fffe2, 23), (0x7fffe3, 23),
    (0x7fffe4, 23), (0x1fffdc, 21), (0x3fffd8, 22), (0x7fffe5, 23), (0x3fffd9, 22), (0x7fffe6, 23),
    (0x7fffe7, 23), (0xffffef, 24)]"

definition table_5 :: "Code list" where
  "table_5 = [
    (0x3fffda, 22), (0x1fffdd, 21), (0xfffe9, 20), (0x3fffdb, 22), (0x3fffdc, 22), (0x7fffe8, 23),
    (0x7fffe9, 23), (0x1fffde, 21), (0x7fffea, 23), (0x3fffdd, 22), (0x3fffde, 22), (0xfffff0, 24),
    (0x1fffdf, 21), (0x3fffdf, 22), (0x7fffeb, 23), (0x7fffec, 23), (0x1fffe0, 21), (0x1fffe1, 21),
    (0x3fffe0, 22), (0x1fffe2, 21), (0x7fffed, 23), (0x3fffe1, 22), (0x7fffee, 23), (0x7fffef, 23),
    (0xfffea, 20), (0x3fffe2, 22), (0x3fffe3, 22), (0x3fffe4, 22), (0x7ffff0, 23), (0x3fffe5, 22),
    (0x3fffe6, 22), (0x7ffff1, 23)]"

definition table_6 :: "Code list" where
  "table_6 = [
    (0x3ffffe0, 26), (0x3ffffe1, 26), (0xfffeb, 20), (0x7fff1, 19), (0x3fffe7, 22), (0x7ffff2, 23),
    (0x3fffe8, 22), (0x1ffffec, 25), (0x3ffffe2, 26), (0x3ffffe3, 26), (0x3ffffe4, 26), (0x7ffffde,
    27), (0x7ffffdf, 27), (0x3ffffe5, 26), (0xfffff1, 24), (0x1ffffed, 25), (0x7fff2, 19),
    (0x1fffe3, 21), (0x3ffffe6, 26), (0x7ffffe0, 27), (0x7ffffe1, 27), (0x3ffffe7, 26), (0x7ffffe2,
    27), (0xfffff2, 24), (0x1fffe4, 21), (0x1fffe5, 21), (0x3ffffe8, 26), (0x3ffffe9, 26),
    (0xffffffd, 28), (0x7ffffe3, 27), (0x7ffffe4, 27), (0x7ffffe5, 27)]"

definition table_7 :: "Code list" where
  "table_7 = [
    (0xfffec, 20), (0xfffff3, 24), (0xfffed, 20), (0x1fffe6, 21), (0x3fffe9, 22), (0x1fffe7, 21),
    (0x1fffe8, 21), (0x7ffff3, 23), (0x3fffea, 22), (0x3fffeb, 22), (0x1ffffee, 25), (0x1ffffef,
    25), (0xfffff4, 24), (0xfffff5, 24), (0x3ffffea, 26), (0x7ffff4, 23), (0x3ffffeb, 26),
    (0x7ffffe6, 27), (0x3ffffec, 26), (0x3ffffed, 26), (0x7ffffe7, 27), (0x7ffffe8, 27), (0x7ffffe9,
    27), (0x7ffffea, 27), (0x7ffffeb, 27), (0xffffffe, 28), (0x7ffffec, 27), (0x7ffffed, 27),
    (0x7ffffee, 27), (0x7ffffef, 27), (0x7fffff0, 27), (0x3ffffee, 26)]"

definition table_8 :: "Code list" where
  "table_8 = [
    (0x3fffffff, 30)]"

definition code_table :: "Code list" where
  "code_table = table_0 @ table_1 @ table_2 @ table_3 @ table_4 @ table_5 @ table_6 @ table_7 @ table_8"

subsection \<open>Encoding\<close>

text \<open>The inner loop of \<open>encode\<close>: whole bytes leave the buffer.\<close>

fun emitBytes :: "u64 \<Rightarrow> nat \<Rightarrow> bytes \<Rightarrow> nat \<times> bytes" where
  "emitBytes bitBuffer bitCount out =
     (if bitCount \<ge> 8
      then emitBytes bitBuffer (bitCount - 8) (out @ [ucast (drop_bit (bitCount - 8) bitBuffer AND 0xff)])
      else (bitCount, out))"

declare emitBytes.simps [simp del]

fun huffman_encode_loop :: "bytes \<Rightarrow> u64 \<Rightarrow> nat \<Rightarrow> bytes \<Rightarrow> u64 \<times> nat \<times> bytes" where
  "huffman_encode_loop [] bitBuffer bitCount out = (bitBuffer, bitCount, out)"
| "huffman_encode_loop (symbol # rest) bitBuffer bitCount out =
     (let code = code_table ! unat symbol;
          buffer = push_bit (unat (snd code)) bitBuffer OR ucast (fst code);
          (count, out') = emitBytes buffer (bitCount + unat (snd code)) out
      in huffman_encode_loop rest buffer count out')"

definition huffman_encode :: "bytes \<Rightarrow> bytes" where
  "huffman_encode input =
     (let (bitBuffer, bitCount, out) = huffman_encode_loop input 0 0 []
      in if bitCount > 0
         then let pad = 8 - bitCount;
                  buffer = push_bit pad bitBuffer OR (push_bit pad 1 - 1)
              in out @ [ucast (buffer AND 0xff)]
         else out)"

subsection \<open>Decoding\<close>

definition huffman_key :: "nat \<Rightarrow> u32 \<Rightarrow> u64" where
  "huffman_key len code = push_bit 32 (word_of_nat len) OR ucast code"

definition buildLookup :: "(u64, nat) smap" where
  "buildLookup = fold (\<lambda>symbol. smap_insert
     (huffman_key (unat (snd (code_table ! symbol))) (fst (code_table ! symbol))) symbol) [0..<257] []"

text \<open>The loop over the bits of one byte; \<open>ks\<close> are the bit positions still to read.\<close>

fun decodeByte_loop ::
  "nat \<Rightarrow> u8 \<Rightarrow> nat list \<Rightarrow> u32 \<Rightarrow> nat \<Rightarrow> bytes \<Rightarrow> string + (u32 \<times> nat \<times> bytes)" where
  "decodeByte_loop maxOutputBytes byte [] code len out = Inr (code, len, out)"
| "decodeByte_loop maxOutputBytes byte (k # ks) code len out =
     (let code' = push_bit 1 code OR ucast (drop_bit k byte AND 1); len' = len + 1
      in if len' > 30 then Inl ''HPACK Huffman code is invalid (no symbol within 30 bits)''
         else (case smap_find buildLookup (huffman_key len' code') of
                 None \<Rightarrow> decodeByte_loop maxOutputBytes byte ks code' len' out
               | Some symbol \<Rightarrow>
                   if symbol = 256 then Inl ''HPACK Huffman stream contains an explicit EOS symbol''
                   else if length out \<ge> maxOutputBytes
                   then Inl ''HPACK Huffman output exceeds the configured limit''
                   else decodeByte_loop maxOutputBytes byte ks 0 0 (out @ [word_of_nat symbol])))"

fun huffman_decode_loop ::
  "nat \<Rightarrow> bytes \<Rightarrow> u32 \<Rightarrow> nat \<Rightarrow> bytes \<Rightarrow> string + (u32 \<times> nat \<times> bytes)" where
  "huffman_decode_loop maxOutputBytes [] code len out = Inr (code, len, out)"
| "huffman_decode_loop maxOutputBytes (byte # rest) code len out =
     (case decodeByte_loop maxOutputBytes byte [7, 6, 5, 4, 3, 2, 1, 0] code len out of
        Inl e \<Rightarrow> Inl e
      | Inr (code', len', out') \<Rightarrow> huffman_decode_loop maxOutputBytes rest code' len' out')"

definition huffman_decode :: "nat \<Rightarrow> bytes \<Rightarrow> string + bytes" where
  "huffman_decode maxOutputBytes input =
     (case huffman_decode_loop maxOutputBytes input 0 0 [] of
        Inl e \<Rightarrow> Inl e
      | Inr (code, len, out) \<Rightarrow>
          if len > 0
          then if len > 7 then Inl ''HPACK Huffman padding is longer than 7 bits''
               else if code \<noteq> push_bit len 1 - 1 then Inl ''HPACK Huffman padding is not a prefix of EOS''
               else Inr out
          else Inr out)"

subsection \<open>The table is a canonical code\<close>

text \<open>
  The code words of one length are consecutive numbers in the order of their symbols.
  \<open>canonical c t\<close> runs through the table \<open>t\<close> with the next number \<open>c ! l\<close> of every length \<open>l\<close>.
\<close>

fun canonical :: "nat list \<Rightarrow> Code list \<Rightarrow> nat list option" where
  "canonical c [] = Some c"
| "canonical c ((b, l) # t) =
     (if unat l < length c \<and> c ! unat l = unat b then canonical (c[unat l := Suc (unat b)]) t else None)"

lemma canonical_append: "canonical c (t @ t') = Option.bind (canonical c t) (\<lambda>c. canonical c t')"
  by (induction c t rule: canonical.induct) auto

lemma canonical_0:
  "canonical [0, 0, 0, 0, 0, 0, 20, 92, 248, 508, 1016, 2042, 4090, 8184, 16380, 32764, 65534, 131068, 262136, 524272, 1048550, 2097116, 4194258, 8388568, 16777194, 33554412, 67108832, 134217694, 268435426, 536870910, 1073741820] table_0 =
   Some [0, 0, 0, 0, 0, 0, 20, 92, 248, 508, 1016, 2042, 4090, 8185, 16380, 32764, 65534, 131068, 262136, 524272, 1048550, 2097116, 4194258, 8388569, 16777195, 33554412, 67108832, 134217694, 268435452, 536870910, 1073741823]"
  by (simp add: table_0_def)

lemma canonical_1:
  "canonical [0, 0, 0, 0, 0, 0, 20, 92, 248, 508, 1016, 2042, 4090, 8185, 16380, 32764, 65534, 131068, 262136, 524272, 1048550, 2097116, 4194258, 8388569, 16777195, 33554412, 67108832, 134217694, 268435452, 536870910, 1073741823] table_1 =
   Some [0, 0, 0, 0, 0, 3, 33, 93, 252, 508, 1021, 2044, 4092, 8186, 16380, 32765, 65534, 131068, 262136, 524272, 1048550, 2097116, 4194258, 8388569, 16777195, 33554412, 67108832, 134217694, 268435452, 536870910, 1073741823]"
  by (simp add: table_1_def)

lemma canonical_2:
  "canonical [0, 0, 0, 0, 0, 3, 33, 93, 252, 508, 1021, 2044, 4092, 8186, 16380, 32765, 65534, 131068, 262136, 524272, 1048550, 2097116, 4194258, 8388569, 16777195, 33554412, 67108832, 134217694, 268435452, 536870910, 1073741823] table_2 =
   Some [0, 0, 0, 0, 0, 3, 35, 116, 254, 508, 1021, 2044, 4092, 8189, 16381, 32765, 65534, 131068, 262136, 524273, 1048550, 2097116, 4194258, 8388569, 16777195, 33554412, 67108832, 134217694, 268435452, 536870910, 1073741823]"
  by (simp add: table_2_def)

lemma canonical_3:
  "canonical [0, 0, 0, 0, 0, 3, 35, 116, 254, 508, 1021, 2044, 4092, 8189, 16381, 32765, 65534, 131068, 262136, 524273, 1048550, 2097116, 4194258, 8388569, 16777195, 33554412, 67108832, 134217694, 268435452, 536870910, 1073741823] table_3 =
   Some [0, 0, 0, 0, 0, 10, 46, 124, 254, 508, 1021, 2045, 4092, 8190, 16382, 32767, 65534, 131068, 262136, 524273, 1048550, 2097116, 4194258, 8388569, 16777195, 33554412, 67108832, 134217694, 268435453, 536870910, 1073741823]"
  by (simp add: table_3_def)

lemma canonical_4:
  "canonical [0, 0, 0, 0, 0, 10, 46, 124, 254, 508, 1021, 2045, 4092, 8190, 16382, 32767, 65534, 131068, 262136, 524273, 1048550, 2097116, 4194258, 8388569, 16777195, 33554412, 67108832, 134217694, 268435453, 536870910, 1073741823] table_4 =
   Some [0, 0, 0, 0, 0, 10, 46, 124, 254, 508, 1021, 2045, 4092, 8190, 16382, 32767, 65534, 131068, 262136, 524273, 1048553, 2097117, 4194266, 8388584, 16777200, 33554412, 67108832, 134217694, 268435453, 536870910, 1073741823]"
  by (simp add: table_4_def)

lemma canonical_5:
  "canonical [0, 0, 0, 0, 0, 10, 46, 124, 254, 508, 1021, 2045, 4092, 8190, 16382, 32767, 65534, 131068, 262136, 524273, 1048553, 2097117, 4194266, 8388584, 16777200, 33554412, 67108832, 134217694, 268435453, 536870910, 1073741823] table_5 =
   Some [0, 0, 0, 0, 0, 10, 46, 124, 254, 508, 1021, 2045, 4092, 8190, 16382, 32767, 65534, 131068, 262136, 524273, 1048555, 2097123, 4194279, 8388594, 16777201, 33554412, 67108832, 134217694, 268435453, 536870910, 1073741823]"
  by (simp add: table_5_def)

lemma canonical_6:
  "canonical [0, 0, 0, 0, 0, 10, 46, 124, 254, 508, 1021, 2045, 4092, 8190, 16382, 32767, 65534, 131068, 262136, 524273, 1048555, 2097123, 4194279, 8388594, 16777201, 33554412, 67108832, 134217694, 268435453, 536870910, 1073741823] table_6 =
   Some [0, 0, 0, 0, 0, 10, 46, 124, 254, 508, 1021, 2045, 4092, 8190, 16382, 32767, 65534, 131068, 262136, 524275, 1048556, 2097126, 4194281, 8388595, 16777203, 33554414, 67108842, 134217702, 268435454, 536870910, 1073741823]"
  by (simp add: table_6_def)

lemma canonical_7:
  "canonical [0, 0, 0, 0, 0, 10, 46, 124, 254, 508, 1021, 2045, 4092, 8190, 16382, 32767, 65534, 131068, 262136, 524275, 1048556, 2097126, 4194281, 8388595, 16777203, 33554414, 67108842, 134217702, 268435454, 536870910, 1073741823] table_7 =
   Some [0, 0, 0, 0, 0, 10, 46, 124, 254, 508, 1021, 2045, 4092, 8190, 16382, 32767, 65534, 131068, 262136, 524275, 1048558, 2097129, 4194284, 8388597, 16777206, 33554416, 67108847, 134217713, 268435455, 536870910, 1073741823]"
  by (simp add: table_7_def)

lemma canonical_8:
  "canonical [0, 0, 0, 0, 0, 10, 46, 124, 254, 508, 1021, 2045, 4092, 8190, 16382, 32767, 65534, 131068, 262136, 524275, 1048558, 2097129, 4194284, 8388597, 16777206, 33554416, 67108847, 134217713, 268435455, 536870910, 1073741823] table_8 =
   Some [0, 0, 0, 0, 0, 10, 46, 124, 254, 508, 1021, 2045, 4092, 8190, 16382, 32767, 65534, 131068, 262136, 524275, 1048558, 2097129, 4194284, 8388597, 16777206, 33554416, 67108847, 134217713, 268435455, 536870910, 1073741824]"
  by (simp add: table_8_def)

subsection \<open>Bits\<close>

text \<open>The \<open>n\<close> low bits of a word, the most significant one first.\<close>

definition bits :: "nat \<Rightarrow> 'a::len word \<Rightarrow> bool list" where
  "bits n w = map (bit w) (rev [0..<n])"

lemma bits_0 [simp]: "bits 0 w = []"
  by (simp add: bits_def)

lemma bits_Suc: "bits (Suc n) w = bit w n # bits n w"
  by (simp add: bits_def)

lemma length_bit_list [simp]: "length (bits n w) = n"
  by (simp add: bits_def)

lemma bits_add: "bits (m + n) w = bits m (drop_bit n w) @ bits n w"
  by (induction m) (simp_all add: bits_Suc bit_drop_bit_eq add.commute)

lemma bits_cong: "(\<And>i. i < n \<Longrightarrow> bit v i = bit w i) \<Longrightarrow> bits n v = bits n w"
  by (simp add: bits_def)

lemma bits_eq_iff: "bits n v = bits n w \<longleftrightarrow> (\<forall>i<n. bit v i = bit w i)"
  by (auto simp: bits_def)

subsection \<open>No code word is a prefix of another\<close>

lemma canonical_bounds:
  assumes "canonical c t = Some e"
  shows "length e = length c \<and> (\<forall>l<length c. c ! l \<le> e ! l) \<and>
    (\<forall>i<length t. unat (snd (t ! i)) < length c \<and> c ! unat (snd (t ! i)) \<le> unat (fst (t ! i)) \<and>
      unat (fst (t ! i)) < e ! unat (snd (t ! i)))"
  using assms
proof (induction c t rule: canonical.induct)
  case (2 c b l t)
  then have l: "unat l < length c" "c ! unat l = unat b"
    and rec: "canonical (c[unat l := Suc (unat b)]) t = Some e" by (auto split: if_splits)
  note IH = 2(1) [OF conjI [OF l] rec]
  have up: "c ! k \<le> c[unat l := Suc (unat b)] ! k" if "k < length c" for k
    using l that by (auto simp: nth_list_update)
  have le: "c ! k \<le> e ! k" if "k < length c" for k
    using up [OF that] IH that by (metis length_list_update order.trans)
  have b: "unat b < e ! unat l" using IH l(1) by (metis Suc_le_eq length_list_update nth_list_update_eq)
  show ?case
  proof (intro conjI allI impI)
    show "length e = length c" using IH by simp
  next
    fix i assume i: "i < length ((b, l) # t)"
    show "unat (snd (((b, l) # t) ! i)) < length c"
      "c ! unat (snd (((b, l) # t) ! i)) \<le> unat (fst (((b, l) # t) ! i))"
      "unat (fst (((b, l) # t) ! i)) < e ! unat (snd (((b, l) # t) ! i))"
    proof (atomize (full), cases i)
      case (Suc k)
      then have "unat (snd (t ! k)) < length c" "c[unat l := Suc (unat b)] ! unat (snd (t ! k)) \<le> unat (fst (t ! k))"
        "unat (fst (t ! k)) < e ! unat (snd (t ! k))" using IH i by simp_all
      then show "unat (snd (((b, l) # t) ! i)) < length c \<and>
          c ! unat (snd (((b, l) # t) ! i)) \<le> unat (fst (((b, l) # t) ! i)) \<and>
          unat (fst (((b, l) # t) ! i)) < e ! unat (snd (((b, l) # t) ! i))"
        using Suc up [of "unat (snd (t ! k))"] by simp
    qed (use l b in simp)
  qed (rule le)
qed simp

lemma canonical_increasing:
  assumes "canonical c t = Some e" and "i < j" and "j < length t" and "snd (t ! i) = snd (t ! j)"
  shows "unat (fst (t ! i)) < unat (fst (t ! j))"
  using assms
proof (induction c t arbitrary: i j rule: canonical.induct)
  case (2 c b l t)
  then have l: "unat l < length c" "c ! unat l = unat b"
    and rec: "canonical (c[unat l := Suc (unat b)]) t = Some e" by (auto split: if_splits)
  obtain j' where j': "j = Suc j'" "j' < length t" using 2(3,4) by (cases j) auto
  show ?case
  proof (cases i)
    case 0
    then have "snd (t ! j') = l" using 2(5) j' by simp
    moreover have "c[unat l := Suc (unat b)] ! unat (snd (t ! j')) \<le> unat (fst (t ! j'))"
      using canonical_bounds [OF rec] j'(2) by blast
    ultimately show ?thesis using 0 j' l(1) by simp
  next
    case (Suc i')
    then show ?thesis using 2(1) [OF conjI [OF l] rec, of i' j'] 2(3-5) j' by simp
  qed
qed simp

definition first_codes :: "nat list" where
  "first_codes =
    [0, 0, 0, 0, 0, 0, 20, 92, 248, 508, 1016, 2042, 4090, 8184, 16380, 32764, 65534, 131068,
     262136, 524272, 1048550, 2097116, 4194258, 8388568, 16777194, 33554412, 67108832,
     134217694, 268435426, 536870910, 1073741820]"

definition end_codes :: "nat list" where
  "end_codes =
    [0, 0, 0, 0, 0, 10, 46, 124, 254, 508, 1021, 2045, 4092, 8190, 16382, 32767, 65534, 131068,
     262136, 524275, 1048558, 2097129, 4194284, 8388597, 16777206, 33554416, 67108847,
     134217713, 268435455, 536870910, 1073741824]"

lemma code_table_canonical: "canonical first_codes code_table = Some end_codes"
  unfolding code_table_def first_codes_def canonical_append canonical_0 canonical_1 canonical_2 canonical_3
    canonical_4 canonical_5 canonical_6 canonical_7 canonical_8 bind.simps by (simp only: end_codes_def)

lemma length_code_table: "length code_table = 257"
  by (simp add: code_table_def table_0_def table_1_def table_2_def table_3_def table_4_def table_5_def
      table_6_def table_7_def table_8_def)

lemma code_table_256: "code_table ! 256 = (0x3fffffff, 30)"
proof -
  have "length (table_0 @ table_1 @ table_2 @ table_3 @ table_4 @ table_5 @ table_6 @ table_7) = 256"
    by (simp add: table_0_def table_1_def table_2_def table_3_def table_4_def table_5_def table_6_def table_7_def)
  then show ?thesis
    using nth_append_length [of "table_0 @ table_1 @ table_2 @ table_3 @ table_4 @ table_5 @ table_6 @ table_7" _ "[]"]
    by (simp add: code_table_def table_8_def)
qed

lemma code_lengths: "length first_codes = 31" "length end_codes = 31"
  by (simp_all add: first_codes_def end_codes_def)

lemma code_steps: "l < 30 \<Longrightarrow> first_codes ! Suc l = 2 * end_codes ! l"
proof -
  have "map (\<lambda>x. 2 * x) (take 30 end_codes) = drop 1 first_codes"
    by (simp add: first_codes_def end_codes_def)
  moreover assume "l < 30"
  ultimately show ?thesis
    using nth_map [of l "take 30 end_codes" "\<lambda>x. 2 * x"] nth_drop [of 1 first_codes l] code_lengths by simp
qed

lemma code_gap:
  assumes "l < l'" and "l' \<le> 30"
  shows "end_codes ! l * 2 ^ (l' - l) \<le> first_codes ! l'"
  using assms
proof (induction l')
  case (Suc l')
  have step: "first_codes ! Suc l' = 2 * end_codes ! l'" using Suc.prems by (intro code_steps) simp
  show ?case
  proof (cases "l = l'")
    case False
    then have "end_codes ! l * 2 ^ (l' - l) \<le> first_codes ! l'" using Suc by simp
    also have "\<dots> \<le> end_codes ! l'"
      using canonical_bounds [OF code_table_canonical] code_lengths Suc.prems by simp
    finally show ?thesis using step False Suc.prems by (simp add: Suc_diff_le)
  qed (use step in simp)
qed simp

definition code_word :: "nat \<Rightarrow> bool list" where
  "code_word s = bits (unat (snd (code_table ! s))) (fst (code_table ! s))"

lemma code_entry:
  assumes "s < 257"
  defines "l \<equiv> unat (snd (code_table ! s))" and "b \<equiv> unat (fst (code_table ! s))"
  shows "1 \<le> l" and "l \<le> 30" and "first_codes ! l \<le> b" and "b < end_codes ! l" and "b < 2 ^ l"
proof -
  note B = canonical_bounds [OF code_table_canonical, unfolded code_lengths length_code_table]
  have "l < 31" "first_codes ! l \<le> b" and e: "b < end_codes ! l" using B assms(1) unfolding l_def b_def by blast+
  then show l: "l \<le> 30" and "first_codes ! l \<le> b" and "b < end_codes ! l" by simp_all
  have "end_codes ! 0 = 0" by (simp add: end_codes_def)
  then show "1 \<le> l" using e by (cases l) auto
  have B30: "first_codes ! 30 \<le> end_codes ! 30"
    using canonical_bounds [OF code_table_canonical] code_lengths by simp
  have top: "end_codes ! 30 = 2 ^ 30" by (simp add: end_codes_def)
  have "end_codes ! l \<le> 2 ^ l"
  proof (cases "l = 30")
    case False
    then have "end_codes ! l * 2 ^ (30 - l) \<le> first_codes ! 30" using l by (intro code_gap) auto
    also have "first_codes ! 30 \<le> 2 ^ 30" using B30 top by simp
    also have "(2 :: nat) ^ 30 = 2 ^ l * 2 ^ (30 - l)" using l by (simp flip: power_add)
    finally show ?thesis by simp
  qed (use top in simp)
  then show "b < 2 ^ l" using e by simp
qed

lemma take_bit_code: "unat x < 2 ^ k \<Longrightarrow> take_bit k x = x" for x :: u32
  by (simp add: word_unat_eq_iff unsigned_take_bit_eq take_bit_nat_eq_self)

lemma bit_code_less: "unat x < 2 ^ k \<Longrightarrow> bit x i \<Longrightarrow> i < k" for x :: u32
  by (metis bit_take_bit_iff take_bit_code)

lemma bits_code_inj:
  fixes v w :: u32
  assumes "bits n v = bits n w" and "unat v < 2 ^ n" and "unat w < 2 ^ n"
  shows "v = w"
proof (rule bit_word_eqI)
  fix i show "bit v i = bit w i"
    using assms bit_code_less [of v n i] bit_code_less [of w n i] by (cases "i < n") (auto simp: bits_eq_iff)
qed

lemma take_code_bits:
  fixes v w :: u32
  assumes v: "unat v < 2 ^ n" and "m \<le> n" and eq: "take m (bits n v) = bits m w" and w: "unat w < 2 ^ m"
  shows "unat v div 2 ^ (n - m) = unat w"
proof -
  have d: "unat (drop_bit (n - m) v) = unat v div 2 ^ (n - m)"
    unfolding unat_drop_bit_eq by (rule drop_bit_eq_div)
  have "bits m (drop_bit (n - m) v) = bits m w"
    using eq bits_add [of m "n - m" v] assms(2) by simp
  moreover have "unat v div 2 ^ (n - m) < 2 ^ m"
    using v assms(2) by (simp add: less_mult_imp_div_less flip: power_add)
  ultimately have "drop_bit (n - m) v = w" using w d by (intro bits_code_inj) simp_all
  then show ?thesis using d by simp
qed

lemma code_word_prefix_free:
  assumes "s < 257" and "t < 257" and "prefix (code_word s) (code_word t)"
  shows "s = t"
proof -
  let ?l = "\<lambda>s. unat (snd (code_table ! s))" and ?b = "\<lambda>s. unat (fst (code_table ! s))"
  note S = code_entry [OF assms(1)] and T = code_entry [OF assms(2)]
  obtain zs where "code_word t = code_word s @ zs" using assms(3) by (auto simp: prefix_def)
  then have l: "?l s \<le> ?l t" and eq: "take (?l s) (bits (?l t) (fst (code_table ! t))) = bits (?l s) (fst (code_table ! s))"
    by (auto simp: code_word_def dest: arg_cong [of _ _ length])
  have div: "?b t div 2 ^ (?l t - ?l s) = ?b s"
    by (rule take_code_bits [OF T(5) l eq S(5)])
  have "\<not> ?l s < ?l t"
  proof
    assume "?l s < ?l t"
    then have "end_codes ! ?l s * 2 ^ (?l t - ?l s) \<le> ?b t" using order.trans [OF code_gap [OF _ T(2)] T(3)] by blast
    then have "end_codes ! ?l s \<le> ?b t div 2 ^ (?l t - ?l s)" by (simp add: less_eq_div_iff_mult_less_eq)
    then show False using div S(4) by simp
  qed
  then have "?l s = ?l t" "?b s = ?b t" using l div by simp_all
  then have same: "snd (code_table ! s) = snd (code_table ! t)" by (simp add: word_unat_eq_iff)
  note inc = canonical_increasing [OF code_table_canonical, unfolded length_code_table]
  show ?thesis using inc [of s t] inc [of t s] same \<open>?b s = ?b t\<close> assms(1,2) by (metis less_irrefl linorder_neqE_nat)
qed

subsection \<open>The bits of the output\<close>

definition out_bits :: "bytes \<Rightarrow> bool list" where
  "out_bits bs = concat (map (bits 8) bs)"

lemma out_bits_simps [simp]: "out_bits [] = []" "out_bits (b # bs) = bits 8 b @ out_bits bs"
  "out_bits (bs @ cs) = out_bits bs @ out_bits cs"
  by (simp_all add: out_bits_def)

lemma length_out_bits: "length (out_bits bs) = 8 * length bs"
  by (induction bs) simp_all

lemma bits_push:
  fixes buf :: u64 and c :: u32
  assumes "unat c < 2 ^ l" and "n + l \<le> 64"
  shows "bits (n + l) (push_bit l buf OR ucast c) = bits n buf @ bits l c"
proof -
  have c: "bit c i \<Longrightarrow> i < l \<and> i < 32" for i
    using bit_code_less [OF assms(1)] bit_imp_le_length [of c i] by simp
  have "bits n (drop_bit l (push_bit l buf OR ucast c :: u64)) = bits n buf"
    using assms(2) by (intro bits_cong) (auto simp: bit_simps dest: c)
  moreover have "bits l (push_bit l buf OR ucast c :: u64) = bits l c"
    using assms(2) by (auto simp: bits_eq_iff bits_def bit_simps dest: c)
  ultimately show ?thesis by (simp add: bits_add)
qed

lemma bits_byte: "bits 8 (ucast (w AND 0xff) :: u8) = bits 8 w" for w :: u64
proof -
  have ff: "(0xff :: u64) = mask 8" by (simp add: mask_eq_exp_minus_1)
  show ?thesis unfolding ff by (auto simp: bits_def bit_simps)
qed

lemma emitBytes_ok:
  "emitBytes buf n out = (n', out') \<Longrightarrow> n' < 8 \<and> out_bits out' @ bits n' buf = out_bits out @ bits n buf"
proof (induction n arbitrary: out rule: less_induct)
  case (less n)
  show ?case
  proof (cases "n \<ge> 8")
    case True
    have "emitBytes buf (n - 8) (out @ [ucast (drop_bit (n - 8) buf AND 0xff)]) = (n', out')"
      using less.prems True by (simp add: emitBytes.simps [of buf n])
    then have "n' < 8 \<and> out_bits out' @ bits n' buf =
        out_bits (out @ [ucast (drop_bit (n - 8) buf AND 0xff)]) @ bits (n - 8) buf"
      using True by (intro less.IH) simp_all
    moreover have "bits n buf = bits 8 (drop_bit (n - 8) buf) @ bits (n - 8) buf"
      using bits_add [of 8 "n - 8" buf] True by simp
    ultimately show ?thesis by (simp add: bits_byte)
  qed (use less.prems in \<open>simp add: emitBytes.simps [of buf n]\<close>)
qed

definition code_bits :: "bytes \<Rightarrow> bool list" where
  "code_bits s = concat (map (\<lambda>b. code_word (unat b)) s)"

lemma unat_symbol: "unat b < 257" for b :: u8
  using unsigned_less [of b, where 'a = nat] by simp

lemma huffman_encode_loop_ok:
  assumes "huffman_encode_loop s buf n out = (buf', n', out')" and "n < 8"
  shows "n' < 8 \<and> out_bits out' @ bits n' buf' = out_bits out @ bits n buf @ code_bits s"
  using assms
proof (induction s arbitrary: buf n out)
  case (Cons b s)
  let ?l = "unat (snd (code_table ! unat b))" and ?c = "fst (code_table ! unat b)"
  let ?buf = "push_bit ?l buf OR ucast ?c :: u64"
  note E = code_entry [OF unat_symbol [of b]]
  obtain m mid where m: "emitBytes ?buf (n + ?l) out = (m, mid)" by fastforce
  note M = emitBytes_ok [OF m]
  have "bits (n + ?l) ?buf = bits n buf @ code_word (unat b)"
    unfolding code_word_def using E(2,5) Cons.prems(2) by (intro bits_push) simp_all
  then show ?case
    using Cons.IH [of ?buf m mid] Cons.prems(1) M m by (simp add: code_bits_def Let_def)
qed (simp add: code_bits_def)

lemma bits_pad:
  fixes buf :: u64
  assumes "n < 8" and "0 < n"
  shows "bits 8 (push_bit (8 - n) buf OR (push_bit (8 - n) 1 - 1)) = bits n buf @ replicate (8 - n) True"
proof -
  have m: "push_bit (8 - n) (1 :: u64) - 1 = mask (8 - n)" by (simp add: mask_eq_exp_minus_1 push_bit_of_1)
  have "bits n (drop_bit (8 - n) (push_bit (8 - n) buf OR mask (8 - n))) = bits n buf"
    using assms by (intro bits_cong) (auto simp: bit_simps)
  moreover have "bits (8 - n) (push_bit (8 - n) buf OR mask (8 - n)) = replicate (8 - n) True"
    by (rule nth_equalityI) (auto simp: bits_def bit_simps rev_nth)
  moreover have "bits 8 w = bits n (drop_bit (8 - n) w) @ bits (8 - n) w" for w :: u64
    using bits_add [of n "8 - n" w] assms(1) by simp
  ultimately show ?thesis unfolding m by (simp only:)
qed

lemma out_bits_inj: "out_bits bs = out_bits cs \<Longrightarrow> bs = cs"
proof (induction bs arbitrary: cs)
  case (Cons b bs)
  then obtain c cs' where cs: "cs = c # cs'"
    by (cases cs) (auto dest: arg_cong [of _ _ length])
  have "bits 8 b = bits 8 c" "out_bits bs = out_bits cs'" using Cons.prems cs by (auto simp: append_eq_append_conv)
  moreover from this(1) have "b = c" by (intro bit_word_eqI) (simp add: bits_eq_iff)
  ultimately show ?case using Cons.IH cs by simp
qed (auto dest: arg_cong [of _ _ length] simp: length_out_bits)

lemma huffman_encode_bits:
  obtains p where "p < 8" and "out_bits (huffman_encode s) = code_bits s @ replicate p True"
proof -
  obtain buf n out where r: "huffman_encode_loop s 0 0 [] = (buf, n, out)" by (metis prod_cases3)
  have n: "n < 8" "out_bits out @ bits n buf = code_bits s"
    using huffman_encode_loop_ok [OF r] by simp_all
  show thesis
  proof (cases "n = 0")
    case True
    then show thesis using that [of 0] n r by (simp add: huffman_encode_def)
  next
    case False
    then have "out_bits (huffman_encode s) = code_bits s @ replicate (8 - n) True"
      using n r bits_pad [OF n(1), of buf] by (simp add: huffman_encode_def Let_def bits_byte flip: n(2))
    then show thesis using that [of "8 - n"] False by simp
  qed
qed

lemma huffman_encode_unique:
  assumes "out_bits bs = code_bits s @ replicate p True" and "p < 8"
  shows "bs = huffman_encode s"
proof -
  obtain q where q: "q < 8" "out_bits (huffman_encode s) = code_bits s @ replicate q True"
    by (rule huffman_encode_bits)
  have "length (out_bits bs) mod 8 = 0" "length (out_bits (huffman_encode s)) mod 8 = 0"
    by (simp_all add: length_out_bits)
  then have "(length (code_bits s) + p) mod 8 = 0" "(length (code_bits s) + q) mod 8 = 0"
    using assms(1) q(2) by simp_all
  then have "p = q" using assms(2) q(1) by presburger
  then show ?thesis using assms(1) q(2) by (intro out_bits_inj) simp
qed

subsection \<open>Decoding a prefix code\<close>

text \<open>
  The decoder on bits: \<open>cur\<close> are the bits collected since the last symbol. The contract
  \<open>prefix_code\<close> says that the code words of the symbols \<open>0\<close> to \<open>eos\<close> are found, and no other
  bit strings, and that no code word is a prefix of another.
\<close>

fun prefix_run :: "(bool list \<Rightarrow> nat option) \<Rightarrow> nat \<Rightarrow> bool list \<Rightarrow> bool list \<Rightarrow> bytes \<Rightarrow> string + (bool list \<times> bytes)" where
  "prefix_run symbol limit cur [] out = Inr (cur, out)"
| "prefix_run symbol limit cur (b # bs) out =
     (if length cur + 1 > 30 then Inl ''HPACK Huffman code is invalid (no symbol within 30 bits)''
      else (case symbol (cur @ [b]) of
              None \<Rightarrow> prefix_run symbol limit (cur @ [b]) bs out
            | Some s \<Rightarrow>
                if s = 256 then Inl ''HPACK Huffman stream contains an explicit EOS symbol''
                else if length out \<ge> limit then Inl ''HPACK Huffman output exceeds the configured limit''
                else prefix_run symbol limit [] bs (out @ [word_of_nat s])))"

lemma prefix_run_append:
  "prefix_run f l cur (xs @ ys) out =
     (case prefix_run f l cur xs out of Inl e \<Rightarrow> Inl e | Inr (cur', out') \<Rightarrow> prefix_run f l cur' ys out')"
  by (induction f l cur xs out rule: prefix_run.induct) (auto split: option.splits)

locale prefix_code =
  fixes word :: "nat \<Rightarrow> bool list" and symbol :: "bool list \<Rightarrow> nat option"
  assumes symbol_iff: "symbol w = Some s \<longleftrightarrow> s < 257 \<and> word s = w"
    and prefix_free: "s < 257 \<Longrightarrow> t < 257 \<Longrightarrow> prefix (word s) (word t) \<Longrightarrow> s = t"
    and word_length: "s < 257 \<Longrightarrow> 1 \<le> length (word s) \<and> length (word s) \<le> 30"
begin

lemma run_inside:
  assumes "s < 257" and "word s = cur @ bs @ rest" and "rest \<noteq> []"
  shows "prefix_run symbol limit cur bs out = Inr (cur @ bs, out)"
  using assms(2)
proof (induction bs arbitrary: cur)
  case (Cons b bs)
  have "symbol (cur @ [b]) = None"
  proof (rule ccontr)
    assume "symbol (cur @ [b]) \<noteq> None"
    then obtain t where t: "t < 257" "word t = cur @ [b]" using symbol_iff by blast
    then have "prefix (word t) (word s)" using Cons.prems by (simp add: prefix_def)
    then have "t = s" using t(1) assms(1) by (intro prefix_free)
    then show False using t(2) Cons.prems assms(3) by simp
  qed
  moreover have "length cur + 1 \<le> 30" using word_length [OF assms(1)] Cons.prems by simp
  ultimately show ?case using Cons.IH [of "cur @ [b]"] Cons.prems by simp
qed simp

lemma run_word:
  assumes "s < 257"
  shows "prefix_run symbol limit [] (word s @ bs) out =
    (if s = 256 then Inl ''HPACK Huffman stream contains an explicit EOS symbol''
     else if length out \<ge> limit then Inl ''HPACK Huffman output exceeds the configured limit''
     else prefix_run symbol limit [] bs (out @ [word_of_nat s]))"
proof -
  obtain ws w where w: "word s = ws @ [w]" using word_length [OF assms] by (cases "word s" rule: rev_cases) auto
  then have "prefix_run symbol limit [] ws out = Inr (ws, out)"
    using run_inside [OF assms, of "[]" ws "[w]" limit out] by simp
  moreover have "symbol (ws @ [w]) = Some s" using symbol_iff assms w by metis
  moreover have "length ws + 1 \<le> 30" using word_length [OF assms] w by simp
  ultimately show ?thesis by (simp add: w prefix_run_append)
qed

lemma run_words:
  "prefix_run symbol limit [] (concat (map (\<lambda>b. word (unat b)) s) @ bs) out =
    (if length out + length s \<le> limit \<or> s = [] then prefix_run symbol limit [] bs (out @ s)
     else Inl ''HPACK Huffman output exceeds the configured limit'')"
proof (induction s arbitrary: out)
  case (Cons b s)
  have "unat b \<noteq> 256" using unsigned_less [of b, where 'a = nat] by simp
  then show ?case using run_word [OF unat_symbol [of b], of limit "concat (map (\<lambda>b. word (unat b)) s) @ bs" out] Cons.IH
    by (auto simp: Let_def)
qed simp

lemma run_sound:
  "prefix_run symbol limit cur bs out = Inr (cur', out') \<Longrightarrow>
    \<exists>s. out' = out @ s \<and> cur @ bs = concat (map (\<lambda>b. word (unat b)) s) @ cur' \<and> (s = [] \<or> length out' \<le> limit)"
proof (induction bs arbitrary: cur out)
  case (Cons b bs)
  have small: "\<not> 30 < length cur + 1" using Cons.prems by (auto split: if_splits)
  show ?case
  proof (cases "symbol (cur @ [b])")
    case None
    then show ?thesis using Cons.IH [of "cur @ [b]"] Cons.prems small by simp
  next
    case (Some s)
    then have r: "s \<noteq> 256" "\<not> length out \<ge> limit" "prefix_run symbol limit [] bs (out @ [word_of_nat s]) = Inr (cur', out')"
      using Cons.prems small by (auto split: if_splits)
    obtain t where t: "out' = (out @ [word_of_nat s]) @ t" "bs = concat (map (\<lambda>b. word (unat b)) t) @ cur'"
        "t = [] \<or> length out' \<le> limit"
      using Cons.IH [OF r(3)] by auto
    have s: "s < 257" "word s = cur @ [b]" using Some symbol_iff by simp_all
    then have "unat (word_of_nat s :: u8) = s" using r(1) by (simp add: unsigned_of_nat take_bit_nat_eq_self)
    then show ?thesis using s t r(2) by (intro exI [of _ "word_of_nat s # t"]) auto
  qed
qed simp

end

definition code_symbol :: "bool list \<Rightarrow> nat option" where
  "code_symbol w = find (\<lambda>s. code_word s = w) [0..<257]"

interpretation huffman: prefix_code code_word code_symbol
proof
  fix s t w
  show "prefix (code_word s) (code_word t) \<Longrightarrow> s = t" if "s < 257" "t < 257"
    using code_word_prefix_free that by blast
  show "1 \<le> length (code_word s) \<and> length (code_word s) \<le> 30" if "s < 257"
    using code_entry [OF that] by (simp add: code_word_def)
  show "code_symbol w = Some s \<longleftrightarrow> s < 257 \<and> code_word s = w"
  proof
    assume "code_symbol w = Some s"
    then show "s < 257 \<and> code_word s = w" unfolding code_symbol_def find_Some_iff by auto
  next
    assume s: "s < 257 \<and> code_word s = w"
    then have "code_symbol w \<noteq> None" by (auto simp: code_symbol_def find_None_iff)
    then obtain t where t: "code_symbol w = Some t" by blast
    then have "t < 257" "code_word t = w" unfolding code_symbol_def find_Some_iff by auto
    then have "t = s" using s code_word_prefix_free [of t s] by simp
    then show "code_symbol w = Some s" using t by simp
  qed
qed

subsection \<open>The map of the decoder\<close>

lemma find_fold_insert:
  assumes "smap_ok m" and "inj_on f (set xs)"
  shows "smap_ok (fold (\<lambda>x. smap_insert (f x) x) xs m) \<and>
    (smap_find (fold (\<lambda>x. smap_insert (f x) x) xs m) k = Some y \<longleftrightarrow>
      (if k \<in> f ` set xs then y \<in> set xs \<and> f y = k else smap_find m k = Some y))"
  using assms
proof (induction xs arbitrary: m)
  case (Cons x xs)
  have ok: "smap_ok (smap_insert (f x) x m)" using Cons.prems(1) by (rule smap_insert_ok)
  have inj: "inj_on f (set xs)" and x: "x \<in> set xs \<or> f x \<notin> f ` set xs" using Cons.prems(2) by (auto simp: inj_on_def)
  show ?case using Cons.IH [OF ok inj] x Cons.prems by (auto simp: smap_insert_find inj_on_def)
qed simp

lemma huffman_key_inj:
  assumes "huffman_key l c = huffman_key l' c'" and "l < 2 ^ 32" and "l' < 2 ^ 32"
  shows "l = l' \<and> c = c'"
proof -
  have c: "\<not> bit (ucast x :: u64) (32 + i)" for x :: u32 and i
    using bit_imp_le_length [of x "32 + i"] by (auto simp: bit_simps)
  have "bit (huffman_key l c) (32 + i) = bit (word_of_nat l :: u64) i" if "i < 32" for i l c
    using that c by (simp add: huffman_key_def bit_simps)
  then have "bit (word_of_nat l :: u64) i = bit (word_of_nat l' :: u64) i" if "i < 32" for i
    using assms(1) that by metis
  then have "take_bit 32 (word_of_nat l :: u64) = take_bit 32 (word_of_nat l')"
    by (intro bit_word_eqI) (auto simp: bit_take_bit_iff)
  moreover have "unat (take_bit 32 (word_of_nat l :: u64)) = l" if "l < 2 ^ 32" for l
    using that by (simp add: unsigned_take_bit_eq unsigned_of_nat take_bit_nat_eq_self)
  ultimately have "l = l'" using assms(2,3) by metis
  moreover have low: "bit (huffman_key l c) i = bit c i" if "i < 32" for i l c
    using that by (simp add: huffman_key_def bit_simps)
  have "bit c i = bit c' i" if "i < 32" for i
    using low [OF that, of l c] low [OF that, of l' c'] assms(1) by simp
  then have "c = c'" by (intro bit_word_eqI) simp
  ultimately show ?thesis by blast
qed

lemma buildLookup_symbol:
  assumes "len \<le> 30" and "unat code < 2 ^ len"
  shows "smap_find buildLookup (huffman_key len code) = code_symbol (bits len code)"
proof -
  define f where "f = (\<lambda>s. huffman_key (unat (snd (code_table ! s))) (fst (code_table ! s)))"
  have f_iff: "f s = huffman_key len code \<longleftrightarrow> code_word s = bits len code" if "s < 257" for s
  proof
    note E = code_entry [OF that]
    assume "f s = huffman_key len code"
    then show "code_word s = bits len code"
      using huffman_key_inj [of "unat (snd (code_table ! s))" _ len code] E(2) assms(1)
      by (auto simp: f_def code_word_def)
  next
    note E = code_entry [OF that]
    assume w: "code_word s = bits len code"
    then have l: "unat (snd (code_table ! s)) = len" by (auto simp: code_word_def dest: arg_cong [of _ _ length])
    then have "fst (code_table ! s) = code"
      using w E(5) assms(2) by (intro bits_code_inj [of len]) (simp_all add: code_word_def)
    with l show "f s = huffman_key len code" by (simp add: f_def)
  qed
  have "inj_on f {..<257}"
  proof (rule inj_onI)
    fix s t assume st: "s \<in> {..<257}" "t \<in> {..<257}" and eq: "f s = f t"
    have "unat (snd (code_table ! s)) = unat (snd (code_table ! t)) \<and> fst (code_table ! s) = fst (code_table ! t)"
      using eq code_entry(2) [of s] code_entry(2) [of t] st unfolding f_def by (intro huffman_key_inj) auto
    then have "code_word s = code_word t" by (simp add: code_word_def)
    then show "s = t" using st code_word_prefix_free [of s t] by simp
  qed
  then have inj: "inj_on f (set [0..<257])" by (simp add: atLeast0LessThan)
  have b: "buildLookup = fold (\<lambda>x. smap_insert (f x) x) [0..<257] []" by (simp add: buildLookup_def f_def)
  note F = find_fold_insert [OF smap_ok_Nil inj, folded b]
  have "smap_find buildLookup (huffman_key len code) = Some y \<longleftrightarrow> code_symbol (bits len code) = Some y" for y
    using F [of "huffman_key len code" y] f_iff huffman.symbol_iff [of "bits len code" y]
    by (auto simp: image_iff eq_commute [of "huffman_key len code"])
  then show ?thesis by (metis option.exhaust)
qed

subsection \<open>The decoder reads bits\<close>

declare decodeByte_loop.simps(2) [simp del]

lemma decodeByte_loop_run:
  assumes "length cur \<le> 30" and "cur = bits len code" and "unat code < 2 ^ len"
  shows "(case decodeByte_loop limit byte ks code len out of Inl e \<Rightarrow> Inl e
      | Inr (code', len', out') \<Rightarrow> Inr (bits len' code', out')) =
    prefix_run code_symbol limit cur (map (bit byte) ks) out \<and>
   (\<forall>code' len' out'. decodeByte_loop limit byte ks code len out = Inr (code', len', out') \<longrightarrow>
      len' \<le> 30 \<and> unat code' < 2 ^ len')"
  using assms
proof (induction ks arbitrary: cur code len out)
  case (Cons k ks)
  define shifted where "shifted = push_bit 1 code"
  let ?code = "shifted OR ucast (drop_bit k byte AND 1)"
  have len: "len \<le> 30" using Cons.prems by simp
  have bits: "bit shifted i \<longleftrightarrow> 1 \<le> i \<and> i < 32 \<and> bit code (i - 1)" for i
    unfolding shifted_def by (simp only: bit_push_bit_iff) auto
  have bit0: "bit (ucast (drop_bit k byte AND 1) :: u32) i \<longleftrightarrow> i = 0 \<and> bit byte k" for i
    by (auto simp: bit_simps bit_1_iff)
  have cur: "bits (len + 1) ?code = cur @ [bit byte k]"
  proof -
    have "bits len (drop_bit 1 ?code) = bits len code"
      using len by (intro bits_cong) (auto simp: bit_simps bit0 bits)
    moreover have "bits 1 ?code = [bit byte k]" using bit0 bits by (simp add: bits_def bit_simps)
    ultimately show ?thesis using bits_add [of len 1 ?code] Cons.prems(2) by simp
  qed
  have small: "unat ?code < 2 ^ (len + 1)" if "len + 1 \<le> 30"
  proof -
    have "take_bit (len + 1) ?code = ?code"
    proof (rule bit_word_eqI)
      fix i show "bit (take_bit (len + 1) ?code) i = bit ?code i"
        using bit_code_less [OF Cons.prems(3), of "i - 1"] by (auto simp: bit_take_bit_iff bit_or_iff bit0 bits)
    qed
    then have "unat ?code = take_bit (len + 1) (unat ?code)" by (metis unsigned_take_bit_eq)
    then show ?thesis by (metis take_bit_nat_less_exp)
  qed
  have step: "decodeByte_loop limit byte (k # ks) code len out =
     (if len + 1 > 30 then Inl ''HPACK Huffman code is invalid (no symbol within 30 bits)''
      else (case smap_find buildLookup (huffman_key (len + 1) ?code) of
              None \<Rightarrow> decodeByte_loop limit byte ks ?code (len + 1) out
            | Some symbol \<Rightarrow>
                if symbol = 256 then Inl ''HPACK Huffman stream contains an explicit EOS symbol''
                else if length out \<ge> limit then Inl ''HPACK Huffman output exceeds the configured limit''
                else decodeByte_loop limit byte ks 0 0 (out @ [word_of_nat symbol])))"
    by (simp only: decodeByte_loop.simps Let_def shifted_def)
  show ?case
  proof (cases "len + 1 > 30")
    case False
    then have look: "smap_find buildLookup (huffman_key (len + 1) ?code) = code_symbol (cur @ [bit byte k])"
      using buildLookup_symbol [of "len + 1" ?code] small cur by simp
    show ?thesis
    proof (cases "code_symbol (cur @ [bit byte k])")
      case None
      then show ?thesis
        using Cons.IH [of "cur @ [bit byte k]" "len + 1" ?code out] cur small False look Cons.prems by (simp add: step)
    next
      case (Some s)
      have "(0 :: nat) < 2 ^ 0" by simp
      then show ?thesis
        using Cons.IH [of "[]" 0 0 "out @ [word_of_nat s]"] False look Some Cons.prems
        by (simp add: step)
    qed
  qed (use Cons.prems in \<open>simp add: step\<close>)
qed simp

lemma bits_8: "map (bit b) [7, 6, 5, 4, 3, 2, 1, 0] = bits 8 b" for b :: u8
  by (simp add: bits_def numeral_eq_Suc)

lemma huffman_decode_loop_run:
  assumes "len \<le> 30" and "unat code < 2 ^ len"
  shows "(case huffman_decode_loop limit bs code len out of Inl e \<Rightarrow> Inl e
      | Inr (code', len', out') \<Rightarrow> Inr (bits len' code', out')) =
    prefix_run code_symbol limit (bits len code) (out_bits bs) out \<and>
   (\<forall>code' len' out'. huffman_decode_loop limit bs code len out = Inr (code', len', out') \<longrightarrow>
      len' \<le> 30 \<and> unat code' < 2 ^ len')"
  using assms
proof (induction bs arbitrary: code len out)
  case (Cons b bs)
  note B = decodeByte_loop_run [where cur = "bits len code" and code = code and len = len and limit = limit and byte = b
      and ks = "[7, 6, 5, 4, 3, 2, 1, 0]" and out = out, unfolded bits_8]
  show ?case
  proof (cases "decodeByte_loop limit b [7, 6, 5, 4, 3, 2, 1, 0] code len out")
    case (Inl e)
    then have "prefix_run code_symbol limit (bits len code) (bits 8 b) out = Inl e" using B Cons.prems by simp
    with Inl show ?thesis by (simp add: prefix_run_append)
  next
    case (Inr r)
    obtain code' len' out' where r: "r = (code', len', out')" by (metis prod_cases3)
    then have "prefix_run code_symbol limit (bits len code) (bits 8 b) out = Inr (bits len' code', out')"
      and "len' \<le> 30" "unat code' < 2 ^ len'" using B Cons.prems Inr by simp_all
    with Inr r Cons.IH [of len' code' out'] show ?thesis by (simp add: prefix_run_append)
  qed
qed simp

lemma all_ones_word: "unat c < 2 ^ n \<Longrightarrow> n \<le> 7 \<Longrightarrow> c = push_bit n 1 - 1 \<longleftrightarrow> bits n c = replicate n True" for c :: u32
proof -
  assume c: "unat c < 2 ^ n" and n: "n \<le> 7"
  have m: "push_bit n (1 :: u32) - 1 = mask n" by (simp add: mask_eq_exp_minus_1 push_bit_of_1)
  have r: "bits n (mask n :: u32) = replicate n True"
    using n by (intro nth_equalityI) (auto simp: bits_def bit_simps rev_nth)
  have "unat (mask n :: u32) < 2 ^ n"
    by (metis take_bit_nat_less_exp unsigned_take_bit_eq take_bit_of_mask min.idem)
  then show ?thesis using bits_code_inj [OF _ c, of "mask n"] r unfolding m by metis
qed

lemma huffman_decode_bits:
  "huffman_decode limit bs = Inr out \<longleftrightarrow>
    (\<exists>p\<le>7. prefix_run code_symbol limit [] (out_bits bs) [] = Inr (replicate p True, out))"
proof (cases "huffman_decode_loop limit bs 0 0 []")
  case (Inl e)
  then have "prefix_run code_symbol limit [] (out_bits bs) [] = Inl e"
    using huffman_decode_loop_run [of 0 0 limit bs "[]"] by simp
  with Inl show ?thesis by (simp add: huffman_decode_def)
next
  case (Inr r)
  obtain code len out' where r: "r = (code, len, out')" by (metis prod_cases3)
  have run: "prefix_run code_symbol limit [] (out_bits bs) [] = Inr (bits len code, out')"
    and small: "unat code < 2 ^ len"
    using huffman_decode_loop_run [of 0 0 limit bs "[]"] Inr r by simp_all
  have "huffman_decode limit bs = Inr out \<longleftrightarrow> out' = out \<and> len \<le> 7 \<and> bits len code = replicate len True"
    using Inr r all_ones_word [OF small] by (auto simp: huffman_decode_def)
  also have "\<dots> \<longleftrightarrow> (\<exists>p\<le>7. bits len code = replicate p True \<and> out' = out)"
    by (metis length_bit_list length_replicate)
  finally show ?thesis unfolding run by simp
qed

lemma eos_word: "code_word 256 = replicate 30 True"
proof -
  have "bits 30 (0x3fffffff :: u32) = replicate 30 True"
    by (simp add: bits_def upt_rec) (simp add: numeral_eq_Suc)
  then show ?thesis by (simp add: code_word_def code_table_256)
qed

lemma huffman_decode_iff: "huffman_decode limit bs = Inr s \<longleftrightarrow> bs = huffman_encode s \<and> length s \<le> limit"
proof
  assume "huffman_decode limit bs = Inr s"
  then obtain p where p: "p \<le> 7" "prefix_run code_symbol limit [] (out_bits bs) [] = Inr (replicate p True, s)"
    unfolding huffman_decode_bits by blast
  from huffman.run_sound [OF p(2)] have "out_bits bs = code_bits s @ replicate p True" "s = [] \<or> length s \<le> limit"
    by (auto simp: code_bits_def)
  then show "bs = huffman_encode s \<and> length s \<le> limit"
    using huffman_encode_unique [of bs s p] p(1) by auto
next
  assume bs: "bs = huffman_encode s \<and> length s \<le> limit"
  obtain p where p: "p < 8" "out_bits (huffman_encode s) = code_bits s @ replicate p True" by (rule huffman_encode_bits)
  have "code_word 256 = [] @ replicate p True @ replicate (30 - p) True"
    unfolding eos_word using p(1) by (simp flip: replicate_add)
  then have "prefix_run code_symbol limit [] (replicate p True) s = Inr ([] @ replicate p True, s)"
    using p(1) by (intro huffman.run_inside [of 256]) auto
  then have "prefix_run code_symbol limit [] (out_bits bs) [] = Inr (replicate p True, s)"
    using bs p(2) huffman.run_words [of limit s "replicate p True" "[]"] by (simp add: code_bits_def)
  then show "huffman_decode limit bs = Inr s" unfolding huffman_decode_bits using p(1) by (intro exI [of _ p]) simp
qed

subsection \<open>Properties\<close>

text \<open>
  C32. Decoding is exactly the inverse of encoding: a byte string is decoded to \<open>s\<close> if and only if
  it is the encoding of \<open>s\<close> and \<open>s\<close> is within the limit. So every string survives the round
  trip, and a byte string that is no encoding (a wrong or overlong padding, an EOS symbol, bits
  that are no code word) is refused.
\<close>

theorem huffman_decode_exact:
  "huffman_decode limit bs = Inr s \<longleftrightarrow> bs = huffman_encode s \<and> length s \<le> limit"
  by (rule huffman_decode_iff)

end
