(* ===== verification/Qpack_Codec.thy ===== *)
theory Qpack_Codec
  imports Hpack_Huffman Sw_ByteArray "HOL-Library.Char_ord"
begin

text \<open>
  \<open>SwQpackStaticTable\<close>, \<open>SwQpackEncoder\<close> and \<open>SwQpackDecoder\<close> (\<open>src/core/io/http3\<close>): the header
  compression of HTTP/3 without dynamic table. A field section is a list of names and values;
  a field is an index into the static table, an index for the name and a literal value, or two
  literals, and a literal is Huffman coded when that is shorter.

  The theory shows that decoding inverts encoding exactly when the section is within the
  limits of the decoder, that whatever is decoded from untrusted bytes is within the limits,
  and what the integer decoder computes on every input, the overlong ones included.
\<close>

subsection \<open>The static table\<close>

type_synonym Entry = "string \<times> string"

definition bytes_of :: "string \<Rightarrow> bytes" where
  "bytes_of s = map of_char s"

definition static_table :: "Entry list" where
  "static_table = [
    ('':authority'', ''''),
    ('':path'', ''/''),
    (''age'', ''0''),
    (''content-disposition'', ''''),
    (''content-length'', ''0''),
    (''cookie'', ''''),
    (''date'', ''''),
    (''etag'', ''''),
    (''if-modified-since'', ''''),
    (''if-none-match'', ''''),
    (''last-modified'', ''''),
    (''link'', ''''),
    (''location'', ''''),
    (''referer'', ''''),
    (''set-cookie'', ''''),
    ('':method'', ''CONNECT''),
    ('':method'', ''DELETE''),
    ('':method'', ''GET''),
    ('':method'', ''HEAD''),
    ('':method'', ''OPTIONS''),
    ('':method'', ''POST''),
    ('':method'', ''PUT''),
    ('':scheme'', ''http''),
    ('':scheme'', ''https''),
    ('':status'', ''103''),
    ('':status'', ''200''),
    ('':status'', ''304''),
    ('':status'', ''404''),
    ('':status'', ''503''),
    (''accept'', ''*/*''),
    (''accept'', ''application/dns-message''),
    (''accept-encoding'', ''gzip, deflate, br''),
    (''accept-ranges'', ''bytes''),
    (''access-control-allow-headers'', ''cache-control''),
    (''access-control-allow-headers'', ''content-type''),
    (''access-control-allow-origin'', ''*''),
    (''cache-control'', ''max-age=0''),
    (''cache-control'', ''max-age=2592000''),
    (''cache-control'', ''max-age=604800''),
    (''cache-control'', ''no-cache''),
    (''cache-control'', ''no-store''),
    (''cache-control'', ''public, max-age=31536000''),
    (''content-encoding'', ''br''),
    (''content-encoding'', ''gzip''),
    (''content-type'', ''application/dns-message''),
    (''content-type'', ''application/javascript''),
    (''content-type'', ''application/json''),
    (''content-type'', ''application/x-www-form-urlencoded''),
    (''content-type'', ''image/gif''),
    (''content-type'', ''image/jpeg''),
    (''content-type'', ''image/png''),
    (''content-type'', ''text/css''),
    (''content-type'', ''text/html; charset=utf-8''),
    (''content-type'', ''text/plain''),
    (''content-type'', ''text/plain;charset=utf-8''),
    (''range'', ''bytes=0-''),
    (''strict-transport-security'', ''max-age=31536000''),
    (''strict-transport-security'', ''max-age=31536000; includesubdomains''),
    (''strict-transport-security'', ''max-age=31536000; includesubdomains; preload''),
    (''vary'', ''accept-encoding''),
    (''vary'', ''origin''),
    (''x-content-type-options'', ''nosniff''),
    (''x-xss-protection'', ''1; mode=block''),
    ('':status'', ''100''),
    ('':status'', ''204''),
    ('':status'', ''206''),
    ('':status'', ''302''),
    ('':status'', ''400''),
    ('':status'', ''403''),
    ('':status'', ''421''),
    ('':status'', ''425''),
    ('':status'', ''500''),
    (''accept-language'', ''''),
    (''access-control-allow-credentials'', ''FALSE''),
    (''access-control-allow-credentials'', ''TRUE''),
    (''access-control-allow-headers'', ''*''),
    (''access-control-allow-methods'', ''get''),
    (''access-control-allow-methods'', ''get, post, options''),
    (''access-control-allow-methods'', ''options''),
    (''access-control-expose-headers'', ''content-length''),
    (''access-control-request-headers'', ''content-type''),
    (''access-control-request-method'', ''get''),
    (''access-control-request-method'', ''post''),
    (''alt-svc'', ''clear''),
    (''authorization'', ''''),
    (''content-security-policy'', ''script-src 'none'; object-src 'none'; base-uri 'none'' @ [CHR 0x27]),
    (''early-data'', ''1''),
    (''expect-ct'', ''''),
    (''forwarded'', ''''),
    (''if-range'', ''''),
    (''origin'', ''''),
    (''purpose'', ''prefetch''),
    (''server'', ''''),
    (''timing-allow-origin'', ''*''),
    (''upgrade-insecure-requests'', ''1''),
    (''user-agent'', ''''),
    (''x-forwarded-for'', ''''),
    (''x-frame-options'', ''deny''),
    (''x-frame-options'', ''sameorigin'')]"

definition entryCount :: nat where
  "entryCount = 99"

definition entry_matches :: "bytes \<Rightarrow> string \<Rightarrow> bool" where
  "entry_matches v lit \<longleftrightarrow> v = bytes_of lit"

definition nameValueAt :: "nat \<Rightarrow> (bytes \<times> bytes) option" where
  "nameValueAt index =
     (if index \<ge> entryCount then None
      else let entry = static_table ! index in Some (bytes_of (fst entry), bytes_of (snd entry)))"

fun findExact_loop :: "bytes \<Rightarrow> bytes \<Rightarrow> nat list \<Rightarrow> nat option" where
  "findExact_loop name v [] = None"
| "findExact_loop name v (i # is) =
     (if entry_matches name (fst (static_table ! i)) \<and> entry_matches v (snd (static_table ! i)) then Some i
      else findExact_loop name v is)"

definition findExact :: "bytes \<Rightarrow> bytes \<Rightarrow> nat option" where
  "findExact name v = findExact_loop name v [0..<entryCount]"

fun findName_loop :: "bytes \<Rightarrow> nat list \<Rightarrow> nat option" where
  "findName_loop name [] = None"
| "findName_loop name (i # is) =
     (if entry_matches name (fst (static_table ! i)) then Some i else findName_loop name is)"

definition findName :: "bytes \<Rightarrow> nat option" where
  "findName name = findName_loop name [0..<entryCount]"

subsection \<open>The encoder\<close>

definition maxPrefix :: "nat \<Rightarrow> u8" where
  "maxPrefix prefixBits = ucast (push_bit prefixBits 1 - 1 :: u32)"

lemma unat_seven: "unat (drop_bit 7 v) = unat v div 128" for v :: u64
  unfolding unat_drop_bit_eq by (simp add: drop_bit_eq_div)

function encodeInteger_loop :: "u64 \<Rightarrow> bytes \<Rightarrow> bytes" where
  "encodeInteger_loop v out =
     (if v \<ge> 128 then encodeInteger_loop (drop_bit 7 v) (out @ [ucast ((v AND 0x7f) OR 0x80)])
      else out @ [ucast (v AND 0x7f)])"
  by pat_completeness auto
termination
  by (relation "measure (\<lambda>(v, out). unat v)") (auto simp: unat_seven word_le_nat_alt)

declare encodeInteger_loop.simps [simp del]

definition encodeInteger :: "bytes \<Rightarrow> u64 \<Rightarrow> nat \<Rightarrow> u8 \<Rightarrow> bytes" where
  "encodeInteger out v prefixBits pat =
     (if v < ucast (maxPrefix prefixBits) then out @ [pat OR ucast v]
      else encodeInteger_loop (v - ucast (maxPrefix prefixBits)) (out @ [pat OR maxPrefix prefixBits]))"

text \<open>\<open>SwHpackHuffman::encode\<close> always returns true, so the encoder has no error branch to take.\<close>

definition encodeString :: "bytes \<Rightarrow> bytes \<Rightarrow> nat \<Rightarrow> u8 \<Rightarrow> u8 \<Rightarrow> bytes" where
  "encodeString out str prefixBits basePattern hBit =
     (let huffman = huffman_encode str
      in if length huffman < length str
         then encodeInteger out (word_of_nat (length huffman)) prefixBits (basePattern OR hBit) @ huffman
         else encodeInteger out (word_of_nat (length str)) prefixBits basePattern @ str)"

fun encodeFields :: "(bytes \<times> bytes) list \<Rightarrow> bytes \<Rightarrow> bytes" where
  "encodeFields [] out = out"
| "encodeFields ((name, v) # headers) out =
     (case findExact name v of
        Some index \<Rightarrow> encodeFields headers (encodeInteger out (word_of_nat index) 6 0xc0)
      | None \<Rightarrow>
          (case findName name of
             Some index \<Rightarrow>
               encodeFields headers (encodeString (encodeInteger out (word_of_nat index) 4 0x50) v 7 0x00 0x80)
           | None \<Rightarrow> encodeFields headers (encodeString (encodeString out name 3 0x20 0x08) v 7 0x00 0x80)))"

definition encodeFieldSection :: "(bytes \<times> bytes) list \<Rightarrow> bytes" where
  "encodeFieldSection headers = encodeFields headers [0x00, 0x00]"

subsection \<open>The decoder\<close>

function decodeInteger_loop :: "bytes \<Rightarrow> nat \<Rightarrow> u64 \<Rightarrow> nat \<Rightarrow> (string + u64) \<times> nat" where
  "decodeInteger_loop buf off v shift =
     (if off \<ge> length buf then (Inl ''QPACK integer continuation is truncated'', off)
      else
        let byte = buf ! off;
            v' = v + push_bit shift (ucast (byte AND 0x7f))
        in if byte AND 0x80 = 0 then (Inr v', off + 1)
           else if shift + 7 > 63 then (Inl ''QPACK integer is too large'', off + 1)
           else decodeInteger_loop buf (off + 1) v' (shift + 7))"
  by pat_completeness auto
termination
  by (relation "measure (\<lambda>(buf, off, v, shift). length buf - off)") auto

declare decodeInteger_loop.simps [simp del]

definition decodeInteger :: "nat \<Rightarrow> u64 reader" where
  "decodeInteger prefixBits buf off =
     (if off \<ge> length buf then (Inl ''QPACK integer is truncated'', off)
      else
        let v = ucast (buf ! off AND maxPrefix prefixBits)
        in if v < ucast (maxPrefix prefixBits) then (Inr v, off + 1)
           else decodeInteger_loop buf (off + 1) v 0)"

definition decodeString :: "nat \<Rightarrow> u8 \<Rightarrow> nat \<Rightarrow> bytes reader" where
  "decodeString prefixBits hBit maxOutputBytes buf off =
     (if off \<ge> length buf then (Inl ''QPACK string literal is truncated'', off)
      else
        let huffman = (buf ! off AND hBit \<noteq> 0)
        in bindR (decodeInteger prefixBits) (\<lambda>len buf off.
             if len > word_of_nat (length buf - off)
             then (Inl ''QPACK string literal length exceeds available data'', off)
             else if \<not> huffman \<and> unat len > maxOutputBytes \<or>
               huffman \<and> maxOutputBytes \<le> size_max div 4 \<and> unat len > maxOutputBytes * 4
             then (Inl ''QPACK string literal exceeds the configured decoded limit'', off)
             else if unat len > int_max then (Inl ''QPACK string literal is too large'', off)
             else let raw = mid buf (to_int off) (to_int (unat len)); off' = off + unat len
               in if huffman then (huffman_decode maxOutputBytes raw, off') else (Inr raw, off')) buf off)"

definition remainingFieldBytes :: "nat \<Rightarrow> nat \<Rightarrow> nat \<Rightarrow> nat" where
  "remainingFieldBytes limit used reserved =
     (if used > limit \<or> reserved > limit - used then 0 else limit - used - reserved)"

definition appendField ::
  "(bytes \<times> bytes) list \<Rightarrow> bytes \<Rightarrow> bytes \<Rightarrow> nat \<Rightarrow> nat \<Rightarrow> string + ((bytes \<times> bytes) list \<times> nat)" where
  "appendField out name v decodedLimit decodedBytes =
     (if decodedBytes > decodedLimit \<or> 32 > decodedLimit - decodedBytes
      then Inl ''QPACK decoded fields exceed the configured byte limit''
      else
        let afterOverhead = decodedBytes + 32 in
        if length name > decodedLimit - afterOverhead
        then Inl ''QPACK decoded fields exceed the configured byte limit''
        else
          let afterName = afterOverhead + length name in
          if length v > decodedLimit - afterName
          then Inl ''QPACK decoded fields exceed the configured byte limit''
          else Inr (out @ [(name, v)], afterName + length v))"

text \<open>The three representations of a field line, up to the call of \<open>appendField_\<close>.\<close>

definition decodeField :: "nat \<Rightarrow> nat \<Rightarrow> (bytes \<times> bytes) reader" where
  "decodeField decodedLimit decodedBytes buf off =
     (let first = buf ! off in
      if first AND 0x80 \<noteq> 0 then
        if first AND 0x40 = 0 then (Inl ''QPACK Indexed Field Line references the dynamic table'', off)
        else bindR (decodeInteger 6) (\<lambda>index.
          (case nameValueAt (unat index) of
             None \<Rightarrow> failR ''QPACK Indexed Field Line has an out-of-range static index''
           | Some field \<Rightarrow> returnR field)) buf off
      else if first AND 0x40 \<noteq> 0 then
        if first AND 0x10 = 0 then (Inl ''QPACK Literal Field Line name reference is dynamic'', off)
        else bindR (decodeInteger 4) (\<lambda>index.
          (case nameValueAt (unat index) of
             None \<Rightarrow> failR ''QPACK name reference has an out-of-range static index''
           | Some (name, _) \<Rightarrow>
               bindR (decodeString 7 0x80 (remainingFieldBytes decodedLimit decodedBytes (length name))) (\<lambda>v.
                 returnR (name, v)))) buf off
      else if first AND 0x20 \<noteq> 0 then
        bindR (decodeString 3 0x08 (remainingFieldBytes decodedLimit decodedBytes 0)) (\<lambda>name.
        bindR (decodeString 7 0x80 (remainingFieldBytes decodedLimit decodedBytes (length name))) (\<lambda>v.
          returnR (name, v))) buf off
      else (Inl ''QPACK post-base field line representations are not supported'', off))"

lemma decodeInteger_loop_moves:
  "decodeInteger_loop buf off v shift = (Inr x, off') \<Longrightarrow> off < off' \<and> off' \<le> length buf"
proof (induction buf off v shift rule: decodeInteger_loop.induct)
  case (1 buf off v shift)
  note e = decodeInteger_loop.simps [of buf off v shift]
  have in_buf: "\<not> length buf \<le> off" using 1(2) e by (auto split: if_splits)
  show ?case
  proof (cases "buf ! off AND 0x80 = 0")
    case True
    then show ?thesis using 1(2) e in_buf by (simp add: Let_def)
  next
    case False
    then have "\<not> 63 < shift + 7" using 1(2) e in_buf by (auto simp: Let_def split: if_splits)
    then show ?thesis using 1(1) [OF in_buf refl refl False] 1(2) e in_buf False by (simp add: Let_def)
  qed
qed

lemma decodeInteger_moves: "decodeInteger p buf off = (Inr x, off') \<Longrightarrow> off < off' \<and> off' \<le> length buf"
  by (auto simp: decodeInteger_def Let_def dest: decodeInteger_loop_moves split: if_splits)

lemma decodeString_moves: "decodeString p h m buf off = (Inr x, off') \<Longrightarrow> off < off'"
  by (auto simp: decodeString_def Let_def bindR_Inr_iff dest!: decodeInteger_moves split: if_splits)

lemma decodeField_moves: "decodeField l d buf off = (Inr x, off') \<Longrightarrow> off < off'"
  by (auto simp: decodeField_def Let_def bindR_Inr_iff returnR_def failR_def
      dest!: decodeInteger_moves decodeString_moves split: if_splits option.splits)

function decodeFields ::
  "nat \<Rightarrow> nat \<Rightarrow> bytes \<Rightarrow> nat \<Rightarrow> (bytes \<times> bytes) list \<Rightarrow> nat \<Rightarrow> string + (bytes \<times> bytes) list" where
  "decodeFields maxFieldCount decodedLimit buf off out decodedBytes =
     (if off < length buf then
        if maxFieldCount > 0 \<and> length out \<ge> maxFieldCount
        then Inl ''QPACK field count exceeds the configured limit''
        else (case decodeField decodedLimit decodedBytes buf off of
                (Inl e, _) \<Rightarrow> Inl e
              | (Inr (name, v), off') \<Rightarrow>
                  (case appendField out name v decodedLimit decodedBytes of
                     Inl e \<Rightarrow> Inl e
                   | Inr (out', decodedBytes') \<Rightarrow> decodeFields maxFieldCount decodedLimit buf off' out' decodedBytes'))
      else Inr out)"
  by pat_completeness auto
termination
  by (relation "measure (\<lambda>(c, l, buf, off, out, d). length buf - off)") (auto, (metis decodeField_moves diff_less_mono2)+)

declare decodeFields.simps [simp del]

text \<open>When it fails, \<open>decodeFieldSection\<close> leaves in its output vector the fields read before the error;
  the model drops them, as every caller does.\<close>

definition decodeFieldSection :: "nat \<Rightarrow> nat \<Rightarrow> bytes \<Rightarrow> string + (bytes \<times> bytes) list" where
  "decodeFieldSection maxFieldCount maxDecodedBytes buf =
     (let decodedLimit = (if maxDecodedBytes = 0 then size_max else maxDecodedBytes) in
      case decodeInteger 8 buf 0 of
        (Inl e, _) \<Rightarrow> Inl e
      | (Inr requiredInsertCount, off) \<Rightarrow>
          if requiredInsertCount \<noteq> 0
          then Inl ''QPACK dynamic table is not supported (Required Insert Count != 0)''
          else (case decodeInteger 7 buf off of
                  (Inl e, _) \<Rightarrow> Inl e
                | (Inr deltaBase, off') \<Rightarrow>
                    if deltaBase \<noteq> 0 then Inl ''QPACK dynamic table is not supported (Base != 0)''
                    else decodeFields maxFieldCount decodedLimit buf off' [] 0))"

subsection \<open>Integers\<close>

lemma maxPrefix_mask: "p \<le> 8 \<Longrightarrow> maxPrefix p = mask p"
proof -
  assume p: "p \<le> 8"
  have "push_bit p (1 :: u32) - 1 = mask p" by (simp add: mask_eq_exp_minus_1 push_bit_of_1)
  then show ?thesis using p unfolding maxPrefix_def by (intro bit_word_eqI) (auto simp: bit_simps)
qed

text \<open>The bytes after the prefix.\<close>

function int_tail :: "u64 \<Rightarrow> bytes" where
  "int_tail v = (if v \<ge> 128 then ucast ((v AND 0x7f) OR 0x80) # int_tail (drop_bit 7 v) else [ucast (v AND 0x7f)])"
  by pat_completeness auto
termination
  by (relation "measure unat") (auto simp: unat_seven word_le_nat_alt)

declare int_tail.simps [simp del]

definition int_bytes :: "u64 \<Rightarrow> nat \<Rightarrow> u8 \<Rightarrow> bytes" where
  "int_bytes v p pat =
     (if v < ucast (maxPrefix p) then [pat OR ucast v]
      else (pat OR maxPrefix p) # int_tail (v - ucast (maxPrefix p)))"

lemma encodeInteger_loop_eq: "encodeInteger_loop v out = out @ int_tail v"
proof (induction v arbitrary: out rule: int_tail.induct)
  case (1 v)
  then show ?case by (simp add: encodeInteger_loop.simps [of v] int_tail.simps [of v])
qed

lemma encodeInteger_eq: "encodeInteger out v p pat = out @ int_bytes v p pat"
  by (simp add: encodeInteger_def int_bytes_def encodeInteger_loop_eq)

lemma seven_bits: "push_bit s (v AND 0x7f) + push_bit (s + 7) (drop_bit 7 v) = push_bit s v" for v :: u64
proof -
  have m: "(0x7f :: u64) = mask 7" by (simp add: mask_eq_exp_minus_1)
  have "push_bit s (v AND 0x7f) + push_bit (s + 7) (drop_bit 7 v) =
      push_bit s (v AND 0x7f) OR push_bit (s + 7) (drop_bit 7 v)"
    unfolding m by (intro disjunctive_add) (auto simp: bit_simps)
  also have "\<dots> = push_bit s v" unfolding m
  proof (rule bit_word_eqI)
    fix i assume "i < LENGTH(64)"
    then show "bit (push_bit s (v AND mask 7) OR push_bit (s + 7) (drop_bit 7 v)) i = bit (push_bit s v) i"
      by (cases "i < s + 7") (auto simp: bit_simps)
  qed
  finally show ?thesis .
qed

lemma bit_80: "bit (0x80 :: u64) n \<longleftrightarrow> n = 7" "bit (0x80 :: u8) n \<longleftrightarrow> n = 7"
proof -
  have "(0x80 :: u64) = push_bit 7 1" "(0x80 :: u8) = push_bit 7 1" by simp_all
  then show "bit (0x80 :: u64) n \<longleftrightarrow> n = 7" "bit (0x80 :: u8) n \<longleftrightarrow> n = 7"
    by (simp_all only: bit_push_bit_iff bit_1_iff) auto
qed

lemma tail_byte:
  fixes v :: u64
  shows "(ucast (ucast ((v AND 0x7f) OR 0x80) AND 0x7f :: u8) :: u64) = v AND 0x7f"
    and "(ucast ((v AND 0x7f) OR 0x80) :: u8) AND 0x80 \<noteq> 0"
    and "(ucast (ucast (v AND 0x7f) AND 0x7f :: u8) :: u64) = v AND 0x7f"
    and "(ucast (v AND 0x7f) :: u8) AND 0x80 = 0"
proof -
  have m: "(0x7f :: u64) = mask 7" "(0x7f :: u8) = mask 7" by (simp_all add: mask_eq_exp_minus_1)
  show "(ucast (ucast ((v AND 0x7f) OR 0x80) AND 0x7f :: u8) :: u64) = v AND 0x7f"
    unfolding m by (intro bit_word_eqI) (simp only: bit_simps bit_80, auto)
  show "(ucast (ucast (v AND 0x7f) AND 0x7f :: u8) :: u64) = v AND 0x7f"
    unfolding m by (intro bit_word_eqI) (auto simp: bit_simps)
  show "(ucast (v AND 0x7f) :: u8) AND 0x80 = 0"
    unfolding m by (intro bit_word_eqI) (simp only: bit_simps bit_80, auto)
  have "bit ((ucast ((v AND 0x7f) OR 0x80) :: u8) AND 0x80) 7" by (simp add: bit_simps bit_80)
  then show "(ucast ((v AND 0x7f) OR 0x80) :: u8) AND 0x80 \<noteq> 0" by auto
qed

lemma int_tail_reads:
  assumes "unat v * 2 ^ shift < 2 ^ 64" and "shift \<le> 63"
  shows "decodeInteger_loop (pre @ int_tail v @ suf) (length pre) a shift =
    (Inr (a + push_bit shift v), length pre + length (int_tail v))"
  using assms
proof (induction v arbitrary: pre a shift rule: int_tail.induct)
  case (1 v)
  let ?buf = "pre @ int_tail v @ suf"
  note unfold = decodeInteger_loop.simps [of ?buf "length pre" a shift]
  show ?case
  proof (cases "v \<ge> 128")
    case True
    have tail: "int_tail v = ucast ((v AND 0x7f) OR 0x80) # int_tail (drop_bit 7 v)"
      using True int_tail.simps [of v] by simp
    then have at: "?buf ! length pre = ucast ((v AND 0x7f) OR 0x80)" "\<not> length ?buf \<le> length pre"
      by (simp_all add: nth_append)
    have u: "128 \<le> unat v" using True by (simp add: word_le_nat_alt)
    have sh: "shift + 7 \<le> 63"
    proof (rule ccontr)
      assume "\<not> shift + 7 \<le> 63"
      then have "(2 :: nat) ^ 57 \<le> 2 ^ shift" by (intro power_increasing) auto
      then have "128 * 2 ^ 57 \<le> unat v * 2 ^ shift" using u by (intro mult_le_mono)
      then show False using 1(2) by simp
    qed
    have "unat (drop_bit 7 v) * 2 ^ (shift + 7) \<le> unat v * 2 ^ shift"
      unfolding unat_seven power_add using mult_le_mono1 [OF div_times_less_eq_dividend [of "unat v" 128], of "2 ^ shift"]
      by (simp add: ac_simps)
    then have small: "unat (drop_bit 7 v) * 2 ^ (shift + 7) < 2 ^ 64" using 1(2) by (rule le_less_trans)
    have "decodeInteger_loop ?buf (length pre) a shift =
        decodeInteger_loop ((pre @ [ucast ((v AND 0x7f) OR 0x80)]) @ int_tail (drop_bit 7 v) @ suf)
          (length (pre @ [ucast ((v AND 0x7f) OR 0x80) :: u8])) (a + push_bit shift (v AND 0x7f)) (shift + 7)"
      unfolding unfold using at sh tail_byte(1,2) [of v] by (simp add: Let_def tail)
    also have "\<dots> = (Inr (a + push_bit shift (v AND 0x7f) + push_bit (shift + 7) (drop_bit 7 v)),
        length (pre @ [ucast ((v AND 0x7f) OR 0x80) :: u8]) + length (int_tail (drop_bit 7 v)))"
      using 1(1) [OF True small sh] .
    finally show ?thesis by (simp only: add.assoc seven_bits) (simp add: tail)
  next
    case False
    then have tail: "int_tail v = [ucast (v AND 0x7f)]" using int_tail.simps [of v] by simp
    have "v AND 0x7f = v"
    proof -
      have m: "(0x7f :: u64) = mask 7" by (simp add: mask_eq_exp_minus_1)
      have "unat v < 2 ^ 7" using False by (simp add: word_le_nat_alt)
      then have "take_bit 7 v = v" by (simp add: word_unat_eq_iff unsigned_take_bit_eq take_bit_nat_eq_self)
      then show ?thesis unfolding m by (simp add: take_bit_eq_mask)
    qed
    then show ?thesis
      unfolding unfold using tail_byte(3,4) [of v] by (simp add: tail nth_append)
  qed
qed

lemma prefix_byte:
  assumes "p \<le> 8" and "pat AND mask p = 0"
  shows "(pat OR mask p) AND mask p = (mask p :: u8)"
    and "v < (ucast (mask p :: u8) :: u64) \<Longrightarrow> (ucast ((pat OR ucast v) AND mask p) :: u64) = v"
proof -
  show "(pat OR mask p) AND mask p = (mask p :: u8)" by (intro bit_word_eqI) (auto simp: bit_simps)
  assume v: "v < (ucast (mask p :: u8) :: u64)"
  have "(ucast (mask p :: u8) :: u64) = mask p" using assms(1) by (intro bit_word_eqI) (auto simp: bit_simps)
  then have "unat v < unat (mask p :: u64)" using v by (simp add: word_less_nat_alt)
  also have "unat (mask p :: u64) < 2 ^ p"
    by (metis take_bit_nat_less_exp unsigned_take_bit_eq take_bit_of_mask min.idem)
  finally have "take_bit p v = v" by (simp add: word_unat_eq_iff unsigned_take_bit_eq take_bit_nat_eq_self)
  then have b: "bit v i \<Longrightarrow> i < p" for i by (metis bit_take_bit_iff)
  have z: "\<not> (bit pat i \<and> i < p)" for i
    using arg_cong [OF assms(2), of "\<lambda>w. bit w i"] assms(1) by (auto simp: bit_and_iff bit_mask_iff)
  show "(ucast ((pat OR ucast v) AND mask p) :: u64) = v"
    using assms(1) z by (intro bit_word_eqI) (auto simp: bit_simps dest: b)
qed

lemma reads_decodeInteger:
  assumes "p \<le> 8" and "pat AND mask p = 0"
  shows "reads (decodeInteger p) (int_bytes v p pat) v"
proof (rule readsI)
  fix pre suf :: bytes
  note mp = maxPrefix_mask [OF assms(1)]
  show "decodeInteger p (pre @ int_bytes v p pat @ suf) (length pre) = (Inr v, length pre + length (int_bytes v p pat))"
  proof (cases "v < ucast (mask p :: u8)")
    case True
    then show ?thesis using prefix_byte(2) [OF assms True] by (simp add: int_bytes_def mp decodeInteger_def nth_append)
  next
    case False
    let ?w = "v - ucast (mask p :: u8)"
    have "decodeInteger p (pre @ int_bytes v p pat @ suf) (length pre) =
        decodeInteger_loop ((pre @ [pat OR mask p]) @ int_tail ?w @ suf) (length (pre @ [pat OR mask p])) (ucast (mask p :: u8)) 0"
      using False prefix_byte(1) [OF assms] by (simp add: int_bytes_def mp decodeInteger_def nth_append Let_def)
    also have "\<dots> = (Inr (ucast (mask p :: u8) + push_bit 0 ?w), length (pre @ [pat OR mask p]) + length (int_tail ?w))"
      using unsigned_less [of ?w, where 'a = nat] by (intro int_tail_reads) simp_all
    finally show ?thesis using False by (simp add: int_bytes_def mp)
  qed
qed

lemma int_bytes_hd:
  assumes "p \<le> 8" and "m AND mask p = 0"
  shows "int_bytes v p pat \<noteq> []" and "(hd (int_bytes v p pat)) AND m = pat AND m"
proof -
  show "int_bytes v p pat \<noteq> []" by (simp add: int_bytes_def)
  have z: "\<not> (bit m i \<and> i < p)" for i
    using arg_cong [OF assms(2), of "\<lambda>w. bit w i"] assms(1) by (auto simp: bit_and_iff bit_mask_iff)
  have "ucast v AND m = 0" if "v < (ucast (mask p :: u8) :: u64)"
  proof -
    have "(ucast (mask p :: u8) :: u64) = mask p" using assms(1) by (intro bit_word_eqI) (auto simp: bit_simps)
    then have "unat v < unat (mask p :: u64)" using that by (simp add: word_less_nat_alt)
    also have "unat (mask p :: u64) < 2 ^ p"
      by (metis take_bit_nat_less_exp unsigned_take_bit_eq take_bit_of_mask min.idem)
    finally have "take_bit p v = v" by (simp add: word_unat_eq_iff unsigned_take_bit_eq take_bit_nat_eq_self)
    then have b: "bit v i \<Longrightarrow> i < p" for i by (metis bit_take_bit_iff)
    show ?thesis using z by (intro bit_word_eqI) (auto simp: bit_simps dest: b)
  qed
  moreover have "mask p AND m = 0" using assms(2) by (simp add: and.commute)
  ultimately show "(hd (int_bytes v p pat)) AND m = pat AND m"
    by (simp add: int_bytes_def maxPrefix_mask [OF assms(1)] bit.conj_disj_distrib2)
qed

subsection \<open>String literals\<close>

lemma huffman_encode_inj: "huffman_encode s = huffman_encode t \<Longrightarrow> s = t"
  using huffman_decode_iff [of "max (length s) (length t)" "huffman_encode s"] by (metis Inr_inject max.cobounded1 max.cobounded2)

definition str_bytes :: "bytes \<Rightarrow> nat \<Rightarrow> u8 \<Rightarrow> u8 \<Rightarrow> bytes" where
  "str_bytes str p base h =
     (if length (huffman_encode str) < length str
      then int_bytes (word_of_nat (length (huffman_encode str))) p (base OR h) @ huffman_encode str
      else int_bytes (word_of_nat (length str)) p base @ str)"

lemma encodeString_eq: "encodeString out str p base h = out @ str_bytes str p base h"
  by (simp add: encodeString_def str_bytes_def encodeInteger_eq Let_def)

definition literal_prefix :: "nat \<Rightarrow> u8 \<Rightarrow> u8 \<Rightarrow> bool" where
  "literal_prefix p base h \<longleftrightarrow> p \<le> 8 \<and> base AND mask p = 0 \<and> h AND mask p = 0 \<and> base AND h = 0 \<and> h \<noteq> 0"

lemma literal_prefixes: "literal_prefix 7 0x00 0x80" "literal_prefix 3 0x20 0x08"
  by (simp_all add: literal_prefix_def mask_eq_exp_minus_1)

lemma decodeString_eq:
  assumes "literal_prefix p base h" and len: "length (pre @ str_bytes str p base h @ suf) < 2 ^ 31"
  shows "if length str \<le> m
    then decodeString p h m (pre @ str_bytes str p base h @ suf) (length pre) =
      (Inr str, length pre + length (str_bytes str p base h))
    else isl (fst (decodeString p h m (pre @ str_bytes str p base h @ suf) (length pre)))"
proof -
  define huff where "huff \<longleftrightarrow> length (huffman_encode str) < length str"
  define body where "body = (if huff then huffman_encode str else str)"
  define pat where "pat = (if huff then base OR h else base)"
  let ?int = "int_bytes (word_of_nat (length body)) p pat" and ?buf = "pre @ str_bytes str p base h @ suf"
  have p: "p \<le> 8" "base AND mask p = 0" "h AND mask p = 0" "base AND h = 0" "h \<noteq> 0"
    using assms(1) by (simp_all add: literal_prefix_def)
  have s: "str_bytes str p base h = ?int @ body" by (simp add: str_bytes_def huff_def body_def pat_def)
  have pat0: "pat AND mask p = 0" using p(2,3) by (simp add: pat_def bit.conj_disj_distrib2)
  have "hd ?int AND h = pat AND h" by (rule int_bytes_hd(2) [OF p(1,3)])
  moreover have "?buf ! length pre = hd ?int"
    using int_bytes_hd(1) [OF p(1,3), of "word_of_nat (length body)" pat] by (simp add: s nth_append hd_conv_nth)
  ultimately have flag: "(?buf ! length pre AND h \<noteq> 0) = huff"
    using p(4,5) by (simp add: pat_def bit.conj_disj_distrib2)
  have blen: "length body < 2 ^ 31" using len by (simp add: s)
  then have ub: "unat (word_of_nat (length body) :: u64) = length body"
    by (simp add: unsigned_of_nat take_bit_nat_eq_self)
  have int: "decodeInteger p ?buf (length pre) = (Inr (word_of_nat (length body)), length (pre @ ?int))"
    using readsD [OF reads_decodeInteger [OF p(1) pat0], of pre "word_of_nat (length body)" "body @ suf"] len by (simp add: s)
  have avail: "\<not> (word_of_nat (length body) :: u64) > word_of_nat (length ?buf - length (pre @ ?int))"
  proof -
    have "length ?buf - length (pre @ ?int) = length body + length suf" by (simp add: s)
    moreover have "unat (word_of_nat (length body + length suf) :: u64) = length body + length suf"
      using len by (simp add: s unsigned_of_nat take_bit_nat_eq_self del: of_nat_add)
    ultimately show ?thesis using ub by (simp add: word_less_nat_alt del: of_nat_add)
  qed
  have raw: "mid ?buf (to_int (length (pre @ ?int))) (to_int (length body)) = body"
    using mid_append [of "pre @ ?int" body suf] len by (simp add: s)
  have nonempty: "\<not> length ?buf \<le> length pre"
    using int_bytes_hd(1) [OF p(1,3), of "word_of_nat (length body)" pat] by (simp add: s)
  have r: "decodeString p h m ?buf (length pre) =
      (if \<not> huff \<and> length body > m \<or> huff \<and> m \<le> size_max div 4 \<and> length body > m * 4
       then (Inl ''QPACK string literal exceeds the configured decoded limit'', length (pre @ ?int))
       else (if huff then huffman_decode m body else Inr body, length (pre @ ?int) + length body))"
    unfolding decodeString_def Let_def flag bindR_def int using nonempty avail blen
    by (simp only: if_False prod.case sum.case ub raw) (simp add: int_max_def)
  have lens: "length (pre @ ?int) + length body = length pre + length (str_bytes str p base h)" by (simp add: s)
  show ?thesis
  proof (cases huff)
    case True
    then have b: "body = huffman_encode str" "length body < length str" by (simp_all add: body_def huff_def)
    show ?thesis
    proof (cases "length str \<le> m")
      case True
      then have "huffman_decode m body = Inr str" using b huffman_decode_iff by simp
      with True \<open>huff\<close> b show ?thesis unfolding r lens by simp
    next
      case False
      then have "huffman_decode m body \<noteq> Inr x" for x
        using b(1) huffman_encode_inj [of str x] by (auto simp: huffman_decode_iff)
      then have "isl (huffman_decode m body)" by (cases "huffman_decode m body") auto
      with False \<open>huff\<close> show ?thesis unfolding r by simp
    qed
  next
    case False
    then have "body = str" by (simp add: body_def)
    with False show ?thesis unfolding r lens by simp
  qed
qed

subsection \<open>Field lines\<close>

lemma length_static_table: "length static_table = entryCount"
  by (simp add: static_table_def entryCount_def)

lemma findExact_loop_Some:
  "findExact_loop name v is = Some i \<Longrightarrow>
    i \<in> set is \<and> bytes_of (fst (static_table ! i)) = name \<and> bytes_of (snd (static_table ! i)) = v"
  by (induction "is") (auto simp: entry_matches_def split: if_splits)

lemma findName_loop_Some:
  "findName_loop name is = Some i \<Longrightarrow> i \<in> set is \<and> bytes_of (fst (static_table ! i)) = name"
  by (induction "is") (auto simp: entry_matches_def split: if_splits)

lemma find_static:
  "findExact name v = Some i \<Longrightarrow> i < 99 \<and> nameValueAt i = Some (name, v)"
  "findName name = Some i \<Longrightarrow> i < 99 \<and> (\<exists>w. nameValueAt i = Some (name, w))"
  using findExact_loop_Some [of name v "[0..<entryCount]" i] findName_loop_Some [of name "[0..<entryCount]" i]
  by (auto simp: findExact_def findName_def nameValueAt_def entryCount_def Let_def)

definition field_bytes :: "bytes \<times> bytes \<Rightarrow> bytes" where
  "field_bytes f = (case findExact (fst f) (snd f) of
     Some i \<Rightarrow> int_bytes (word_of_nat i) 6 0xc0
   | None \<Rightarrow> (case findName (fst f) of
       Some i \<Rightarrow> int_bytes (word_of_nat i) 4 0x50 @ str_bytes (snd f) 7 0x00 0x80
     | None \<Rightarrow> str_bytes (fst f) 3 0x20 0x08 @ str_bytes (snd f) 7 0x00 0x80))"

lemma encodeFields_eq: "encodeFields hs out = out @ concat (map field_bytes hs)"
  by (induction hs out rule: encodeFields.induct)
    (auto simp: field_bytes_def encodeInteger_eq encodeString_eq split: option.splits)

text \<open>The size of a field section as \<open>SETTINGS_MAX_FIELD_SECTION_SIZE\<close> counts it.\<close>

definition section_size :: "(bytes \<times> bytes) list \<Rightarrow> nat" where
  "section_size hs = (\<Sum>(n, v)\<leftarrow>hs. length n + length v + 32)"

lemma section_size_simps [simp]: "section_size [] = 0"
  "section_size ((n, v) # hs) = length n + length v + 32 + section_size hs"
  "section_size (hs @ hs') = section_size hs + section_size hs'"
  by (simp_all add: section_size_def)

lemma appendField_eq:
  "appendField out n v l d =
    (if d + (length n + length v + 32) \<le> l then Inr (out @ [(n, v)], d + (length n + length v + 32))
     else Inl ''QPACK decoded fields exceed the configured byte limit'')"
  by (auto simp: appendField_def Let_def)

lemma remaining_eq: "remainingFieldBytes l d r = l - d - r"
  by (auto simp: remainingFieldBytes_def)

lemma index_masks:
  "(0xc0 :: u8) AND mask 6 = 0" "(0x50 :: u8) AND mask 4 = 0"
  "(0x80 :: u8) AND mask 6 = 0" "(0x40 :: u8) AND mask 6 = 0"
  "(0x80 :: u8) AND mask 4 = 0" "(0x40 :: u8) AND mask 4 = 0" "(0x10 :: u8) AND mask 4 = 0"
  "(0x80 :: u8) AND mask 3 = 0" "(0x40 :: u8) AND mask 3 = 0" "(0x20 :: u8) AND mask 3 = 0"
  by (simp_all add: mask_eq_exp_minus_1)

lemma str_bytes_hd:
  assumes "literal_prefix p base h" and "m AND mask p = 0" and "h AND m = 0"
  shows "str_bytes str p base h \<noteq> []" and "(hd (str_bytes str p base h)) AND m = base AND m"
  using int_bytes_hd [OF _ assms(2)] assms(1,3) by (auto simp: str_bytes_def literal_prefix_def bit.conj_disj_distrib2)

lemma isl_bindR: "isl (fst (r buf off)) \<Longrightarrow> isl (fst (bindR r k buf off))"
  by (auto simp: bindR_def isl_def split: prod.splits sum.splits)

lemma decodeField_eq:
  assumes len: "length (pre @ field_bytes (n, v) @ suf) < 2 ^ 31"
  defines "buf \<equiv> pre @ field_bytes (n, v) @ suf"
  shows "decodeField l d buf (length pre) = (Inr (n, v), length pre + length (field_bytes (n, v))) \<or>
    isl (fst (decodeField l d buf (length pre))) \<and> \<not> d + (length n + length v + 32) \<le> l"
proof (cases "findExact n v")
  case (Some i)
  have f: "field_bytes (n, v) = int_bytes (word_of_nat i) 6 0xc0" using Some by (simp add: field_bytes_def)
  have at: "buf ! length pre = hd (int_bytes (word_of_nat i) 6 0xc0)"
    using int_bytes_hd(1) [of 6 0 "word_of_nat i" "0xc0"] by (simp add: buf_def f nth_append hd_conv_nth)
  have b: "buf ! length pre AND 0x80 \<noteq> 0" "buf ! length pre AND 0x40 \<noteq> 0"
    unfolding at int_bytes_hd(2) [of 6, OF _ index_masks(3), simplified] int_bytes_hd(2) [of 6, OF _ index_masks(4), simplified]
    by simp_all
  have i: "i < 99" "nameValueAt i = Some (n, v)" using find_static(1) [OF Some] by simp_all
  then have "unat (word_of_nat i :: u64) = i" by (simp add: unsigned_of_nat take_bit_nat_eq_self)
  moreover have "decodeInteger 6 buf (length pre) = (Inr (word_of_nat i), length pre + length (field_bytes (n, v)))"
    unfolding buf_def f using len by (intro readsD reads_decodeInteger index_masks) (simp_all add: f)
  ultimately show ?thesis using i(2) b by (simp add: decodeField_def Let_def bindR_def returnR_def)
next
  case None
  note E = None
  have lenb: "length buf < 2 ^ 31" using len by (simp add: buf_def)
  show ?thesis
  proof (cases "findName n")
    case (Some i)
    let ?i = "int_bytes (word_of_nat i) 4 0x50" and ?s = "str_bytes v 7 0x00 0x80"
    have f: "field_bytes (n, v) = ?i @ ?s" using E Some by (simp add: field_bytes_def)
    have buf2: "buf = (pre @ ?i) @ ?s @ suf" by (simp add: buf_def f)
    have at: "buf ! length pre = hd ?i"
      using int_bytes_hd(1) [of 4 0 "word_of_nat i" "0x50"] by (simp add: buf_def f nth_append hd_conv_nth)
    have b: "buf ! length pre AND 0x80 = 0" "buf ! length pre AND 0x40 \<noteq> 0" "buf ! length pre AND 0x10 \<noteq> 0"
      unfolding at int_bytes_hd(2) [of 4, OF _ index_masks(5), simplified] int_bytes_hd(2) [of 4, OF _ index_masks(6), simplified]
        int_bytes_hd(2) [of 4, OF _ index_masks(7), simplified] by simp_all
    obtain w where i: "i < 99" "nameValueAt i = Some (n, w)" using find_static(2) [OF Some] by blast
    then have ui: "unat (word_of_nat i :: u64) = i" by (simp add: unsigned_of_nat take_bit_nat_eq_self)
    have int: "decodeInteger 4 buf (length pre) = (Inr (word_of_nat i), length (pre @ ?i))"
      using readsD [OF reads_decodeInteger [OF _ index_masks(2)], of pre "word_of_nat i" "?s @ suf"] len
      by (simp add: buf_def f)
    have s: "if length v \<le> l - d - length n
      then decodeString 7 0x80 (l - d - length n) buf (length (pre @ ?i)) = (Inr v, length (pre @ ?i) + length ?s)
      else isl (fst (decodeString 7 0x80 (l - d - length n) buf (length (pre @ ?i))))"
      using lenb decodeString_eq [OF literal_prefixes(1), of "pre @ ?i" v suf "l - d - length n"] unfolding buf2 by blast
    have r: "decodeField l d buf (length pre) =
        bindR (decodeString 7 0x80 (l - d - length n)) (\<lambda>v. returnR (n, v)) buf (length (pre @ ?i))"
      using b int i(2) ui by (simp add: decodeField_def Let_def bindR_def remaining_eq)
    show ?thesis
    proof (cases "length v \<le> l - d - length n")
      case True
      then show ?thesis unfolding r using s by (simp add: bindR_def returnR_def f)
    next
      case False
      then have "isl (fst (decodeField l d buf (length pre)))" unfolding r using s by (simp add: isl_bindR)
      with False show ?thesis by auto
    qed
  next
    case None
    let ?n = "str_bytes n 3 0x20 0x08" and ?s = "str_bytes v 7 0x00 0x80"
    have f: "field_bytes (n, v) = ?n @ ?s" using E None by (simp add: field_bytes_def)
    have buf2: "buf = (pre @ ?n) @ ?s @ suf" by (simp add: buf_def f)
    have at: "buf ! length pre = hd ?n"
      using str_bytes_hd(1) [OF literal_prefixes(2), of 0 n] by (simp add: buf_def f nth_append hd_conv_nth)
    have b: "buf ! length pre AND 0x80 = 0" "buf ! length pre AND 0x40 = 0" "buf ! length pre AND 0x20 \<noteq> 0"
      unfolding at str_bytes_hd(2) [OF literal_prefixes(2) index_masks(8), simplified]
        str_bytes_hd(2) [OF literal_prefixes(2) index_masks(9), simplified]
        str_bytes_hd(2) [OF literal_prefixes(2) index_masks(10), simplified] by simp_all
    have s: "if length v \<le> l - d - length n
      then decodeString 7 0x80 (l - d - length n) buf (length (pre @ ?n)) = (Inr v, length (pre @ ?n) + length ?s)
      else isl (fst (decodeString 7 0x80 (l - d - length n) buf (length (pre @ ?n))))"
      using lenb decodeString_eq [OF literal_prefixes(1), of "pre @ ?n" v suf "l - d - length n"] unfolding buf2 by blast
    have t: "if length n \<le> l - d
      then decodeString 3 0x08 (l - d) buf (length pre) = (Inr n, length (pre @ ?n))
      else isl (fst (decodeString 3 0x08 (l - d) buf (length pre)))"
      using decodeString_eq [OF literal_prefixes(2), of pre n "?s @ suf" "l - d"] len by (simp add: buf_def f)
    have r: "decodeField l d buf (length pre) =
        bindR (decodeString 3 0x08 (l - d)) (\<lambda>name. bindR (decodeString 7 0x80 (l - d - length name)) (\<lambda>v. returnR (name, v)))
          buf (length pre)"
      using b by (simp add: decodeField_def remaining_eq)
    show ?thesis
    proof (cases "length n \<le> l - d")
      case True
      then have r2: "decodeField l d buf (length pre) =
          bindR (decodeString 7 0x80 (l - d - length n)) (\<lambda>v. returnR (n, v)) buf (length (pre @ ?n))"
        unfolding r using t by (simp add: bindR_def)
      show ?thesis
      proof (cases "length v \<le> l - d - length n")
        case True
        then show ?thesis unfolding r2 using s by (simp add: bindR_def returnR_def f)
      next
        case False
        then have "isl (fst (decodeField l d buf (length pre)))" unfolding r2 using s by (simp add: isl_bindR)
        with False show ?thesis by auto
      qed
    next
      case False
      then have "isl (fst (decodeField l d buf (length pre)))" unfolding r using t by (simp add: isl_bindR)
      with False show ?thesis by auto
    qed
  qed
qed

lemma field_bytes_nonempty: "field_bytes f \<noteq> []"
proof -
  have "int_bytes v p pat \<noteq> []" for v p pat by (simp add: int_bytes_def)
  moreover from this have "str_bytes s p base h \<noteq> []" for s p base h by (simp add: str_bytes_def)
  ultimately show ?thesis by (simp add: field_bytes_def split: option.splits)
qed

subsection \<open>Field sections\<close>

definition within_limits :: "nat \<Rightarrow> nat \<Rightarrow> (bytes \<times> bytes) list \<Rightarrow> bool" where
  "within_limits maxFieldCount maxDecodedBytes hs \<longleftrightarrow>
     (maxFieldCount = 0 \<or> length hs \<le> maxFieldCount) \<and> (maxDecodedBytes = 0 \<or> section_size hs \<le> maxDecodedBytes)"

lemma decodeFields_encoded:
  assumes "length (pre @ concat (map field_bytes hs)) < 2 ^ 31"
  shows "decodeFields c l (pre @ concat (map field_bytes hs)) (length pre) out d = Inr r \<longleftrightarrow>
    r = out @ hs \<and> (hs = [] \<or> (c = 0 \<or> length out + length hs \<le> c) \<and> d + section_size hs \<le> l)"
  using assms
proof (induction hs arbitrary: pre out d)
  case Nil
  then show ?case by (auto simp: decodeFields.simps [of c l pre "length pre"])
next
  case (Cons h hs)
  obtain n v where h: "h = (n, v)" by fastforce
  let ?f = "field_bytes (n, v)" and ?rest = "concat (map field_bytes hs)" and ?size = "length n + length v + 32"
  let ?buf = "pre @ concat (map field_bytes (h # hs))"
  have buf: "?buf = pre @ ?f @ ?rest" "?buf = (pre @ ?f) @ ?rest" by (simp_all add: h)
  have more: "length pre < length ?buf" using field_bytes_nonempty [of "(n, v)"] by (simp add: h)
  note unfold = decodeFields.simps [of c l ?buf "length pre" out d]
  note F = decodeField_eq [of pre n v ?rest l d, folded buf(1), OF Cons.prems]
  have IH: "decodeFields c l ?buf (length pre + length ?f) (out @ [(n, v)]) (d + ?size) = Inr r \<longleftrightarrow>
      r = (out @ [(n, v)]) @ hs \<and> (hs = [] \<or> (c = 0 \<or> length (out @ [(n, v)]) + length hs \<le> c) \<and> d + ?size + section_size hs \<le> l)"
    using Cons.IH [of "pre @ ?f" "out @ [(n, v)]" "d + ?size"] Cons.prems unfolding buf(2) by simp
  show ?case
  proof (cases "c > 0 \<and> length out \<ge> c")
    case True
    then show ?thesis unfolding unfold using more by auto
  next
    case count: False
    show ?thesis
    proof (cases "d + ?size \<le> l")
      case True
      then have "decodeField l d ?buf (length pre) = (Inr (n, v), length pre + length ?f)" using F by blast
      then have next_field: "decodeFields c l ?buf (length pre) out d =
          decodeFields c l ?buf (length pre + length ?f) (out @ [(n, v)]) (d + ?size)"
        unfolding unfold using more count True by (auto simp: appendField_eq)
      show ?thesis unfolding next_field IH using count True by (cases hs) (auto simp: h)
    next
      case big: False
      have "\<exists>e. decodeFields c l ?buf (length pre) out d = Inl e"
      proof (cases "decodeField l d ?buf (length pre) = (Inr (n, v), length pre + length ?f)")
        case True
        then show ?thesis unfolding unfold using more count big by (auto simp: appendField_eq)
      next
        case False
        then obtain e o' where "decodeField l d ?buf (length pre) = (Inl e, o')"
          using F by (cases "decodeField l d ?buf (length pre)") (auto simp: isl_def)
        then show ?thesis unfolding unfold using more count by auto
      qed
      then show ?thesis using big by (auto simp: h)
    qed
  qed
qed

lemma decode_prefix:
  assumes "length ([0, 0] @ bs) < 2 ^ 31"
  shows "decodeFieldSection c m ([0, 0] @ bs) = decodeFields c (if m = 0 then size_max else m) ([0, 0] @ bs) 2 [] 0"
proof -
  have b: "int_bytes 0 8 0 = [0]" "int_bytes 0 7 0 = [0]"
    by (simp_all add: int_bytes_def maxPrefix_mask mask_eq_exp_minus_1)
  have "decodeInteger 8 ([] @ [0] @ 0 # bs) (length ([] :: bytes)) = (Inr 0, length ([] :: bytes) + length [0 :: u8])"
    unfolding b(1) [symmetric] using assms by (intro readsD reads_decodeInteger) (simp_all add: b)
  moreover have "decodeInteger 7 ([0] @ [0] @ bs) (length [0 :: u8]) = (Inr 0, length [0 :: u8] + length [0 :: u8])"
    using readsD [OF reads_decodeInteger [of 7 0 0], of "[0]" bs] assms by (simp add: b)
  ultimately show ?thesis by (simp add: decodeFieldSection_def numeral_2_eq_2)
qed

lemma decodeFields_limits:
  assumes "decodeFields c l buf off out d = Inr r" and "d = section_size out" and "d \<le> l" and "c = 0 \<or> length out \<le> c"
  shows "section_size r \<le> l \<and> (c = 0 \<or> length r \<le> c)"
  using assms
proof (induction c l buf off out d rule: decodeFields.induct)
  case (1 c l buf off out d)
  note unfold = decodeFields.simps [of c l buf off out d]
  show ?case
  proof (cases "off < length buf")
    case False
    then show ?thesis using 1(2-) unfold by auto
  next
    case True
    then have c: "\<not> (c > 0 \<and> length out \<ge> c)" using 1(2) unfold by (auto split: if_splits)
    obtain n v off' where f: "decodeField l d buf off = (Inr (n, v), off')"
      using 1(2) True c unfolding unfold by (cases "decodeField l d buf off"; cases "fst (decodeField l d buf off)") auto
    have size: "d + (length n + length v + 32) \<le> l"
      using 1(2) True c f unfolding unfold by (auto simp: appendField_eq split: if_splits)
    then have a: "appendField out n v l d = Inr (out @ [(n, v)], d + (length n + length v + 32))" by (simp add: appendField_eq)
    have "decodeFields c l buf off' (out @ [(n, v)]) (d + (length n + length v + 32)) = Inr r"
      using 1(2) True c f a unfolding unfold by simp
    then show ?thesis
      using 1(1) [OF True c f [symmetric] refl refl a refl] 1(3) size c by (cases "c = 0") (simp_all add: Suc_le_eq)
  qed
qed

subsection \<open>The value of an integer\<close>

text \<open>The value RFC 7541, section 5.1, gives to a sequence of continuation bytes, over the natural numbers.\<close>

primrec tail_value :: "bytes \<Rightarrow> nat" where
  "tail_value [] = 0"
| "tail_value (b # bs) = unat (b AND 0x7f) + 128 * tail_value bs"

definition integer_value :: "nat \<Rightarrow> bytes \<Rightarrow> nat" where
  "integer_value prefixBits bs = unat (hd bs AND maxPrefix prefixBits) + tail_value (tl bs)"

lemma take_drop_Suc:
  assumes "off < off'" and "off < length xs"
  shows "take (off' - off) (drop off xs) = xs ! off # take (off' - (off + 1)) (drop (off + 1) xs)"
proof -
  have "off' - off = Suc (off' - (off + 1))" using assms by simp
  then show ?thesis using Cons_nth_drop_Suc [OF assms(2)] by (metis Suc_eq_plus1 take_Suc_Cons)
qed

lemma decodeInteger_loop_value:
  assumes "decodeInteger_loop buf off v shift = (Inr x, off')" and "shift \<le> 63"
  shows "x = v + word_of_nat (2 ^ shift * tail_value (take (off' - off) (drop off buf))) \<and>
    7 * (off' - off) \<le> 70 - shift"
  using assms
proof (induction buf off v shift rule: decodeInteger_loop.induct)
  case (1 buf off v shift)
  note e = decodeInteger_loop.simps [of buf off v shift]
  let ?b = "buf ! off"
  let ?v = "v + push_bit shift (ucast (?b AND 0x7f))"
  have pb: "push_bit shift (ucast (?b AND 0x7f)) = (word_of_nat (2 ^ shift * unat (?b AND 0x7f)) :: u64)"
    by (simp add: push_bit_eq_mult ac_simps)
  have in_buf: "\<not> length buf \<le> off" using 1(2) e by (auto split: if_splits)
  note moves = decodeInteger_loop_moves [OF 1(2)]
  have bytes: "take (off' - off) (drop off buf) = ?b # take (off' - (off + 1)) (drop (off + 1) buf)"
    using in_buf moves by (intro take_drop_Suc) auto
  show ?case
  proof (cases "?b AND 0x80 = 0")
    case True
    then have "x = ?v" "off' = off + 1" using 1(2) e in_buf by (simp_all add: Let_def)
    then show ?thesis using 1(3) unfolding bytes by (simp add: pb)
  next
    case False
    then have sh: "\<not> 63 < shift + 7" using 1(2) e in_buf by (auto simp: Let_def split: if_splits)
    then have next_byte: "decodeInteger_loop buf (off + 1) ?v (shift + 7) = (Inr x, off')"
      using 1(2) e in_buf False by (simp add: Let_def)
    show ?thesis
      using 1(1) [OF in_buf refl refl False sh next_byte] sh moves unfolding bytes
      by (auto simp: pb distrib_left power_add)
  qed
qed

lemma decodeInteger_is_value:
  assumes "decodeInteger p buf off = (Inr x, off')"
  shows "x = word_of_nat (integer_value p (take (off' - off) (drop off buf))) \<and> off' - off \<le> 11"
proof -
  note moves = decodeInteger_moves [OF assms]
  have bytes: "take (off' - off) (drop off buf) = buf ! off # take (off' - (off + 1)) (drop (off + 1) buf)"
    using moves by (intro take_drop_Suc) auto
  show ?thesis
  proof (cases "(ucast (buf ! off AND maxPrefix p) :: u64) < ucast (maxPrefix p)")
    case True
    then have "x = ucast (buf ! off AND maxPrefix p)" "off' = off + 1"
      using assms moves by (simp_all add: decodeInteger_def)
    then show ?thesis unfolding bytes integer_value_def by simp
  next
    case False
    then have "decodeInteger_loop buf (off + 1) (ucast (buf ! off AND maxPrefix p)) 0 = (Inr x, off')"
      using assms moves by (simp add: decodeInteger_def)
    then show ?thesis
      using decodeInteger_loop_value [of buf "off + 1" "ucast (buf ! off AND maxPrefix p)" 0 x off'] moves
      unfolding bytes integer_value_def by auto
  qed
qed

subsection \<open>An example section\<close>

lemma bytes_of_inj: "bytes_of s = bytes_of t \<longleftrightarrow> s = t"
proof -
  have nat: "unat (of_char c :: u8) = of_char c" for c
  proof -
    have "unat (word_of_nat (of_char c) :: u8) = of_char c"
      using nat_of_char_less_256 [of c] by (simp add: unsigned_of_nat take_bit_nat_eq_self)
    then show ?thesis unfolding of_nat_of_char .
  qed
  have "inj (of_char :: char \<Rightarrow> u8)"
    by (rule injI) (metis nat of_char_eq_iff)
  then show ?thesis by (simp add: bytes_of_def inj_map_eq_map)
qed

lemma length_bytes_of [simp]: "length (bytes_of s) = length s" by (simp add: bytes_of_def)

lemma static_table_at: "i < 99 \<Longrightarrow> static_table ! i \<in> set static_table"
  by (simp add: length_static_table entryCount_def)

lemma findExact_None: "(n, v) \<notin> set static_table \<Longrightarrow> findExact (bytes_of n) (bytes_of v) = None"
proof (rule ccontr)
  assume "(n, v) \<notin> set static_table" and "findExact (bytes_of n) (bytes_of v) \<noteq> None"
  then obtain i where "findExact (bytes_of n) (bytes_of v) = Some i" by auto
  from findExact_loop_Some [OF this [unfolded findExact_def]] have "static_table ! i = (n, v)" "i < 99"
    by (auto simp: bytes_of_inj entryCount_def prod_eq_iff)
  with static_table_at [of i] \<open>(n, v) \<notin> set static_table\<close> show False by simp
qed

lemma findName_None: "n \<notin> fst ` set static_table \<Longrightarrow> findName (bytes_of n) = None"
proof (rule ccontr)
  assume "n \<notin> fst ` set static_table" and "findName (bytes_of n) \<noteq> None"
  then obtain i where "findName (bytes_of n) = Some i" by auto
  from findName_loop_Some [OF this [unfolded findName_def]] have "fst (static_table ! i) = n" "i < 99"
    by (auto simp: bytes_of_inj entryCount_def)
  with static_table_at [of i] \<open>n \<notin> fst ` set static_table\<close> show False by force
qed

definition example_fields :: "(bytes \<times> bytes) list" where
  "example_fields = [(bytes_of '':path'', bytes_of ''/''), (bytes_of ''age'', bytes_of ''7''), (bytes_of ''x'', bytes_of ''7'')]"

lemma example_find: "findExact (bytes_of '':path'') (bytes_of ''/'') = Some 1" 
  "findName (bytes_of ''age'') = Some 2" "huffman_encode (bytes_of ''7'') = [0x77]" "huffman_encode (bytes_of ''x'') = [0xf3]"
  by code_simp+

lemma example_bytes: "bytes_of ''7'' = [0x37]" "bytes_of ''x'' = [0x78]" by code_simp+

lemma example_not_found: "findExact (bytes_of ''age'') (bytes_of ''7'') = None" 
  "findExact (bytes_of ''x'') (bytes_of ''7'') = None" "findName (bytes_of ''x'') = None"
  by (simp_all add: findExact_None findName_None static_table_def)

lemma example_section: "encodeFieldSection example_fields = [0, 0, 0xc1, 0x52, 0x01, 0x37, 0x21, 0x78, 0x01, 0x37]"
  by (simp add: encodeFieldSection_def example_fields_def example_bytes
      example_find [unfolded example_bytes] example_not_found [unfolded example_bytes] encodeString_def encodeInteger_def maxPrefix_mask mask_eq_exp_minus_1 Let_def)

lemma encoded_section_decodes:
  assumes "length (encodeFieldSection hs) < 2 ^ 31" and "section_size hs \<le> size_max"
  shows "decodeFieldSection c m (encodeFieldSection hs) = Inr fields \<longleftrightarrow> fields = hs \<and> within_limits c m hs"
proof -
  have e: "encodeFieldSection hs = [0, 0] @ concat (map field_bytes hs)" by (simp add: encodeFieldSection_def encodeFields_eq)
  show ?thesis
    using decodeFields_encoded [of "[0, 0]" hs c "if m = 0 then size_max else m" "[]" 0 fields] assms
    unfolding e decode_prefix [OF assms(1) [unfolded e]] within_limits_def by (auto simp: numeral_2_eq_2)
qed

lemma example_small: "length (encodeFieldSection example_fields) < 2 ^ 31" "section_size example_fields \<le> size_max"
  "section_size example_fields = 108" "length example_fields = 3"
  unfolding example_section by (simp_all add: example_fields_def section_size_def size_max_def)

subsection \<open>Properties\<close>

text \<open>
  C33. What \<open>encodeFieldSection\<close> wrote, \<open>decodeFieldSection\<close> reads back as the same list of fields (the
  static table, the three representations and the Huffman coding of literals included) exactly when the
  list is within the configured number of fields and of decoded bytes; beyond either limit it is refused.
\<close>

theorem qpack_roundtrip:
  assumes "length (encodeFieldSection hs) < 2 ^ 31" and "section_size hs \<le> size_max"
  shows "decodeFieldSection maxFieldCount maxDecodedBytes (encodeFieldSection hs) = Inr fields \<longleftrightarrow>
    fields = hs \<and> within_limits maxFieldCount maxDecodedBytes hs"
  using assms by (rule encoded_section_decodes)

theorem qpack_roundtrip_witness:
  "decodeFieldSection 3 200 [0, 0, 0xc1, 0x52, 0x01, 0x37, 0x21, 0x78, 0x01, 0x37] = Inr example_fields \<and>
    (\<forall>fields. decodeFieldSection 2 200 (encodeFieldSection example_fields) \<noteq> Inr fields) \<and>
    (\<forall>fields. decodeFieldSection 3 100 (encodeFieldSection example_fields) \<noteq> Inr fields)"
  using qpack_roundtrip [OF example_small(1,2), of 3 200] qpack_roundtrip [OF example_small(1,2), of 2 200]
    qpack_roundtrip [OF example_small(1,2), of 3 100]
  by (simp add: within_limits_def example_small example_section)

text \<open>
  C34. Whatever the bytes, a section that is accepted has at most the configured number of fields, and its
  fields, at 32 bytes of overhead each, are within the configured decoded size: the limits hold of
  hostile input as well, Huffman-coded literals included.
\<close>

theorem qpack_decode_bounds:
  assumes "decodeFieldSection maxFieldCount maxDecodedBytes buf = Inr fields"
  shows "(maxFieldCount = 0 \<or> length fields \<le> maxFieldCount) \<and>
    section_size fields \<le> (if maxDecodedBytes = 0 then size_max else maxDecodedBytes)"
proof -
  obtain off where "decodeFields maxFieldCount (if maxDecodedBytes = 0 then size_max else maxDecodedBytes) buf off [] 0 = Inr fields"
    using assms by (auto simp: decodeFieldSection_def Let_def split: prod.splits sum.splits if_splits)
  from decodeFields_limits [OF this] show ?thesis by simp
qed

theorem qpack_decode_bounds_witness:
  "decodeFieldSection 3 200 (encodeFieldSection example_fields) = Inr example_fields \<and> section_size example_fields \<le> 200"
proof -
  have d: "decodeFieldSection 3 200 (encodeFieldSection example_fields) = Inr example_fields"
    by (simp add: encoded_section_decodes [OF example_small(1,2)] example_small(3,4) within_limits_def)
  from qpack_decode_bounds [OF d] d show ?thesis by simp
qed

text \<open>
  C35. An accepted integer is the value RFC 7541 gives to the bytes it consumed, at most eleven of them,
  modulo \<open>2\<^sup>6\<^sup>4\<close>: the loop stops at the tenth continuation byte but does not test that the sum fits,
  so a value of \<open>2\<^sup>6\<^sup>4\<close> or more is accepted reduced.
\<close>

theorem decodeInteger_value:
  assumes "decodeInteger prefixBits buf off = (Inr v, off')"
  shows "unat v = integer_value prefixBits (take (off' - off) (drop off buf)) mod 2 ^ 64 \<and>
    off < off' \<and> off' \<le> length buf \<and> off' - off \<le> 11"
  using decodeInteger_is_value [OF assms] decodeInteger_moves [OF assms] by (simp add: unsigned_of_nat take_bit_eq_mod)

text \<open>The value \<open>2\<^sup>6\<^sup>4\<close>, with an eight-bit prefix: accepted, as zero.\<close>

definition overlong_integer :: bytes where
  "overlong_integer = [0xff, 0x81, 0xfe, 0xff, 0xff, 0xff, 0xff, 0xff, 0xff, 0xff, 0x01]"

lemma overlong_accepted: "decodeInteger 8 overlong_integer 0 = (Inr 0, 11)"
  by (simp add: decodeInteger_def overlong_integer_def maxPrefix_mask mask_eq_exp_minus_1 decodeInteger_loop.simps Let_def)

theorem decodeInteger_value_witness:
  "decodeInteger 8 overlong_integer 0 = (Inr 0, 11) \<and> integer_value 8 overlong_integer = 2 ^ 64 \<and>
    integer_value 8 overlong_integer mod 2 ^ 64 = unat (0 :: u64)"
proof -
  have "integer_value 8 overlong_integer = 2 ^ 64"
    by (simp add: integer_value_def overlong_integer_def maxPrefix_mask mask_eq_exp_minus_1)
  then show ?thesis
    using overlong_accepted decodeInteger_value [OF overlong_accepted] by (simp add: overlong_integer_def)
qed

end
