(* ===== verification/Sw_Ranges.thy ===== *)
theory Sw_Ranges
  imports Sw_Map
begin

text \<open>
  Sets of 64-bit numbers kept as an ordered map from the start of a range to its end: the
  acknowledged bytes of a sending stream (half-open ranges) and the retired peer streams
  (inclusive ranges) of \<open>SwQuicConnection\<close>. Both insertions of the source merge the new
  range with the range before it and with those behind it, and differ only in which ranges
  touch; \<open>mergeRange\<close> is that code with the test as an argument. What it needs of the test
  is the locale \<open>touching_ranges\<close>, interpreted on both uses.
\<close>

subsection \<open>Operations\<close>

fun mergeFollowing :: "(u64 \<Rightarrow> u64 \<Rightarrow> bool) \<Rightarrow> u64 \<Rightarrow> (u64, u64) smap \<Rightarrow> u64 \<times> (u64, u64) smap" where
  "mergeFollowing touches hi [] = (hi, [])"
| "mergeFollowing touches hi ((a, b) # it) =
     (if touches hi a then mergeFollowing touches (if b > hi then b else hi) it else (hi, (a, b) # it))"

definition mergePrevious ::
  "(u64 \<Rightarrow> u64 \<Rightarrow> bool) \<Rightarrow> u64 \<Rightarrow> u64 \<Rightarrow> (u64, u64) smap \<Rightarrow> u64 \<times> u64 \<times> (u64, u64) smap" where
  "mergePrevious touches lo hi m =
     (let prior = takeWhile (\<lambda>e. fst e < lo) m
      in if prior = [] then (lo, hi, m)
         else let previous = last prior
              in if touches (snd previous) lo
                 then (fst previous, if snd previous > hi then snd previous else hi,
                       fst (smap_erase (fst previous) m))
                 else (lo, hi, m))"

definition mergeRange :: "(u64 \<Rightarrow> u64 \<Rightarrow> bool) \<Rightarrow> u64 \<Rightarrow> u64 \<Rightarrow> (u64, u64) smap \<Rightarrow> (u64, u64) smap" where
  "mergeRange touches lo hi m =
     (case mergePrevious touches lo hi m of (lo', hi', m') \<Rightarrow>
        (case mergeFollowing touches hi' (lowerBound lo' m') of (hi'', rest) \<Rightarrow>
           smap_insert lo' hi'' (takeWhile (\<lambda>e. fst e < lo') m' @ rest)))"

text \<open>The entry before \<open>upper_bound(k)\<close>, if there is one.\<close>

definition rangeBelow :: "u64 \<Rightarrow> (u64, u64) smap \<Rightarrow> (u64 \<times> u64) option" where
  "rangeBelow k m =
     (let prior = takeWhile (\<lambda>e. fst e \<le> k) m in if prior = [] then None else Some (last prior))"

subsection \<open>The represented set\<close>

lemma takeWhile_append_stop:
  "(\<forall>e\<in>set xs. P e) \<Longrightarrow> (\<forall>e\<in>set ys. \<not> P e) \<Longrightarrow> takeWhile P (xs @ ys) = xs"
  "(\<forall>e\<in>set xs. P e) \<Longrightarrow> (\<forall>e\<in>set ys. \<not> P e) \<Longrightarrow> dropWhile P (xs @ ys) = ys"
  by (induction xs; cases ys; simp)+

lemma smap_insert_between:
  "(\<forall>e\<in>set xs. fst e < k) \<Longrightarrow> (\<forall>e\<in>set ys. k < fst e) \<Longrightarrow> smap_insert k v (xs @ ys) = xs @ (k, v) # ys"
proof (induction xs)
  case Nil
  then show ?case by (cases ys) auto
next
  case (Cons e xs)
  then show ?case by (cases e) auto
qed

locale touching_ranges =
  fixes touches :: "u64 \<Rightarrow> u64 \<Rightarrow> bool" and stop :: "u64 \<Rightarrow> nat"
  assumes touches_iff: "touches b a \<longleftrightarrow> unat a \<le> stop b"
    and stop_le: "stop b \<le> stop c \<longleftrightarrow> b \<le> c"
begin

definition elems :: "(u64, u64) smap \<Rightarrow> nat set" where
  "elems m = (\<Union>e\<in>set m. {unat (fst e)..<stop (snd e)})"

definition ok :: "(u64, u64) smap \<Rightarrow> bool" where
  "ok m \<longleftrightarrow> sorted_wrt (\<lambda>e e'. stop (snd e) < unat (fst e')) m \<and> (\<forall>e\<in>set m. unat (fst e) < stop (snd e))"

lemma elems_simps [simp]: "elems [] = {}" "elems (e # m) = {unat (fst e)..<stop (snd e)} \<union> elems m"
  "elems (m @ m') = elems m \<union> elems m'"
  by (auto simp: elems_def)

lemma ok_Nil [simp]: "ok []"
  by (simp add: ok_def)

lemma ok_Cons: "ok (e # m) \<longleftrightarrow> unat (fst e) < stop (snd e) \<and> (\<forall>e'\<in>set m. stop (snd e) < unat (fst e')) \<and> ok m"
  by (auto simp: ok_def)

lemma ok_append: "ok (m @ m') \<longleftrightarrow> ok m \<and> ok m' \<and> (\<forall>e\<in>set m. \<forall>e'\<in>set m'. stop (snd e) < unat (fst e'))"
  by (auto simp: ok_def sorted_wrt_append)

lemma ok_bounds: "ok m \<Longrightarrow> e \<in> set m \<Longrightarrow> unat (fst e) < stop (snd e)"
  by (simp add: ok_def)

lemma ok_smap: "ok m \<Longrightarrow> smap_ok m"
proof (induction m)
  case (Cons e m)
  then have "unat (fst e) < unat (fst e')" if "e' \<in> set m" for e'
    using that by (auto simp: ok_Cons intro: less_trans)
  with Cons show ?case by (cases e) (auto simp: smap_ok_Cons ok_Cons word_less_nat_alt)
qed simp

lemma following:
  assumes "ok m" and "\<forall>e\<in>set m. unat lo \<le> unat (fst e)" and "unat lo < stop hi"
    and "mergeFollowing touches hi m = (hi', rest)"
  shows "ok rest \<and> set rest \<subseteq> set m \<and> (\<forall>e\<in>set rest. stop hi' < unat (fst e)) \<and> stop hi \<le> stop hi' \<and>
    elems rest \<union> {unat lo..<stop hi'} = elems m \<union> {unat lo..<stop hi}"
  using assms
proof (induction m arbitrary: hi)
  case (Cons e it)
  obtain a b where e: "e = (a, b)" by fastforce
  note 2 = Cons.IH Cons.prems [unfolded e]
  show ?case
  proof (cases "touches hi a")
    case True
    let ?hi = "if b > hi then b else hi"
    have a: "unat a \<le> stop hi" using True by (simp add: touches_iff)
    have hi: "stop hi \<le> stop ?hi" "stop b \<le> stop ?hi" "stop ?hi = stop hi \<or> stop ?hi = stop b"
      by (auto simp: stop_le)
    have "ok it" "\<forall>e\<in>set it. unat lo \<le> unat (fst e)" using 2(2,3) by (auto simp: ok_Cons)
    moreover have "unat lo < stop ?hi" using 2(4) hi(1) by linarith
    moreover have "mergeFollowing touches ?hi it = (hi', rest)" using 2(5) True by (simp only: mergeFollowing.simps if_True)
    ultimately have r: "ok rest" "set rest \<subseteq> set it" "\<forall>e\<in>set rest. stop hi' < unat (fst e)" "stop ?hi \<le> stop hi'"
      "elems rest \<union> {unat lo..<stop hi'} = elems it \<union> {unat lo..<stop ?hi}" using 2(1) by blast+
    have cover: "{unat lo..<stop ?hi} = {unat a..<stop b} \<union> {unat lo..<stop hi}"
      using 2(3) a hi by auto
    have "elems rest \<union> {unat lo..<stop hi'} = elems ((a, b) # it) \<union> {unat lo..<stop hi}"
      unfolding r(5) cover elems_simps fst_conv snd_conv by blast
    moreover have "set rest \<subseteq> set ((a, b) # it)" "stop hi \<le> stop hi'" using r(2,4) hi(1) by auto
    ultimately show ?thesis unfolding e using r(1,3) by blast
  next
    case False
    then have "stop hi < unat a" "unat a < stop b" using 2(2) by (auto simp: touches_iff ok_Cons)
    moreover have "hi' = hi" "rest = (a, b) # it" using 2(5) False by auto
    ultimately show ?thesis unfolding e using 2(2) by (auto simp: ok_Cons)
  qed
qed simp

lemma previous:
  assumes "ok m" and "unat lo < stop hi" and "mergePrevious touches lo hi m = (lo', hi', m')"
  obtains A B where "m' = A @ B" "ok A" "ok B" "\<forall>e\<in>set A. stop (snd e) < unat lo'" "\<forall>e\<in>set B. lo \<le> fst e"
    "\<forall>e\<in>set A. \<forall>e'\<in>set B. stop (snd e) < unat (fst e')" "lo' \<le> lo" "unat lo' < stop hi'"
    "elems m' \<union> {unat lo'..<stop hi'} = elems m \<union> {unat lo..<stop hi}"
proof -
  define A B where "A = takeWhile (\<lambda>e. fst e < lo) m" and "B = dropWhile (\<lambda>e. fst e < lo) m"
  have m: "m = A @ B" by (simp add: A_def B_def)
  have B: "\<forall>e\<in>set B. lo \<le> fst e"
    using lowerBound_filter [OF ok_smap [OF assms(1)], of lo] by (auto simp: B_def lowerBound_def)
  have A: "\<forall>e\<in>set A. fst e < lo" by (auto simp: A_def dest: set_takeWhileD)
  have ok: "ok A" "ok B" "\<forall>e\<in>set A. \<forall>e'\<in>set B. stop (snd e) < unat (fst e')" using assms(1) by (auto simp: m ok_append)
  show thesis
  proof (cases "A = []")
    case True
    then have "lo' = lo" "hi' = hi" "m' = m" using assms(3) by (simp_all add: mergePrevious_def A_def [symmetric] Let_def)
    then show thesis using that [of "[]" B] B ok assms(2) True m by simp
  next
    case False
    then obtain A' p where A': "A = A' @ [p]" using rev_exhaust by blast
    have okA: "ok A'" "unat (fst p) < stop (snd p)" "\<forall>e\<in>set A'. stop (snd e) < unat (fst p)"
      using ok(1) unfolding A' by (auto simp: ok_append ok_Cons)
    show thesis
    proof (cases "touches (snd p) lo")
      case True
      let ?hi = "if snd p > hi then snd p else hi"
      have e: "lo' = fst p" "hi' = ?hi" "m' = filter (\<lambda>e. fst e \<noteq> fst p) m"
        using assms(3) False True by (auto simp: mergePrevious_def A_def [symmetric] Let_def A' smap_erase_def)
      have nb: "\<forall>e\<in>set B. fst e \<noteq> fst p" using B A A' by auto
      have na: "\<forall>e\<in>set A'. fst e \<noteq> fst p" using okA(3) ok_bounds [OF okA(1)] by (fastforce dest: less_trans)
      have m': "m' = A' @ B" using na nb by (auto simp: e m A' filter_id_conv intro!: arg_cong2 [where f = append])
      have hi: "stop hi \<le> stop ?hi" "stop (snd p) \<le> stop ?hi" "stop ?hi = stop hi \<or> stop ?hi = stop (snd p)"
        by (auto simp: stop_le)
      have lo: "fst p \<le> lo" "unat lo \<le> stop (snd p)" using A A' True by (auto simp: touches_iff)
      then have "{unat (fst p)..<stop ?hi} = {unat (fst p)..<stop (snd p)} \<union> {unat lo..<stop hi}"
        using hi assms(2) by (auto simp: word_le_nat_alt)
      then show thesis using that [of A' B] okA ok B m' lo hi by (auto simp: e m A')
    next
      case no: False
      have e: "lo' = lo" "hi' = hi" "m' = m"
        using assms(3) False no by (simp_all add: mergePrevious_def A_def [symmetric] Let_def A')
      have "stop (snd p) < unat lo" using no by (simp add: touches_iff)
      then have "\<forall>e\<in>set A. stop (snd e) < unat lo" using okA by (auto simp: A')
      then show thesis using that [of A B] ok B m e assms(2) by simp
    qed
  qed
qed

lemma merge:
  assumes "ok m" and "unat lo < stop hi"
  shows "ok (mergeRange touches lo hi m) \<and> elems (mergeRange touches lo hi m) = elems m \<union> {unat lo..<stop hi}"
proof -
  obtain lo' hi' m' where p: "mergePrevious touches lo hi m = (lo', hi', m')" by (metis prod_cases3)
  from previous [OF assms p] obtain A B where
    m': "m' = A @ B" and ok: "ok A" "ok B" and A: "\<forall>e\<in>set A. stop (snd e) < unat lo'" and B: "\<forall>e\<in>set B. lo \<le> fst e"
    and AB: "\<forall>e\<in>set A. \<forall>e'\<in>set B. stop (snd e) < unat (fst e')" and lo: "lo' \<le> lo" "unat lo' < stop hi'"
    and elems: "elems m' \<union> {unat lo'..<stop hi'} = elems m \<union> {unat lo..<stop hi}" .
  have below: "\<forall>e\<in>set A. fst e < lo'" using A ok_bounds [OF ok(1)] by (force simp: word_less_nat_alt)
  have above: "\<forall>e\<in>set B. \<not> fst e < lo'" using B lo(1) by (auto simp: not_less)
  have parts: "takeWhile (\<lambda>e. fst e < lo') m' = A" "lowerBound lo' m' = B"
    unfolding m' lowerBound_def by (rule takeWhile_append_stop [OF below above])+
  obtain hi'' rest where f: "mergeFollowing touches hi' B = (hi'', rest)" by fastforce
  have lo_B: "\<forall>e\<in>set B. unat lo' \<le> unat (fst e)" using above by (auto simp: not_less word_le_nat_alt)
  have F: "ok rest" "set rest \<subseteq> set B" "\<forall>e\<in>set rest. stop hi'' < unat (fst e)" "stop hi' \<le> stop hi''"
    "elems rest \<union> {unat lo'..<stop hi''} = elems B \<union> {unat lo'..<stop hi'}"
    using following [OF ok(2) lo_B lo(2) f] by blast+
  have "\<forall>e\<in>set rest. lo' < fst e" using F(3,4) lo(2) by (auto simp: word_less_nat_alt)
  then have r: "mergeRange touches lo hi m = A @ (lo', hi'') # rest"
    using below by (simp add: mergeRange_def p parts f smap_insert_between)
  have AR: "\<forall>e\<in>set A. \<forall>e'\<in>set rest. stop (snd e) < unat (fst e')" using AB F(2) by blast
  have "ok (A @ (lo', hi'') # rest)"
    unfolding ok_append ok_Cons using ok(1) F(1,3,4) lo(2) A AR by fastforce
  moreover have "elems (A @ (lo', hi'') # rest) = elems A \<union> (elems rest \<union> {unat lo'..<stop hi''})" by auto
  then have "elems (A @ (lo', hi'') # rest) = elems m \<union> {unat lo..<stop hi}"
    unfolding F(5) using elems m' by auto
  ultimately show ?thesis by (simp add: r)
qed

lemma disjoint_entries:
  "ok m \<Longrightarrow> e \<in> set m \<Longrightarrow> e' \<in> set m \<Longrightarrow> e \<noteq> e' \<Longrightarrow> stop (snd e) < unat (fst e') \<or> stop (snd e') < unat (fst e)"
  by (induction m) (auto simp: ok_Cons)

lemma below_Some:
  assumes "ok m"
  shows "rangeBelow k m = Some p \<longleftrightarrow> p \<in> set m \<and> fst p \<le> k \<and> (\<forall>e\<in>set m. fst e \<le> k \<longrightarrow> e = p \<or> stop (snd e) < unat (fst p))"
proof -
  have tw: "takeWhile (\<lambda>e. fst e \<le> k) m = filter (\<lambda>e. fst e \<le> k) m"
    using takeWhile_sorted [OF ok_smap [OF assms], of "\<lambda>a. a \<le> k"] by auto
  let ?A = "filter (\<lambda>e. fst e \<le> k) m"
  have ok: "ok ?A" using assms by (induction m) (auto simp: ok_Cons)
  show ?thesis
  proof (cases "?A = []")
    case True
    then show ?thesis by (auto simp: rangeBelow_def tw Let_def filter_empty_conv)
  next
    case False
    then obtain A q where A: "?A = A @ [q]" using rev_exhaust by blast
    have q: "q \<in> set m" "fst q \<le> k" using arg_cong [OF A, of set] by auto
    have last: "\<forall>e\<in>set m. fst e \<le> k \<longrightarrow> e = q \<or> stop (snd e) < unat (fst q)"
    proof (intro ballI impI)
      fix e
      assume "e \<in> set m" and "fst e \<le> k"
      then have "e \<in> set (A @ [q])" unfolding A [symmetric] by simp
      then show "e = q \<or> stop (snd e) < unat (fst q)" using ok unfolding A by (auto simp: ok_append)
    qed
    have "q = p" if p: "p \<in> set m" "fst p \<le> k" "\<forall>e\<in>set m. fst e \<le> k \<longrightarrow> e = p \<or> stop (snd e) < unat (fst p)"
      using last q p ok_bounds [OF assms q(1)] ok_bounds [OF assms p(1)] by force
    then show ?thesis using q last False by (auto simp: rangeBelow_def tw Let_def A)
  qed
qed

lemma covered:
  assumes "ok m" and "unat k < n"
  shows "{unat k..<n} \<subseteq> elems m \<longleftrightarrow> (\<exists>p. rangeBelow k m = Some p \<and> n \<le> stop (snd p))"
proof
  assume sub: "{unat k..<n} \<subseteq> elems m"
  then obtain p where p: "p \<in> set m" "unat (fst p) \<le> unat k" "unat k < stop (snd p)"
    using assms(2) by (auto simp: elems_def)
  have "rangeBelow k m = Some p"
    unfolding below_Some [OF assms(1)] using p disjoint_entries [OF assms(1) p(1)]
    by (force simp: word_le_nat_alt)
  moreover have "n \<le> stop (snd p)"
  proof (rule ccontr)
    assume "\<not> n \<le> stop (snd p)"
    then have "stop (snd p) \<in> elems m" using sub p by auto
    then obtain e where e: "e \<in> set m" "unat (fst e) \<le> stop (snd p)" "stop (snd p) < stop (snd e)"
      by (auto simp: elems_def)
    then show False using disjoint_entries [OF assms(1) p(1) e(1)] p by force
  qed
  ultimately show "\<exists>p. rangeBelow k m = Some p \<and> n \<le> stop (snd p)" by blast
next
  assume "\<exists>p. rangeBelow k m = Some p \<and> n \<le> stop (snd p)"
  then obtain p where p: "p \<in> set m" "fst p \<le> k" "n \<le> stop (snd p)" using below_Some [OF assms(1)] by blast
  then have "{unat k..<n} \<subseteq> {unat (fst p)..<stop (snd p)}" by (auto simp: word_le_nat_alt)
  then show "{unat k..<n} \<subseteq> elems m" using p(1) by (force simp: elems_def)
qed

text \<open>Ranges that do not touch leave a gap between any two: there are no more ranges than gaps.\<close>

lemma gaps:
  assumes "ok m" and "\<forall>e\<in>set m. a < unat (fst e)" and "\<forall>e\<in>set m. stop (snd e) \<le> L"
  shows "length m \<le> card ({a..<L} - elems m)"
  using assms
proof (induction m arbitrary: a)
  case (Cons e m)
  let ?rest = "{stop (snd e)..<L} - elems m"
  have e: "unat (fst e) < stop (snd e)" "\<forall>e'\<in>set m. stop (snd e) < unat (fst e')" "a < unat (fst e)" "stop (snd e) \<le> L"
    using Cons.prems by (auto simp: ok_Cons)
  have "a \<notin> elems m" using e by (auto simp: elems_def)
  then have "insert a ?rest \<subseteq> {a..<L} - elems (e # m)" using e by auto
  moreover have "a \<notin> ?rest" using e by auto
  ultimately have "Suc (card ?rest) \<le> card ({a..<L} - elems (e # m))"
    by (metis card_insert_disjoint card_mono finite_Diff finite_atLeastLessThan)
  then show ?case using Cons.IH [of "stop (snd e)"] Cons.prems e by (simp add: ok_Cons)
qed simp

lemma compact:
  assumes "ok m" and "\<forall>e\<in>set m. stop (snd e) \<le> L"
  shows "length m \<le> 1 + card ({..<L} - elems m)"
proof (cases m)
  case (Cons e m')
  have e: "ok m'" "unat (fst e) < stop (snd e)" "\<forall>e'\<in>set m'. stop (snd e) < unat (fst e')"
    using assms(1) by (auto simp: Cons ok_Cons)
  have "length m' \<le> card ({stop (snd e)..<L} - elems m')"
    using gaps [OF e(1,3)] assms(2) by (simp add: Cons)
  also have "\<dots> \<le> card ({..<L} - elems m)" using e by (intro card_mono) (auto simp: Cons)
  finally show ?thesis by (simp add: Cons)
qed simp

end

end
