(* ===== verification/Quic_SendStream.thy ===== *)
theory Quic_SendStream
  imports Sw_Ranges
begin

text \<open>
  \<open>SendStream_\<close> of \<open>SwQuicConnection\<close> (\<open>src/core/io/quic/SwQuicConnection.h\<close>): the sending half of
  a stream, and the bookkeeping of its acknowledged bytes. The bytes below
  \<open>contiguousAckedOffset\<close> are acknowledged, and so are the half-open ranges of \<open>ackedRanges\<close>
  above it. The theory shows that after any sequence of acknowledgements, in any order and
  overlapping in any way, the answers are those of the set of acknowledged bytes.
\<close>

subsection \<open>State\<close>

record SendStream =
  tx_buffer :: bytes
  tx_bufferOffset :: nat
  tx_nextOffset :: u64
  tx_finQueued :: bool
  tx_finSent :: bool
  tx_finAcked :: bool
  tx_resetQueued :: bool
  tx_resetAt :: bool
  tx_resetAcked :: bool
  tx_resetReliableSize :: u64
  tx_peerCreditPending :: bool
  tx_contiguousAckedOffset :: u64
  tx_ackedRanges :: "(u64, u64) smap"

definition newSendStream :: SendStream where
  "newSendStream =
     \<lparr>tx_buffer = [], tx_bufferOffset = 0, tx_nextOffset = 0, tx_finQueued = False, tx_finSent = False,
      tx_finAcked = False, tx_resetQueued = False, tx_resetAt = False, tx_resetAcked = False,
      tx_resetReliableSize = 0, tx_peerCreditPending = False, tx_contiguousAckedOffset = 0,
      tx_ackedRanges = []\<rparr>"

subsection \<open>Acknowledged bytes\<close>

text \<open>Two half-open ranges are merged when the first ends where the second starts or behind it.\<close>

definition ackedTouches :: "u64 \<Rightarrow> u64 \<Rightarrow> bool" where
  "ackedTouches hi a \<longleftrightarrow> a \<le> hi"

fun collapseAcked :: "u64 \<Rightarrow> (u64, u64) smap \<Rightarrow> u64 \<times> (u64, u64) smap" where
  "collapseAcked c [] = (c, [])"
| "collapseAcked c ((a, b) # m) =
     (if a > c then (c, (a, b) # m) else collapseAcked (if b > c then b else c) m)"

definition rangeEnd :: "u64 \<Rightarrow> u64 \<Rightarrow> u64" where
  "rangeEnd off len = (let maximum = - 1 in if len > maximum - off then maximum else off + len)"

definition acknowledgeSendStreamRange :: "u64 \<Rightarrow> u64 \<Rightarrow> SendStream \<Rightarrow> SendStream" where
  "acknowledgeSendStreamRange off len s =
     (if len = 0 then s
      else
        let stop = rangeEnd off len in
        if stop \<le> tx_contiguousAckedOffset s then s
        else
          let off' = (if off < tx_contiguousAckedOffset s then tx_contiguousAckedOffset s else off);
              ranges = mergeRange ackedTouches off' stop (tx_ackedRanges s);
              (c, ranges') = collapseAcked (tx_contiguousAckedOffset s) ranges
          in s\<lparr>tx_contiguousAckedOffset := c, tx_ackedRanges := ranges'\<rparr>)"

definition isSendStreamRangeAcked :: "SendStream \<Rightarrow> u64 \<Rightarrow> u64 \<Rightarrow> bool" where
  "isSendStreamRangeAcked s off len \<longleftrightarrow>
     (if len = 0 then True
      else
        let stop = rangeEnd off len in
        if stop \<le> tx_contiguousAckedOffset s then True
        else
          let off' = (if off < tx_contiguousAckedOffset s then tx_contiguousAckedOffset s else off)
          in (case rangeBelow off' (tx_ackedRanges s) of
                None \<Rightarrow> False
              | Some r \<Rightarrow> fst r \<le> off' \<and> snd r \<ge> stop))"

subsection \<open>The set of acknowledged bytes\<close>

interpretation acked_ranges: touching_ranges ackedTouches unat
  by unfold_locales (simp_all add: ackedTouches_def word_le_nat_alt)

definition acks_ok :: "SendStream \<Rightarrow> bool" where
  "acks_ok s \<longleftrightarrow> acked_ranges.ok (tx_ackedRanges s) \<and> (\<forall>e\<in>set (tx_ackedRanges s). tx_contiguousAckedOffset s < fst e)"

definition acked_bytes :: "SendStream \<Rightarrow> nat set" where
  "acked_bytes s = {..<unat (tx_contiguousAckedOffset s)} \<union> acked_ranges.elems (tx_ackedRanges s)"

lemma acks_ok_new: "acks_ok newSendStream" "acked_bytes newSendStream = {}"
  by (simp_all add: acks_ok_def acked_bytes_def newSendStream_def)

text \<open>Both functions look at the two fields only.\<close>

lemma acks_cong:
  assumes "tx_contiguousAckedOffset s = tx_contiguousAckedOffset t" and "tx_ackedRanges s = tx_ackedRanges t"
  shows "acks_ok s = acks_ok t" and "acked_bytes s = acked_bytes t"
    and "isSendStreamRangeAcked s = isSendStreamRangeAcked t"
  using assms by (auto simp: acks_ok_def acked_bytes_def isSendStreamRangeAcked_def fun_eq_iff)

lemma unat_max: "unat (- 1 :: u64) = 2 ^ 64 - 1"
  by (simp add: unsigned_minus_1_eq_mask mask_eq_exp_minus_1)

lemma unat_rangeEnd: "unat (rangeEnd off len) = min (unat off + unat len) (2 ^ 64 - 1)"
proof -
  have top: "unat (- 1 - off) = 2 ^ 64 - 1 - unat off" by (simp add: unat_minus unat_max)
  show ?thesis
  proof (cases "unat off + unat len < 2 ^ 64")
    case True
    then have "unat (off + len) = unat off + unat len" by (rule unat_plus)
    with True top show ?thesis by (auto simp: rangeEnd_def word_less_nat_alt Let_def)
  next
    case False
    with top show ?thesis
      using unsigned_less [of off, where 'a = nat] by (auto simp: rangeEnd_def word_less_nat_alt unat_max Let_def)
  qed
qed

lemma collapse:
  assumes "acked_ranges.ok m" and "collapseAcked c m = (c', m')"
  shows "acked_ranges.ok m' \<and> (\<forall>e\<in>set m'. c' < fst e) \<and>
    {..<unat c'} \<union> acked_ranges.elems m' = {..<unat c} \<union> acked_ranges.elems m"
  using assms
proof (induction c m rule: collapseAcked.induct)
  case (2 c a b m)
  have ok: "acked_ranges.ok m" and ab: "unat a < unat b" and above: "\<forall>e\<in>set m. unat b < unat (fst e)"
    using 2(2) by (auto simp: acked_ranges.ok_Cons)
  show ?case
  proof (cases "a > c")
    case True
    then have "\<forall>e\<in>set ((a, b) # m). c < fst e" using above ab by (auto simp: word_less_nat_alt)
    then show ?thesis using 2(2,3) True by auto
  next
    case False
    let ?c = "if b > c then b else c"
    have u: "{..<unat ?c} = {..<unat c} \<union> {unat a..<unat b}"
      using False by (auto simp: word_less_nat_alt)
    have e: "collapseAcked ?c m = (c', m')" using 2(3) False by (simp only: collapseAcked.simps if_False)
    have "acked_ranges.ok m' \<and> (\<forall>e\<in>set m'. c' < fst e) \<and>
        {..<unat c'} \<union> acked_ranges.elems m' = {..<unat ?c} \<union> acked_ranges.elems m"
      using 2(1) [OF False ok e] .
    then show ?thesis unfolding u by auto
  qed
qed simp

lemma acknowledge_acks:
  assumes "acks_ok s" and "unat off < 2 ^ 64 - 1"
  shows "acks_ok (acknowledgeSendStreamRange off len s) \<and>
    acked_bytes (acknowledgeSendStreamRange off len s) = acked_bytes s \<union> {unat off..<unat (rangeEnd off len)}"
proof -
  let ?c = "tx_contiguousAckedOffset s" and ?stop = "rangeEnd off len" and ?s = "acknowledgeSendStreamRange off len s"
  consider "len = 0" | "len \<noteq> 0" "?stop \<le> ?c" | "len \<noteq> 0" "?c < ?stop" by fastforce
  then show ?thesis
  proof cases
    case 1
    then have "unat ?stop \<le> unat off" by (simp add: unat_rangeEnd)
    with 1 assms show ?thesis by (simp add: acknowledgeSendStreamRange_def)
  next
    case 2
    then show ?thesis using assms by (auto simp: acknowledgeSendStreamRange_def acked_bytes_def word_le_nat_alt)
  next
    case 3
    define off' where "off' = (if off < ?c then ?c else off)"
    obtain c m where c: "collapseAcked ?c (mergeRange ackedTouches off' ?stop (tx_ackedRanges s)) = (c, m)" by fastforce
    have s: "?s = s\<lparr>tx_contiguousAckedOffset := c, tx_ackedRanges := m\<rparr>"
      using 3 c by (simp add: acknowledgeSendStreamRange_def off'_def Let_def)
    have ranges: "acked_ranges.ok (tx_ackedRanges s)" using assms by (simp add: acks_ok_def)
    have "0 < unat len" using 3 by (simp add: unat_gt_0)
    then have less: "unat off' < unat ?stop"
      using 3 assms(2) by (auto simp: off'_def unat_rangeEnd word_less_nat_alt)
    note M = acked_ranges.merge [OF ranges less]
    have "acked_ranges.ok m \<and> (\<forall>e\<in>set m. c < fst e) \<and>
        {..<unat c} \<union> acked_ranges.elems m = {..<unat ?c} \<union> (acked_ranges.elems (tx_ackedRanges s) \<union> {unat off'..<unat ?stop})"
      using collapse [OF conjunct1 [OF M] c] M by simp
    moreover have "{..<unat ?c} \<union> {unat off'..<unat ?stop} = {..<unat ?c} \<union> {unat off..<unat ?stop}"
      using 3 by (auto simp: off'_def word_less_nat_alt)
    ultimately show ?thesis unfolding s acks_ok_def acked_bytes_def by auto
  qed
qed

lemma acked_below:
  assumes "acks_ok s" and "{unat k..<n} \<subseteq> acked_bytes s" and "tx_contiguousAckedOffset s \<le> k"
  shows "{unat k..<n} \<subseteq> acked_ranges.elems (tx_ackedRanges s)"
  using assms(2,3) by (auto simp: acked_bytes_def word_le_nat_alt)

lemma contiguous_first_gap:
  assumes "acks_ok s"
  shows "unat (tx_contiguousAckedOffset s) \<notin> acked_bytes s"
  using assms by (auto simp: acks_ok_def acked_bytes_def acked_ranges.elems_def word_less_nat_alt)

lemma contiguous_iff:
  assumes "acks_ok s"
  shows "n \<le> tx_contiguousAckedOffset s \<longleftrightarrow> {..<unat n} \<subseteq> acked_bytes s"
proof
  assume "{..<unat n} \<subseteq> acked_bytes s"
  then show "n \<le> tx_contiguousAckedOffset s"
    using contiguous_first_gap [OF assms] by (force simp: word_le_nat_alt not_less [symmetric])
qed (auto simp: acked_bytes_def word_le_nat_alt)

lemma interval_from:
  fixes a c e :: nat
  assumes "{..<c} \<subseteq> A"
  shows "{a..<e} \<subseteq> A \<longleftrightarrow> {max a c..<e} \<subseteq> A"
proof
  assume up: "{max a c..<e} \<subseteq> A"
  show "{a..<e} \<subseteq> A"
  proof
    fix x
    assume "x \<in> {a..<e}"
    then show "x \<in> A" using assms up by (cases "x < c") auto
  qed
qed auto

lemma sendAcked_iff:
  assumes ok: "acks_ok s" and off: "unat off < 2 ^ 64 - 1"
  shows "isSendStreamRangeAcked s off len \<longleftrightarrow> {unat off..<unat (rangeEnd off len)} \<subseteq> acked_bytes s"
proof -
  let ?c = "tx_contiguousAckedOffset s" and ?stop = "rangeEnd off len"
  consider "len = 0" | "len \<noteq> 0" "?stop \<le> ?c" | "len \<noteq> 0" "?c < ?stop" by fastforce
  then show ?thesis
  proof cases
    case 1
    then have "unat ?stop \<le> unat off" by (simp add: unat_rangeEnd)
    with 1 show ?thesis by (simp add: isSendStreamRangeAcked_def)
  next
    case 2
    then show ?thesis by (auto simp: isSendStreamRangeAcked_def acked_bytes_def word_le_nat_alt)
  next
    case 3
    define off' where "off' = (if off < ?c then ?c else off)"
    have ranges: "acked_ranges.ok (tx_ackedRanges s)" using ok by (simp add: acks_ok_def)
    have "0 < unat len" using 3 by (simp add: unat_gt_0)
    then have less: "unat off' < unat ?stop"
      using 3 off by (auto simp: off'_def unat_rangeEnd word_less_nat_alt)
    have "unat off' = max (unat off) (unat ?c)" by (simp add: off'_def word_less_nat_alt max_def)
    then have "{unat off..<unat ?stop} \<subseteq> acked_bytes s \<longleftrightarrow> {unat off'..<unat ?stop} \<subseteq> acked_bytes s"
      using interval_from [of "unat ?c" "acked_bytes s"] by (simp only:) (simp add: acked_bytes_def)
    also have "\<dots> \<longleftrightarrow> {unat off'..<unat ?stop} \<subseteq> acked_ranges.elems (tx_ackedRanges s)"
    proof
      have "?c \<le> off'" by (simp add: off'_def not_less)
      then show "{unat off'..<unat ?stop} \<subseteq> acked_bytes s \<Longrightarrow> {unat off'..<unat ?stop} \<subseteq> acked_ranges.elems (tx_ackedRanges s)"
        using acked_below [OF ok] by blast
    qed (auto simp: acked_bytes_def)
    also have "\<dots> \<longleftrightarrow> (\<exists>r. rangeBelow off' (tx_ackedRanges s) = Some r \<and> ?stop \<le> snd r)"
      using acked_ranges.covered [OF ranges less] by (simp add: word_le_nat_alt)
    also have "\<dots> \<longleftrightarrow> isSendStreamRangeAcked s off len"
    proof -
      have "isSendStreamRangeAcked s off len =
          (case rangeBelow off' (tx_ackedRanges s) of None \<Rightarrow> False | Some r \<Rightarrow> fst r \<le> off' \<and> ?stop \<le> snd r)"
        using 3 unfolding isSendStreamRangeAcked_def off'_def Let_def by (simp add: not_le [symmetric])
      moreover have "fst r \<le> off'" if "rangeBelow off' (tx_ackedRanges s) = Some r" for r
        using that acked_ranges.below_Some [OF ranges] by blast
      ultimately show ?thesis by (cases "rangeBelow off' (tx_ackedRanges s)") auto
    qed
    finally show ?thesis by blast
  qed
qed

subsection \<open>Any sequence of acknowledgements\<close>

definition acknowledgeAll :: "(u64 \<times> u64) list \<Rightarrow> SendStream \<Rightarrow> SendStream" where
  "acknowledgeAll acks = fold (\<lambda>(off, len). acknowledgeSendStreamRange off len) acks"

definition bytes_in :: "(u64 \<times> u64) list \<Rightarrow> nat set" where
  "bytes_in acks = (\<Union>(off, len)\<in>set acks. {unat off..<unat off + unat len})"

lemma acknowledgeAll_acks:
  assumes "acks_ok s" and "\<forall>(off, len)\<in>set acks. unat off + unat len < 2 ^ 64 - 1"
  shows "acks_ok (acknowledgeAll acks s) \<and> acked_bytes (acknowledgeAll acks s) = acked_bytes s \<union> bytes_in acks"
  using assms
proof (induction acks arbitrary: s)
  case (Cons a acks)
  obtain off len where a: "a = (off, len)" by fastforce
  let ?s = "acknowledgeSendStreamRange off len s"
  have fits: "unat off < 2 ^ 64 - 1" "unat (rangeEnd off len) = unat off + unat len"
    using Cons.prems(2) by (auto simp: a unat_rangeEnd)
  note A = acknowledge_acks [OF Cons.prems(1) fits(1), of len]
  have "acks_ok (acknowledgeAll acks ?s) \<and> acked_bytes (acknowledgeAll acks ?s) = acked_bytes ?s \<union> bytes_in acks"
    using Cons.IH [of ?s] A Cons.prems(2) by simp
  then show ?case using A by (auto simp: acknowledgeAll_def bytes_in_def a fits(2))
qed (simp add: acknowledgeAll_def bytes_in_def)

text \<open>
  C37. Whatever ranges are acknowledged, in whatever order and overlap, the sending stream then
  takes a range for acknowledged exactly when each of its bytes is in one of them, and the
  contiguous offset has reached a point exactly when every byte below it is.
\<close>

theorem send_stream_acks_exact:
  assumes "\<forall>(o', l')\<in>set acks. unat o' + unat l' < 2 ^ 64 - 1" and "unat off + unat len < 2 ^ 64 - 1"
  shows "(isSendStreamRangeAcked (acknowledgeAll acks newSendStream) off len \<longleftrightarrow>
      {unat off..<unat off + unat len} \<subseteq> bytes_in acks) \<and>
    (n \<le> tx_contiguousAckedOffset (acknowledgeAll acks newSendStream) \<longleftrightarrow> {..<unat n} \<subseteq> bytes_in acks)"
proof -
  note A = acknowledgeAll_acks [OF acks_ok_new(1) assms(1), unfolded acks_ok_new Un_empty_left]
  have "unat (rangeEnd off len) = unat off + unat len" using assms(2) by (simp add: unat_rangeEnd)
  then show ?thesis using A sendAcked_iff [of "acknowledgeAll acks newSendStream" off len] contiguous_iff assms(2) by simp
qed

lemmas send_eval = acknowledgeAll_def acknowledgeSendStreamRange_def newSendStream_def rangeEnd_def mergeRange_def
  mergePrevious_def ackedTouches_def lowerBound_def smap_erase_def isSendStreamRangeAcked_def rangeBelow_def

text \<open>Three packets of 1000 bytes, acknowledged out of order, the last one twice.\<close>

lemma example_acked:
  "acknowledgeAll [(2000, 1000), (1000, 1000), (2000, 1000), (0, 1000)] newSendStream = newSendStream\<lparr>tx_contiguousAckedOffset := 3000\<rparr>"
  "isSendStreamRangeAcked (acknowledgeAll [(2000, 1000), (1000, 1000)] newSendStream) 1500 1200"
  by (simp_all add: send_eval Let_def)

theorem send_stream_acks_exact_witness:
  "{1500..<2700} \<subseteq> bytes_in [(2000, 1000), (1000, 1000)] \<and>
    {..<3000} \<subseteq> bytes_in [(2000, 1000), (1000, 1000), (2000, 1000), (0, 1000)]"
  using send_stream_acks_exact [of "[(2000, 1000), (1000, 1000)]" 1500 1200]
    send_stream_acks_exact [of "[(2000, 1000), (1000, 1000), (2000, 1000), (0, 1000)]" 0 0 3000] example_acked
  by simp

end
