(* ===== verification/Quic_Connection.thy ===== *)
theory Quic_Connection
  imports Quic_SendStream Quic_Replay Quic_FlowControl Quic_StreamMap
    Quic_LossRecovery Quic_Congestion Quic_TransportParameters
begin

text \<open>
  The stream half of \<open>SwQuicConnection\<close> (\<open>src/core/io/quic/SwQuicConnection.h\<close>): the packet-number
  spaces, the application's calls on a stream, the handlers of STREAM, RESET\_STREAM and
  RESET\_STREAM\_AT frames, flow-control credit and the retirement of finished peer streams.
  A call that can fail returns the error beside the state, because the source keeps what it
  changed before the failure.
\<close>

subsection \<open>State\<close>

datatype conn_State = Open | Closing | Draining | Closed
datatype Role = Client | Server
datatype Level = LevelInitial | LevelHandshake | LevelApplication

record SentRecord =
  sr_retransmittable :: "SwQuicFrame list"
  sr_sentBytes :: nat
  sr_sentTimeMs :: u64
  sr_ackEliciting :: bool

text \<open>A space extends the receive bookkeeping of \<open>rx_space\<close>; the keys themselves are not modelled.\<close>

record Space = rx_space +
  spc_loss :: SwQuicLossRecovery
  spc_hasRxKeys :: bool
  spc_hasTxKeys :: bool
  spc_nextTxPn :: u64
  spc_pendingFrames :: "SwQuicFrame list"
  spc_sentPackets :: "(u64, SentRecord) smap"
  spc_ackDeadlineMs :: u64
  spc_hasAckDeadline :: bool
  spc_lastAckElicitingSentMs :: u64
  spc_hasAckElicitingInFlight :: bool
  spc_largestReceivedTimeMs :: u64
  spc_probesPending :: nat
  spc_ackElicitingSinceAck :: nat

definition newSpace :: Space where
  "newSpace =
     \<lparr>ackTracker = newAckTracker, largestReceivedPn = 0, hasLargestReceivedPn = False, spc_loss = newLossRecovery,
      spc_hasRxKeys = False, spc_hasTxKeys = False, spc_nextTxPn = 0, spc_pendingFrames = [], spc_sentPackets = [],
      spc_ackDeadlineMs = 0, spc_hasAckDeadline = False, spc_lastAckElicitingSentMs = 0,
      spc_hasAckElicitingInFlight = False, spc_largestReceivedTimeMs = 0, spc_probesPending = 0,
      spc_ackElicitingSinceAck = 0\<rparr>"

record PendingReliableReset =
  prr_errorCode :: u64
  prr_finalSize :: u64
  prr_reliableSize :: u64

record conn_streams =
  c_role :: Role
  c_state :: conn_State
  c_hasPeerParams :: bool
  c_localParams :: SwQuicTransportParameters
  c_peerParams :: SwQuicTransportParameters
  c_closeErrorCode :: u64
  c_spaces :: "Level \<Rightarrow> Space"
  c_connectionFlow :: SwQuicConnectionFlowControl
  c_streamFlow :: "(u64, SwQuicStreamFlowControl) smap"
  c_peerStreamMaxData :: "(u64, u64) smap"
  c_peerMaxStreamsBidi :: u64
  c_peerMaxStreamsUni :: u64
  c_localMaxStreamsBidi :: u64
  c_localMaxStreamsUni :: u64
  c_totalStreamBytesSent :: u64
  c_streams :: SwQuicStreamMap
  c_sendStreams :: "(u64, SendStream) smap"
  c_localOpenedStreams :: "(u64, bool) smap"
  c_touchedStreams :: "u64 list"
  c_streamSchedulingCursor :: nat
  c_maxStreamReassemblyBytes :: nat
  c_maxStreamReassemblyFragments :: nat
  c_bufferedStreamSendBytes :: nat
  c_maxBufferedStreamSendBytes :: nat
  c_resetStreams :: "(u64, u64) smap"
  c_pendingReliableResets :: "(u64, PendingReliableReset) smap"
  c_streamFinalSize :: "(u64, u64) smap"
  c_retiredPeerBidiRanges :: "(u64, u64) smap"

text \<open>The parameters a new connection announces, and a new connection.\<close>

definition defaultLocalParams :: SwQuicTransportParameters where
  "defaultLocalParams = newTransportParameters
     \<lparr>initialMaxData := 262144, initialMaxStreamDataBidiLocal := 262144, initialMaxStreamDataBidiRemote := 262144,
      initialMaxStreamDataUni := 262144, initialMaxStreamsBidi := 100, initialMaxStreamsUni := 100,
      maxUdpPayloadSize := word_of_nat maximumUdpPayloadBytes, maxDatagramFrameSize := maximumDatagramFrameBytes,
      resetStreamAtFlag := True\<rparr>"

definition newConnStreams :: "Role \<Rightarrow> conn_streams" where
  "newConnStreams role =
     \<lparr>c_role = role, c_state = Open, c_hasPeerParams = False, c_localParams = defaultLocalParams,
      c_peerParams = newTransportParameters, c_closeErrorCode = 0, c_spaces = (\<lambda>_. newSpace),
      c_connectionFlow = newConnectionFlowControl 262144, c_streamFlow = [], c_peerStreamMaxData = [],
      c_peerMaxStreamsBidi = 0, c_peerMaxStreamsUni = 0, c_localMaxStreamsBidi = 100, c_localMaxStreamsUni = 100,
      c_totalStreamBytesSent = 0, c_streams = [], c_sendStreams = [], c_localOpenedStreams = [], c_touchedStreams = [],
      c_streamSchedulingCursor = 0, c_maxStreamReassemblyBytes = 1048576, c_maxStreamReassemblyFragments = 1024,
      c_bufferedStreamSendBytes = 0, c_maxBufferedStreamSendBytes = 16777216, c_resetStreams = [],
      c_pendingReliableResets = [], c_streamFinalSize = [], c_retiredPeerBidiRanges = []\<rparr>"

definition applyLocalTransportParameters :: "SwQuicTransportParameters \<Rightarrow> 'a conn_streams_scheme \<Rightarrow> 'a conn_streams_scheme" where
  "applyLocalTransportParameters p c =
     c\<lparr>c_localParams := p, c_localMaxStreamsBidi := initialMaxStreamsBidi p, c_localMaxStreamsUni := initialMaxStreamsUni p,
       c_retiredPeerBidiRanges := [], c_connectionFlow := newConnectionFlowControl (initialMaxData p), c_streamFlow := []\<rparr>"

type_synonym 'c call = "'c \<Rightarrow> string option \<times> 'c"

definition onSpace :: "Level \<Rightarrow> (Space \<Rightarrow> Space) \<Rightarrow> 'a conn_streams_scheme \<Rightarrow> 'a conn_streams_scheme" where
  "onSpace level f c = c\<lparr>c_spaces := (c_spaces c)(level := f (c_spaces c level))\<rparr>"

definition pushPending :: "Level \<Rightarrow> SwQuicFrame \<Rightarrow> 'a conn_streams_scheme \<Rightarrow> 'a conn_streams_scheme" where
  "pushPending level f = onSpace level (\<lambda>s. s\<lparr>spc_pendingFrames := spc_pendingFrames s @ [f]\<rparr>)"

subsection \<open>Stream ids\<close>

definition isLocallyInitiated :: "Role \<Rightarrow> u64 \<Rightarrow> bool" where
  "isLocallyInitiated role sid \<longleftrightarrow> (if role = Client then sid AND 0x1 = 0 else sid AND 0x1 = 1)"

definition isPeerInitiated :: "Role \<Rightarrow> u64 \<Rightarrow> bool" where
  "isPeerInitiated role sid \<longleftrightarrow> (if role = Server then sid AND 0x1 = 0 else sid AND 0x1 = 1)"

definition isUnidirectional :: "u64 \<Rightarrow> bool" where
  "isUnidirectional sid \<longleftrightarrow> sid AND 0x2 \<noteq> 0"

definition isPeerInitiatedBidirectional :: "'a conn_streams_scheme \<Rightarrow> u64 \<Rightarrow> bool" where
  "isPeerInitiatedBidirectional c sid \<longleftrightarrow> isPeerInitiated (c_role c) sid \<and> sid AND 0x2 = 0"

subsection \<open>Retired streams\<close>

text \<open>Two inclusive ranges are merged when there is no number between them.\<close>

definition retiredTouches :: "u64 \<Rightarrow> u64 \<Rightarrow> bool" where
  "retiredTouches hi a \<longleftrightarrow> hi = - 1 \<or> a \<le> hi + 1"

definition isRetiredPeerBidirectional :: "'a conn_streams_scheme \<Rightarrow> u64 \<Rightarrow> bool" where
  "isRetiredPeerBidirectional c sid \<longleftrightarrow>
     (if \<not> isPeerInitiatedBidirectional c sid then False
      else (case rangeBelow (drop_bit 2 sid) (c_retiredPeerBidiRanges c) of
              None \<Rightarrow> False
            | Some r \<Rightarrow> drop_bit 2 sid \<le> snd r))"

definition markRetiredPeerBidirectional :: "u64 \<Rightarrow> 'a conn_streams_scheme \<Rightarrow> 'a conn_streams_scheme" where
  "markRetiredPeerBidirectional sid c =
     c\<lparr>c_retiredPeerBidiRanges := mergeRange retiredTouches (drop_bit 2 sid) (drop_bit 2 sid) (c_retiredPeerBidiRanges c)\<rparr>"

definition removePendingSendFramesForStream :: "u64 \<Rightarrow> bool \<Rightarrow> 'a conn_streams_scheme \<Rightarrow> 'a conn_streams_scheme" where
  "removePendingSendFramesForStream sid removeResetFrames =
     onSpace LevelApplication (\<lambda>app. app\<lparr>spc_pendingFrames := filter (\<lambda>f.
       let streamFrame = (frameType f = Stream \<and> streamId f = sid);
           resetFrame = (removeResetFrames \<and> (frameType f = ResetStream \<or> frameType f = ResetStreamAt) \<and> streamId f = sid);
           obsoleteReceiveControl =
             (removeResetFrames \<and> (frameType f = StopSending \<or> frameType f = MaxStreamData) \<and> streamId f = sid)
       in \<not> streamFrame \<and> \<not> resetFrame \<and> \<not> obsoleteReceiveControl) (spc_pendingFrames app)\<rparr>)"

definition removePendingSendFramesAfterReliableSize :: "u64 \<Rightarrow> u64 \<Rightarrow> 'a conn_streams_scheme \<Rightarrow> 'a conn_streams_scheme" where
  "removePendingSendFramesAfterReliableSize sid reliable =
     onSpace LevelApplication (\<lambda>app. app\<lparr>spc_pendingFrames := filter (\<lambda>f.
       frameType f \<noteq> Stream \<or> streamId f \<noteq> sid \<or> offset f < reliable) (spc_pendingFrames app)\<rparr>)"

definition retirePeerBidirectionalState :: "u64 \<Rightarrow> 'a conn_streams_scheme \<Rightarrow> 'a conn_streams_scheme" where
  "retirePeerBidirectionalState sid c =
     (let c1 = removePendingSendFramesForStream sid True (markRetiredPeerBidirectional sid c)
      in c1\<lparr>c_streams := snd (removeStream (c_streams c1) sid),
            c_streamFlow := fst (smap_erase sid (c_streamFlow c1)),
            c_peerStreamMaxData := fst (smap_erase sid (c_peerStreamMaxData c1)),
            c_resetStreams := fst (smap_erase sid (c_resetStreams c1)),
            c_pendingReliableResets := fst (smap_erase sid (c_pendingReliableResets c1)),
            c_streamFinalSize := fst (smap_erase sid (c_streamFinalSize c1))\<rparr>)"

definition receiveTerminal :: "'a conn_streams_scheme \<Rightarrow> u64 \<Rightarrow> bool" where
  "receiveTerminal c sid \<longleftrightarrow>
     smap_find (c_resetStreams c) sid \<noteq> None \<or>
     (case streamAt (c_streams c) sid of None \<Rightarrow> False | Some s \<Rightarrow> isReceiveComplete s)"

definition resetTerminal :: "SendStream \<Rightarrow> bool" where
  "resetTerminal tx \<longleftrightarrow> tx_resetQueued tx \<and> tx_resetAcked tx"

definition gracefulTerminal :: "SendStream \<Rightarrow> bool" where
  "gracefulTerminal tx \<longleftrightarrow>
     \<not> tx_resetQueued tx \<and> tx_finQueued tx \<and> tx_finAcked tx \<and> tx_contiguousAckedOffset tx \<ge> tx_nextOffset tx"

definition retireOne :: "u64 \<Rightarrow> 'a conn_streams_scheme \<Rightarrow> 'a conn_streams_scheme" where
  "retireOne sid c =
     (case smap_find (c_sendStreams c) sid of
        None \<Rightarrow> c
      | Some tx \<Rightarrow>
          if \<not> tx_peerCreditPending tx \<or> \<not> receiveTerminal c sid \<or> \<not> resetTerminal tx \<and> \<not> gracefulTerminal tx then c
          else
            let c1 = retirePeerBidirectionalState sid c;
                c2 = c1\<lparr>c_sendStreams := fst (smap_erase sid (c_sendStreams c1))\<rparr>
            in if c_localMaxStreamsBidi c2 < push_bit 60 1
               then let c3 = c2\<lparr>c_localMaxStreamsBidi := c_localMaxStreamsBidi c2 + 1\<rparr>
                    in pushPending LevelApplication (maxStreams True (c_localMaxStreamsBidi c3)) c3
               else c2)"

text \<open>The loop visits the streams in the order of their ids and erases only the one it stands on.\<close>

definition retireAcknowledgedPeerStreams :: "'a conn_streams_scheme \<Rightarrow> 'a conn_streams_scheme" where
  "retireAcknowledgedPeerStreams c =
     (let c1 = fold retireOne (smap_keys (c_sendStreams c)) c
      in c1\<lparr>c_streamSchedulingCursor :=
             (if c_sendStreams c1 = [] then 0 else c_streamSchedulingCursor c1 mod length (c_sendStreams c1))\<rparr>)"

subsection \<open>Limits and windows\<close>

definition enforceStreamLimit :: "u64 \<Rightarrow> 'a conn_streams_scheme call" where
  "enforceStreamLimit sid c =
     (if hasStream (c_streams c) sid then (None, c)
      else if \<not> isPeerInitiated (c_role c) sid then
        (if smap_find (c_localOpenedStreams c) sid = None
         then (Some ''Peer sent data on a locally initiated stream that was never opened'', c) else (None, c))
      else
        let limit = (if isUnidirectional sid then c_localMaxStreamsUni c else c_localMaxStreamsBidi c)
        in if drop_bit 2 sid \<ge> limit
           then (Some ''Peer exceeded the advertised stream limit (STREAM_LIMIT_ERROR)'', c\<lparr>c_closeErrorCode := 0x04\<rparr>)
           else (None, c))"

definition localStreamWindow :: "'a conn_streams_scheme \<Rightarrow> u64 \<Rightarrow> u64" where
  "localStreamWindow c sid =
     (if isUnidirectional sid then initialMaxStreamDataUni (c_localParams c)
      else if isPeerInitiated (c_role c) sid then initialMaxStreamDataBidiRemote (c_localParams c)
      else initialMaxStreamDataBidiLocal (c_localParams c))"

text \<open>\<open>streamFlowControl_\<close> returns a reference to the entry it creates when there is none.\<close>

definition streamFlowControl :: "u64 \<Rightarrow> 'a conn_streams_scheme \<Rightarrow> SwQuicStreamFlowControl \<times> 'a conn_streams_scheme" where
  "streamFlowControl sid c =
     (case smap_find (c_streamFlow c) sid of
        Some flow \<Rightarrow> (flow, c)
      | None \<Rightarrow>
          let flow = newStreamFlowControl (localStreamWindow c sid)
          in (flow, c\<lparr>c_streamFlow := smap_insert sid flow (c_streamFlow c)\<rparr>))"

definition setStreamFlow :: "u64 \<Rightarrow> SwQuicStreamFlowControl \<Rightarrow> 'a conn_streams_scheme \<Rightarrow> 'a conn_streams_scheme" where
  "setStreamFlow sid flow c = c\<lparr>c_streamFlow := smap_insert sid flow (c_streamFlow c)\<rparr>"

definition peerStreamSendLimit :: "'a conn_streams_scheme \<Rightarrow> u64 \<Rightarrow> u64" where
  "peerStreamSendLimit c sid =
     (let limit =
        (if c_hasPeerParams c then
           if isUnidirectional sid then initialMaxStreamDataUni (c_peerParams c)
           else if isLocallyInitiated (c_role c) sid then initialMaxStreamDataBidiRemote (c_peerParams c)
           else initialMaxStreamDataBidiLocal (c_peerParams c)
         else 0)
      in case smap_find (c_peerStreamMaxData c) sid of
           None \<Rightarrow> limit
         | Some l \<Rightarrow> if l > limit then l else limit)"

definition creditFlowControl :: "u64 \<Rightarrow> u64 \<Rightarrow> 'a conn_streams_scheme \<Rightarrow> 'a conn_streams_scheme" where
  "creditFlowControl sid n c =
     (let (flow, c1) = streamFlowControl sid c;
          flow1 = stream_consume n flow;
          c2 = setStreamFlow sid flow1 c1;
          c3 = c2\<lparr>c_connectionFlow := connection_consume n (c_connectionFlow c2)\<rparr>;
          c4 = (if shouldSendMaxStreamData flow1
                then let (newLimit, flow2) = applyMaxStreamData flow1
                     in pushPending LevelApplication (maxStreamData sid newLimit) (setStreamFlow sid flow2 c3)
                else c3)
      in if shouldSendMaxData (c_connectionFlow c4)
         then let (newLimit, cf) = applyMaxData (c_connectionFlow c4)
              in pushPending LevelApplication (maxData newLimit) (c4\<lparr>c_connectionFlow := cf\<rparr>)
         else c4)"

definition markStreamTouched :: "u64 \<Rightarrow> 'a conn_streams_scheme \<Rightarrow> 'a conn_streams_scheme" where
  "markStreamTouched sid c =
     (if sid \<in> set (c_touchedStreams c) then c else c\<lparr>c_touchedStreams := c_touchedStreams c @ [sid]\<rparr>)"

subsection \<open>Received stream frames\<close>

definition finalSizeConflict :: "'a conn_streams_scheme \<Rightarrow> SwQuicFrame \<Rightarrow> bool" where
  "finalSizeConflict c f \<longleftrightarrow>
     (case smap_find (c_streamFinalSize c) (streamId f) of
        None \<Rightarrow> False
      | Some final \<Rightarrow>
          let stop = offset f + word_of_nat (length (data f))
          in stop > final \<or> fin f \<and> stop \<noteq> final)"

text \<open>The reassembly, behind the flow-control checks.\<close>

definition deliverStreamFrame :: "SwQuicFrame \<Rightarrow> 'a conn_streams_scheme call" where
  "deliverStreamFrame f c =
     (let window = unat (localStreamWindow c (streamId f));
          flowWindow = (if window > size_max then size_max else window);
          reassemblyBudget = (if flowWindow < c_maxStreamReassemblyBytes c then flowWindow else c_maxStreamReassemblyBytes c);
          (e, streams) = smap_receiveFrame_with reassemblyBudget (c_maxStreamReassemblyFragments c) (c_streams c) f;
          c1 = c\<lparr>c_streams := streams\<rparr>
      in case e of Some err \<Rightarrow> (Some err, c1) | None \<Rightarrow> (None, markStreamTouched (streamId f) c1))"

definition processStreamFrame :: "SwQuicFrame \<Rightarrow> 'a conn_streams_scheme call" where
  "processStreamFrame f c =
     (let sid = streamId f; len = word_of_nat (length (data f)) in
      if isRetiredPeerBidirectional c sid then (None, c)
      else (case enforceStreamLimit sid c of
              (Some e, c1) \<Rightarrow> (Some e, c1)
            | (None, c1) \<Rightarrow>
                if finalSizeConflict c1 f
                then (Some ''STREAM data conflicts with established final size (FINAL_SIZE_ERROR)'', c1)
                else
                  let c2 = (if fin f then c1\<lparr>c_streamFinalSize := smap_insert sid (offset f + len) (c_streamFinalSize c1)\<rparr>
                            else c1);
                      (flow, c3) = streamFlowControl sid c2
                  in (case stream_onDataReceived (offset f) len flow of
                        Inl e \<Rightarrow> (Some e, c3)
                      | Inr flow1 \<Rightarrow>
                          let c4 = setStreamFlow sid flow1 c3;
                              previousHighest = sfc_highestReceivedOffset flow;
                              newHighest = sfc_highestReceivedOffset flow1
                          in if newHighest > previousHighest
                             then (case connection_onDataReceived (newHighest - previousHighest) (c_connectionFlow c4) of
                                     Inl e \<Rightarrow> (Some e, c4)
                                   | Inr cf \<Rightarrow> deliverStreamFrame f (c4\<lparr>c_connectionFlow := cf\<rparr>))
                             else deliverStreamFrame f c4)))"

text \<open>The two sides of flow control count the bytes up to the final size.\<close>

definition countToFinalSize :: "u64 \<Rightarrow> u64 \<Rightarrow> SwQuicStreamFlowControl \<Rightarrow> 'a conn_streams_scheme call" where
  "countToFinalSize sid final flow c =
     (let previousHighest = sfc_highestReceivedOffset flow in
      if final > previousHighest then
        (case stream_onDataReceived previousHighest (final - previousHighest) flow of
           Inl e \<Rightarrow> (Some e, c)
         | Inr flow1 \<Rightarrow>
             let c1 = setStreamFlow sid flow1 c in
             (case connection_onDataReceived (final - previousHighest) (c_connectionFlow c1) of
                Inl e \<Rightarrow> (Some e, c1)
              | Inr cf \<Rightarrow> (None, c1\<lparr>c_connectionFlow := cf\<rparr>)))
      else (None, c))"

definition creditToFinalSize :: "u64 \<Rightarrow> u64 \<Rightarrow> 'a conn_streams_scheme \<Rightarrow> 'a conn_streams_scheme" where
  "creditToFinalSize sid final c =
     (let (flow, c1) = streamFlowControl sid c; alreadyConsumed = sfc_bytesConsumed flow
      in if final > alreadyConsumed then creditFlowControl sid (final - alreadyConsumed) c1 else c1)"

definition resetConflict :: "'a conn_streams_scheme \<Rightarrow> SwQuicFrame \<Rightarrow> SwQuicStreamFlowControl \<Rightarrow> bool" where
  "resetConflict c f flow \<longleftrightarrow>
     finalSize f < sfc_highestReceivedOffset flow \<or>
     (case smap_find (c_streamFinalSize c) (streamId f) of None \<Rightarrow> False | Some final \<Rightarrow> final \<noteq> finalSize f)"

definition processResetStreamFrame :: "SwQuicFrame \<Rightarrow> 'a conn_streams_scheme call" where
  "processResetStreamFrame f c =
     (let sid = streamId f in
      if isRetiredPeerBidirectional c sid then (None, c)
      else (case enforceStreamLimit sid c of
              (Some e, c1) \<Rightarrow> (Some e, c1)
            | (None, c1) \<Rightarrow>
                let (flow, c2) = streamFlowControl sid c1
                in if resetConflict c2 f flow
                   then (Some ''RESET_STREAM final size conflicts with received data (FINAL_SIZE_ERROR)'', c2)
                   else
                     let c3 = c2\<lparr>c_resetStreams := smap_insert sid (errorCode f) (c_resetStreams c2),
                                 c_streamFinalSize := smap_insert sid (finalSize f) (c_streamFinalSize c2)\<rparr>
                     in (case countToFinalSize sid (finalSize f) flow c3 of
                           (Some e, c4) \<Rightarrow> (Some e, c4)
                         | (None, c4) \<Rightarrow>
                             (None, retireAcknowledgedPeerStreams
                                      (markStreamTouched sid (creditToFinalSize sid (finalSize f) c4))))))"

definition processResetStreamAtFrame :: "SwQuicFrame \<Rightarrow> 'a conn_streams_scheme call" where
  "processResetStreamAtFrame f c =
     (let sid = streamId f in
      if reliableSize f > finalSize f
      then (Some ''RESET_STREAM_AT reliable size exceeds final size (FRAME_ENCODING_ERROR)'', c)
      else if isRetiredPeerBidirectional c sid then (None, c)
      else (case enforceStreamLimit sid c of
              (Some e, c1) \<Rightarrow> (Some e, c1)
            | (None, c1) \<Rightarrow>
                let (flow, c2) = streamFlowControl sid c1
                in if resetConflict c2 f flow
                   then (Some ''RESET_STREAM_AT final size conflicts with received data (FINAL_SIZE_ERROR)'', c2)
                   else
                     (case countToFinalSize sid (finalSize f) flow c2 of
                        (Some e, c3) \<Rightarrow> (Some e, c3)
                      | (None, c3) \<Rightarrow>
                          let pending = \<lparr>prr_errorCode = errorCode f, prr_finalSize = finalSize f, prr_reliableSize = reliableSize f\<rparr>;
                              c4 = c3\<lparr>c_streamFinalSize := smap_insert sid (finalSize f) (c_streamFinalSize c3),
                                      c_pendingReliableResets := smap_insert sid pending (c_pendingReliableResets c3)\<rparr>;
                              c5 = (if prr_reliableSize pending = 0
                                    then let c' = creditToFinalSize sid (finalSize f)
                                               (c4\<lparr>c_resetStreams := smap_insert sid (prr_errorCode pending) (c_resetStreams c4)\<rparr>)
                                         in c'\<lparr>c_pendingReliableResets := fst (smap_erase sid (c_pendingReliableResets c'))\<rparr>
                                    else c4)
                          in (None, retireAcknowledgedPeerStreams (markStreamTouched sid c5)))))"

subsection \<open>Reading\<close>

definition readStream :: "u64 \<Rightarrow> 'a conn_streams_scheme \<Rightarrow> bytes \<times> 'a conn_streams_scheme" where
  "readStream sid c =
     (let (bs, streams) = smap_readContiguous (c_streams c) sid;
          c1 = c\<lparr>c_streams := streams\<rparr>;
          c2 = (if bs \<noteq> [] then creditFlowControl sid (word_of_nat (length bs)) c1 else c1);
          c3 = (case (smap_find (c_pendingReliableResets c2) sid, streamAt (c_streams c2) sid) of
                  (Some pending, Some s) \<Rightarrow>
                    if m_readOffset s \<ge> prr_reliableSize pending
                    then let c' = creditToFinalSize sid (prr_finalSize pending)
                               (c2\<lparr>c_resetStreams := smap_insert sid (prr_errorCode pending) (c_resetStreams c2)\<rparr>)
                         in markStreamTouched sid
                              (c'\<lparr>c_pendingReliableResets := fst (smap_erase sid (c_pendingReliableResets c'))\<rparr>)
                    else c2
                | _ \<Rightarrow> c2)
      in (bs, retireAcknowledgedPeerStreams c3))"

definition releasePeerBidirectionalStream :: "u64 \<Rightarrow> 'a conn_streams_scheme call" where
  "releasePeerBidirectionalStream sid c =
     (if \<not> isPeerInitiated (c_role c) sid \<or> isUnidirectional sid
      then (Some ''Only peer-initiated bidirectional streams can be released'', c)
      else (case smap_find (c_sendStreams c) sid of
              None \<Rightarrow> (Some ''QUIC stream cannot be released before its application send side finishes'', c)
            | Some tx \<Rightarrow>
                if \<not> tx_finQueued tx \<and> \<not> tx_resetQueued tx
                then (Some ''QUIC stream cannot be released before its application send side finishes'', c)
                else if tx_peerCreditPending tx then (None, c)
                else (None, retireAcknowledgedPeerStreams
                        (c\<lparr>c_sendStreams := smap_insert sid (tx\<lparr>tx_peerCreditPending := True\<rparr>) (c_sendStreams c)\<rparr>))))"

definition isPeerBidirectionalStreamReleased :: "'a conn_streams_scheme \<Rightarrow> u64 \<Rightarrow> bool" where
  "isPeerBidirectionalStreamReleased c sid \<longleftrightarrow>
     (if isRetiredPeerBidirectional c sid then True
      else (case smap_find (c_sendStreams c) sid of None \<Rightarrow> False | Some tx \<Rightarrow> tx_peerCreditPending tx))"

subsection \<open>Sending calls of the application\<close>

definition validateSendStreamState :: "u64 \<Rightarrow> 'a conn_streams_scheme call" where
  "validateSendStreamState sid c =
     (if \<not> isLocallyInitiated (c_role c) sid then
        (if isUnidirectional sid then (Some ''Cannot send on a peer-initiated unidirectional stream'', c)
         else if \<not> hasStream (c_streams c) sid \<and> smap_find (c_resetStreams c) sid = None
         then (Some ''Cannot send before the peer opens its bidirectional stream'', c)
         else (None, c))
      else if c_hasPeerParams c \<and>
          drop_bit 2 sid \<ge> (if isUnidirectional sid then c_peerMaxStreamsUni c else c_peerMaxStreamsBidi c)
      then (Some ''Peer stream limit reached'', c)
      else (None, c\<lparr>c_localOpenedStreams := smap_insert sid True (c_localOpenedStreams c)\<rparr>))"

definition validatePeerSendControlStream :: "'a conn_streams_scheme \<Rightarrow> u64 \<Rightarrow> string option" where
  "validatePeerSendControlStream c sid =
     (if isLocallyInitiated (c_role c) sid then
        (if smap_find (c_localOpenedStreams c) sid = None
         then Some ''Peer referenced a locally initiated stream that is not open'' else None)
      else if isUnidirectional sid \<or> \<not> hasStream (c_streams c) sid \<and> smap_find (c_resetStreams c) sid = None
      then Some ''Peer referenced a stream without a local send side''
      else None)"

definition addSaturating :: "nat \<Rightarrow> nat \<Rightarrow> nat" where
  "addSaturating t n = (if n > size_max - t then size_max else t + n)"

definition streamBytes :: "SwQuicFrame list \<Rightarrow> nat \<Rightarrow> nat" where
  "streamBytes fs t = fold (\<lambda>f t. if frameType f \<noteq> Stream then t else addSaturating t (length (data f))) fs t"

definition queuedStreamSendBytes :: "'a conn_streams_scheme \<Rightarrow> nat" where
  "queuedStreamSendBytes c =
     (let app = c_spaces c LevelApplication
      in fold (\<lambda>e. streamBytes (sr_retransmittable (snd e))) (spc_sentPackets app)
           (streamBytes (spc_pendingFrames app) (c_bufferedStreamSendBytes c)))"

definition availableStreamSendBytes :: "'a conn_streams_scheme \<Rightarrow> nat" where
  "availableStreamSendBytes c =
     (if c_maxBufferedStreamSendBytes c = 0 then size_max
      else let queued = queuedStreamSendBytes c
           in if queued \<ge> c_maxBufferedStreamSendBytes c then 0 else c_maxBufferedStreamSendBytes c - queued)"

definition unsentBytes :: "SendStream \<Rightarrow> nat" where
  "unsentBytes tx = (if tx_bufferOffset tx < length (tx_buffer tx) then length (tx_buffer tx) - tx_bufferOffset tx else 0)"

definition unstagedStreamSendBytes :: "'a conn_streams_scheme \<Rightarrow> u64 \<Rightarrow> nat" where
  "unstagedStreamSendBytes c sid = (case smap_find (c_sendStreams c) sid of None \<Rightarrow> 0 | Some tx \<Rightarrow> unsentBytes tx)"

text \<open>\<open>m_sendStreams[streamId]\<close> creates the entry when there is none, also in the calls that then fail.\<close>

definition sendStreamAt :: "u64 \<Rightarrow> 'a conn_streams_scheme \<Rightarrow> SendStream" where
  "sendStreamAt sid c = (case smap_find (c_sendStreams c) sid of None \<Rightarrow> newSendStream | Some tx \<Rightarrow> tx)"

definition setSendStream :: "u64 \<Rightarrow> SendStream \<Rightarrow> 'a conn_streams_scheme \<Rightarrow> 'a conn_streams_scheme" where
  "setSendStream sid tx c = c\<lparr>c_sendStreams := smap_insert sid tx (c_sendStreams c)\<rparr>"

definition compactBuffer :: "SendStream \<Rightarrow> SendStream" where
  "compactBuffer tx =
     (if tx_bufferOffset tx > 0 \<and> tx_bufferOffset tx \<ge> length (tx_buffer tx) div 2
      then tx\<lparr>tx_buffer := mid (tx_buffer tx) (to_int (tx_bufferOffset tx))
                              (to_int (size_sub (length (tx_buffer tx)) (tx_bufferOffset tx))),
              tx_bufferOffset := 0\<rparr>
      else tx)"

definition sendStreamData :: "u64 \<Rightarrow> bytes \<Rightarrow> bool \<Rightarrow> 'a conn_streams_scheme call" where
  "sendStreamData sid d f c =
     (if c_state c \<noteq> Open then (Some ''QUIC connection is not open for sending'', c)
      else (case validateSendStreamState sid c of
              (Some e, c1) \<Rightarrow> (Some e, c1)
            | (None, c1) \<Rightarrow>
                let queued = queuedStreamSendBytes c1; maxBuffered = c_maxBufferedStreamSendBytes c1 in
                if maxBuffered > 0 \<and> (queued > maxBuffered \<or> length d > maxBuffered - queued)
                then (Some ''QUIC stream send buffer is full'', c1)
                else
                  let tx = sendStreamAt sid c1 in
                  if tx_finQueued tx \<or> tx_resetQueued tx
                  then (Some ''QUIC stream already finished'', setSendStream sid tx c1)
                  else
                    let tx1 = compactBuffer tx;
                        tx2 = tx1\<lparr>tx_buffer := tx_buffer tx1 @ d, tx_finQueued := tx_finQueued tx1 \<or> f\<rparr>
                    in (None, (setSendStream sid tx2 c1)\<lparr>c_bufferedStreamSendBytes := c_bufferedStreamSendBytes c1 + length d\<rparr>)))"

text \<open>Both resets drop what has not reached a packet.\<close>

definition dropUnsent :: "u64 \<Rightarrow> SendStream \<Rightarrow> 'a conn_streams_scheme \<Rightarrow> SendStream \<times> 'a conn_streams_scheme" where
  "dropUnsent sid tx c =
     (let remaining = unsentBytes tx
      in (tx\<lparr>tx_buffer := [], tx_bufferOffset := 0\<rparr>,
          c\<lparr>c_bufferedStreamSendBytes :=
              (if remaining \<le> c_bufferedStreamSendBytes c then c_bufferedStreamSendBytes c - remaining else 0)\<rparr>))"

definition conn_resetStream :: "u64 \<Rightarrow> u64 \<Rightarrow> 'a conn_streams_scheme call" where
  "conn_resetStream sid code c =
     (if c_state c \<noteq> Open then (Some ''QUIC connection is not open for sending'', c)
      else (case validateSendStreamState sid c of
              (Some e, c1) \<Rightarrow> (Some e, c1)
            | (None, c1) \<Rightarrow>
                let tx = sendStreamAt sid c1 in
                if tx_resetQueued tx then (None, setSendStream sid tx c1)
                else
                  let (tx1, c2) = dropUnsent sid tx c1;
                      tx2 = tx1\<lparr>tx_resetQueued := True, tx_resetAcked := False\<rparr>
                  in (None, pushPending LevelApplication (resetStream sid code (tx_nextOffset tx2))
                        (removePendingSendFramesForStream sid False (setSendStream sid tx2 c2)))))"

definition conn_resetStreamAt :: "u64 \<Rightarrow> u64 \<Rightarrow> u64 \<Rightarrow> 'a conn_streams_scheme call" where
  "conn_resetStreamAt sid code reliable c =
     (if c_state c \<noteq> Open then (Some ''QUIC connection is not open for sending'', c)
      else if \<not> c_hasPeerParams c \<or> \<not> resetStreamAtFlag (c_peerParams c)
      then (Some ''Peer did not negotiate reset_stream_at'', c)
      else (case validateSendStreamState sid c of
              (Some e, c1) \<Rightarrow> (Some e, c1)
            | (None, c1) \<Rightarrow>
                let tx = sendStreamAt sid c1; c1' = setSendStream sid tx c1 in
                if tx_resetQueued tx then
                  (if tx_resetAt tx \<and> tx_resetReliableSize tx = reliable then (None, c1')
                   else (Some ''QUIC stream already has a different reset queued'', c1'))
                else if reliable > tx_nextOffset tx
                then (Some ''RESET_STREAM_AT reliable size exceeds sent stream data'', c1')
                else
                  let (tx1, c2) = dropUnsent sid tx c1;
                      tx2 = tx1\<lparr>tx_resetQueued := True, tx_resetAt := True, tx_resetReliableSize := reliable,
                               tx_resetAcked := False\<rparr>
                  in (None, pushPending LevelApplication (resetStreamAt sid code (tx_nextOffset tx2) reliable)
                        (removePendingSendFramesAfterReliableSize sid reliable (setSendStream sid tx2 c2)))))"

definition stopReceivingStream :: "u64 \<Rightarrow> u64 \<Rightarrow> 'a conn_streams_scheme call" where
  "stopReceivingStream sid code c =
     (if c_state c \<noteq> Open then (Some ''QUIC connection is not open for sending'', c)
      else if isRetiredPeerBidirectional c sid then (None, c)
      else if isLocallyInitiated (c_role c) sid \<and> isUnidirectional sid
      then (Some ''Cannot stop receiving on a send-only stream'', c)
      else if \<not> isLocallyInitiated (c_role c) sid \<and> \<not> hasStream (c_streams c) sid \<and>
          smap_find (c_resetStreams c) sid = None
      then (Some ''Cannot stop receiving before the peer opens its stream'', c)
      else (None, pushPending LevelApplication (stopSending sid code) c))"

definition registerLocalStream :: "u64 \<Rightarrow> 'a conn_streams_scheme \<Rightarrow> 'a conn_streams_scheme" where
  "registerLocalStream sid c = c\<lparr>c_localOpenedStreams := smap_insert sid True (c_localOpenedStreams c)\<rparr>"

definition injectEarlyStream :: "u64 \<Rightarrow> u64 \<Rightarrow> bytes \<Rightarrow> bool \<Rightarrow> 'a conn_streams_scheme call" where
  "injectEarlyStream sid off d f = processStreamFrame (stream sid off d f)"

definition sendPending :: "SendStream \<Rightarrow> bool" where
  "sendPending tx \<longleftrightarrow>
     (if tx_resetQueued tx \<or> tx_resetAcked tx then False
      else if tx_bufferOffset tx < length (tx_buffer tx) then True
      else if tx_contiguousAckedOffset tx < tx_nextOffset tx then True
      else tx_finQueued tx \<and> \<not> tx_finAcked tx)"

definition hasUnacknowledgedSendData :: "'a conn_streams_scheme \<Rightarrow> bool" where
  "hasUnacknowledgedSendData c \<longleftrightarrow> list_ex (\<lambda>e. sendPending (snd e)) (c_sendStreams c)"

definition shouldRetransmitFrame :: "'a conn_streams_scheme \<Rightarrow> SwQuicFrame \<Rightarrow> bool" where
  "shouldRetransmitFrame c f \<longleftrightarrow>
     (if frameType f \<notin> {Stream, ResetStream, ResetStreamAt, StopSending, MaxStreamData} then True
      else if isRetiredPeerBidirectional c (streamId f) then False
      else if frameType f = StopSending \<or> frameType f = MaxStreamData then True
      else (case smap_find (c_sendStreams c) (streamId f) of
              None \<Rightarrow> True
            | Some tx \<Rightarrow>
                if frameType f = ResetStream \<or> frameType f = ResetStreamAt then \<not> tx_resetAcked tx
                else if tx_resetQueued tx
                then tx_resetAt tx \<and> frameType f = Stream \<and> offset f < tx_resetReliableSize tx
                else \<not> isSendStreamRangeAcked tx (offset f) (word_of_nat (length (data f))) \<or> fin f \<and> \<not> tx_finAcked tx))"

subsection \<open>The retired streams\<close>

interpretation retired_ranges: touching_ranges retiredTouches "\<lambda>b. Suc (unat b)"
proof unfold_locales
  fix b a :: u64
  show "retiredTouches b a \<longleftrightarrow> unat a \<le> Suc (unat b)"
  proof (cases "b = - 1")
    case True
    then have "unat b = 2 ^ 64 - 1" by (simp add: unat_max)
    then show ?thesis using True unsigned_less [of a, where 'a = nat] by (simp add: retiredTouches_def)
  next
    case False
    then have "unat (b + 1) = unat b + 1" using unatSuc [of b] by (simp add: eq_neg_iff_add_eq_0 add.commute)
    then show ?thesis using False by (simp add: retiredTouches_def word_le_nat_alt)
  qed
qed (simp add: word_le_nat_alt)

definition retireAll :: "u64 list \<Rightarrow> 'a conn_streams_scheme \<Rightarrow> 'a conn_streams_scheme" where
  "retireAll sids = fold markRetiredPeerBidirectional sids"

lemma retireAll_ranges:
  assumes "retired_ranges.ok (c_retiredPeerBidiRanges c)"
  shows "retired_ranges.ok (c_retiredPeerBidiRanges (retireAll sids c)) \<and>
    retired_ranges.elems (c_retiredPeerBidiRanges (retireAll sids c)) =
      retired_ranges.elems (c_retiredPeerBidiRanges c) \<union> (\<lambda>sid. unat (drop_bit 2 sid)) ` set sids \<and>
    c_role (retireAll sids c) = c_role c"
  using assms
proof (induction sids arbitrary: c)
  case (Cons sid sids)
  let ?c = "markRetiredPeerBidirectional sid c"
  have "retired_ranges.ok (c_retiredPeerBidiRanges ?c) \<and>
      retired_ranges.elems (c_retiredPeerBidiRanges ?c) = retired_ranges.elems (c_retiredPeerBidiRanges c) \<union> {unat (drop_bit 2 sid)}"
    using retired_ranges.merge [OF Cons.prems, of "drop_bit 2 sid" "drop_bit 2 sid"]
    by (simp add: markRetiredPeerBidirectional_def)
  moreover have "c_role ?c = c_role c" by (simp add: markRetiredPeerBidirectional_def)
  ultimately show ?case using Cons.IH [of ?c] by (auto simp: retireAll_def)
qed (simp add: retireAll_def)

lemma isRetired_elems:
  assumes "retired_ranges.ok (c_retiredPeerBidiRanges c)"
  shows "isRetiredPeerBidirectional c sid \<longleftrightarrow>
    isPeerInitiatedBidirectional c sid \<and> unat (drop_bit 2 sid) \<in> retired_ranges.elems (c_retiredPeerBidiRanges c)"
  using retired_ranges.covered [OF assms, of "drop_bit 2 sid" "Suc (unat (drop_bit 2 sid))"]
  by (auto simp: isRetiredPeerBidirectional_def word_le_nat_alt split: option.splits)

text \<open>Streams of one initiator and direction differ in their number.\<close>

lemma same_stream:
  assumes "isPeerInitiatedBidirectional c a" and "isPeerInitiatedBidirectional c b" and "drop_bit 2 a = drop_bit 2 b"
  shows "a = b"
proof -
  have low: "bit a 0 = bit b 0" "bit a 1 = bit b 1"
  proof -
    have one: "(sid :: u64) AND 0x1 = (if bit sid 0 then 1 else 0)" for sid
      by (simp add: and_one_eq mod_2_eq_odd bit_0)
    have two: "(sid :: u64) AND 0x2 = 0 \<longleftrightarrow> \<not> bit sid 1" for sid
      using and_exp_eq_0_iff_not_bit [of sid 1] by simp
    show "bit a 0 = bit b 0" "bit a 1 = bit b 1"
      using assms(1,2) by (auto simp: isPeerInitiatedBidirectional_def isPeerInitiated_def one two split: if_splits)
  qed
  have "bit a n = bit b n" for n
  proof (cases "n < 2")
    case True
    then have "n = 0 \<or> n = 1" by auto
    then show ?thesis using low by auto
  next
    case False
    then obtain k where "n = 2 + k" using le_Suc_ex [of 2 n] by (auto simp: not_less)
    then show ?thesis using arg_cong [OF assms(3), of "\<lambda>w. bit w k"] by (simp add: bit_simps)
  qed
  then show ?thesis by (simp add: bit_eq_iff)
qed

text \<open>
  C38.
  The compact ranges remember exactly the retired peer streams, in whatever order they retire:
  a stream is taken for retired when it is one of them and not otherwise, so no frame of a
  live stream is dropped and none of a retired one reopens it. And the ranges stay compact:
  among the streams below a bound there are at most one more ranges than streams not retired.
\<close>

theorem retired_streams_exact:
  assumes "c_retiredPeerBidiRanges c = []" and "\<forall>sid\<in>set sids. isPeerInitiatedBidirectional c sid"
    and "\<forall>sid\<in>set sids. unat (drop_bit 2 sid) < L"
  shows "(isRetiredPeerBidirectional (retireAll sids c) sid \<longleftrightarrow> sid \<in> set sids) \<and>
    length (c_retiredPeerBidiRanges (retireAll sids c)) \<le>
      1 + card ({..<L} - (\<lambda>sid. unat (drop_bit 2 sid)) ` set sids)"
proof -
  let ?c = "retireAll sids c" and ?num = "\<lambda>sid :: u64. unat (drop_bit 2 sid)"
  have R: "retired_ranges.ok (c_retiredPeerBidiRanges ?c)"
    "retired_ranges.elems (c_retiredPeerBidiRanges ?c) = ?num ` set sids" "c_role ?c = c_role c"
    using retireAll_ranges [of c sids] assms(1) by simp_all
  have role: "isPeerInitiatedBidirectional ?c = isPeerInitiatedBidirectional c"
    using R(3) by (simp add: isPeerInitiatedBidirectional_def fun_eq_iff)
  have "sid \<in> set sids" if "isPeerInitiatedBidirectional c sid" "sid' \<in> set sids" "?num sid = ?num sid'" for sid'
    using same_stream [OF that(1)] assms(2) that(2,3) by (metis word_unat_eq_iff)
  then have "isRetiredPeerBidirectional ?c sid \<longleftrightarrow> sid \<in> set sids"
    using assms(2) unfolding isRetired_elems [OF R(1)] R(2) role by auto
  moreover have "Suc (unat (snd e)) \<le> L" if e: "e \<in> set (c_retiredPeerBidiRanges ?c)" for e
  proof -
    have "unat (snd e) \<in> retired_ranges.elems (c_retiredPeerBidiRanges ?c)"
      using e retired_ranges.ok_bounds [OF R(1) e] by (force simp: retired_ranges.elems_def)
    then show ?thesis using assms(3) unfolding R(2) by auto
  qed
  then have "length (c_retiredPeerBidiRanges ?c) \<le> 1 + card ({..<L} - ?num ` set sids)"
    using retired_ranges.compact [OF R(1)] R(2) by simp
  ultimately show ?thesis by blast
qed

text \<open>Streams 0, 12 and 8 retire while stream 4 stays open: two ranges.\<close>

theorem retired_streams_exact_witness:
  "isRetiredPeerBidirectional (retireAll [0, 12, 8] (newConnStreams Server)) 8 \<and>
   \<not> isRetiredPeerBidirectional (retireAll [0, 12, 8] (newConnStreams Server)) 4 \<and>
   length (c_retiredPeerBidiRanges (retireAll [0, 12, 8] (newConnStreams Server))) \<le> 2"
proof -
  have u: "unat (drop_bit 2 (12 :: u64)) = 3" "unat (drop_bit 2 (8 :: u64)) = 2" by (simp_all add: drop_bit_eq_div)
  have c: "c_retiredPeerBidiRanges (newConnStreams Server) = []"
    "\<forall>sid\<in>set [0, 12, 8]. isPeerInitiatedBidirectional (newConnStreams Server) sid"
    "\<forall>sid\<in>set [0, 12, 8 :: u64]. unat (drop_bit 2 sid) < 4"
    by (simp_all add: newConnStreams_def isPeerInitiatedBidirectional_def isPeerInitiated_def u)
  have "{..<4} - (\<lambda>sid. unat (drop_bit 2 sid)) ` set [0, 12, 8 :: u64] = {1 :: nat}"
    by (auto simp: u)
  then show ?thesis using retired_streams_exact [OF c, of 8] retired_streams_exact [OF c, of 4] by simp
qed

end
