(* ===== verification/Quic_ConnectionFlow.thy ===== *)
theory Quic_ConnectionFlow
  imports Quic_Connection
begin

text \<open>
  Flow control across a connection (\<open>SwQuicConnection.h\<close>): the connection's window and the windows
  of its streams stay consistent under every handler of \<open>Quic_Connection\<close>. The invariant speaks of
  a ledger of what happened to each stream: the bytes received, credited, and read after a
  reset. The counters of the connection are exactly the totals of the ledger, retired streams
  included, whatever is retransmitted and read. \<open>Quic_ConnectionRuns\<close> runs the whole connection
  with it, and shows what is wrong with the credits: a reset credits the buffered bytes, and
  reading them afterwards credits them again.
\<close>

subsection \<open>Maps\<close>

lemma smap_insert_twice: "smap_ok m \<Longrightarrow> smap_insert k v' (smap_insert k v m) = smap_insert k v' m"
  by (induction k v m rule: smap_insert.induct) (auto simp: smap_ok_Cons)

subsection \<open>What a stream holds\<close>

definition inside :: "SwQuicStream \<Rightarrow> nat \<Rightarrow> bool" where
  "inside s h \<longleftrightarrow> unat (m_readOffset s) \<le> h \<and> (\<forall>p x. holds (m_fragments s) p x \<longrightarrow> p < h)"

lemma inside_new: "inside (newStream sid mb mf) h"
  by (simp add: inside_def newStream_def holds_def)

lemma inside_mono: "inside s h \<Longrightarrow> h \<le> h' \<Longrightarrow> inside s h'"
  by (auto simp: inside_def intro: order.trans less_le_trans)

lemma inside_receive:
  assumes "stream_inv s" and "length d < 2 ^ 64" and "receive s off d f = Inr s'"
    and "inside s h" and "unat off + length d \<le> h"
  shows "inside s' h" and "m_readOffset s' = m_readOffset s"
proof -
  show ro: "m_readOffset s' = m_readOffset s" using receive_ok(3) [OF assms(1-3)] .
  show "inside s' h" using receive_ok(4) [OF assms(1-3)] assms(4,5) by (auto simp: inside_def ro)
qed

lemma inside_read:
  assumes "stream_inv s" and "readContiguous s = (bs, s')" and "inside s h"
  shows "inside s' h" and "unat (m_readOffset s') = unat (m_readOffset s) + length bs"
proof -
  note R = readContiguous_spec [OF assms(1,2)]
  show ro: "unat (m_readOffset s') = unat (m_readOffset s) + length bs" using R(2) .
  have "unat (m_readOffset s) + length bs \<le> h"
  proof (cases bs rule: rev_cases)
    case Nil
    then show ?thesis using assms(3) by (simp add: inside_def)
  next
    case (snoc bs' b)
    then have "holds (m_fragments s) (unat (m_readOffset s) + length bs') (bs ! length bs')"
      using R(3) [of "length bs'"] by simp
    then show ?thesis using assms(3) snoc by (force simp: inside_def)
  qed
  then show "inside s' h" using R(4) assms(3) ro by (auto simp: inside_def)
qed

subsection \<open>Windows that may be overdrawn\<close>

text \<open>
  What is left of the invariant of a window when more is credited than was received: the limit is
  kept, and it is at most one window beyond what was credited.
\<close>

context credit_window
begin

definition covered :: "'c \<Rightarrow> bool" where
  "covered c \<longleftrightarrow> taken c \<le> limit c \<and> unat (limit c) \<le> unat (used c) + unat (window c)"

lemma covered_receive: "receive a c = Inr c' \<Longrightarrow> covered c \<Longrightarrow> covered c'"
  using receive_ok [of a c c'] by (auto simp: covered_def)

lemma covered_credit:
  assumes "covered c" and "unat (used c) + unat n + unat (window c) < 2 ^ 64"
    and c': "c' = consume n c \<or> c' = snd (grant (consume n c))"
  shows "covered c' \<and> window c' = window c \<and> taken c' = taken c \<and> used c' = used c + n \<and>
    unat (used c') = unat (used c) + unat n"
proof -
  have u: "unat (used c + n) = unat (used c) + unat n" using assms(2) by (intro unat_plus) simp
  have w: "unat (used c + n + window c) = unat (used c) + unat n + unat (window c)"
    using assms(2) by (subst unat_plus) (simp_all add: u)
  show ?thesis using assms(1) c' u w by (auto simp: covered_def consume_eq grant_eq word_nat)
qed

end

lemma covered_new: "stream_window.covered (newStreamFlowControl w)" "connection_window.covered (newConnectionFlowControl w)"
  by (simp_all add: stream_window.covered_def connection_window.covered_def newStreamFlowControl_def newConnectionFlowControl_def)

subsection \<open>The invariant\<close>

text \<open>
  The ledger of a run has three entries for a stream id: the bytes received \<open>H\<close> (the highest
  offset), the bytes credited \<open>K\<close>, and those among them that were read after a reset, \<open>L\<close>.

  One stream id: its flow-control entry, its reassembly, its reset, its pending reliable reset
  and its final size. Until a stream is reset, what was credited is what was read; a reset
  credits up to the final size, and what is read later comes on top.
\<close>

abbreviation highest_of :: "SwQuicStreamFlowControl \<Rightarrow> nat" where
  "highest_of flow \<equiv> unat (sfc_highestReceivedOffset flow)"

abbreviation consumed_of :: "SwQuicStreamFlowControl \<Rightarrow> nat" where
  "consumed_of flow \<equiv> unat (sfc_bytesConsumed flow)"

fun entry_ok :: "nat \<Rightarrow> SwQuicStreamFlowControl option \<Rightarrow> SwQuicStream option \<Rightarrow> u64 option \<Rightarrow> PendingReliableReset option \<Rightarrow>
    u64 option \<Rightarrow> bool" where
  "entry_ok l None s r p final \<longleftrightarrow> s = None \<and> r = None \<and> p = None"
| "entry_ok l (Some flow) s r p final \<longleftrightarrow>
     stream_window.covered flow \<and> unat (sfc_initialWindow flow) < 2 ^ 62 \<and> l \<le> highest_of flow \<and>
     (case s of
        None \<Rightarrow> l = 0 \<and> (r = None \<longrightarrow> sfc_bytesConsumed flow = 0)
      | Some s' \<Rightarrow> inside s' (highest_of flow) \<and> l \<le> unat (m_readOffset s') \<and>
          (r = None \<longrightarrow> m_readOffset s' = sfc_bytesConsumed flow)) \<and>
     (r = None \<longrightarrow> l = 0) \<and>
     (r \<noteq> None \<longrightarrow> consumed_of flow = highest_of flow + l \<and> final = Some (sfc_highestReceivedOffset flow)) \<and>
     (case p of None \<Rightarrow> True | Some pr \<Rightarrow>
        prr_finalSize pr = sfc_highestReceivedOffset flow \<and> final = Some (sfc_highestReceivedOffset flow))"

definition maps_ok :: "'a conn_streams_scheme \<Rightarrow> bool" where
  "maps_ok c \<longleftrightarrow> smap_ok (c_streamFlow c) \<and> smap_ok (c_resetStreams c) \<and> smap_ok (c_pendingReliableResets c) \<and>
     smap_ok (c_streamFinalSize c) \<and> streams_ok (c_streams c)"

definition windows_small :: "'a conn_streams_scheme \<Rightarrow> bool" where
  "windows_small c \<longleftrightarrow> unat (initialMaxStreamDataUni (c_localParams c)) < 2 ^ 62 \<and>
     unat (initialMaxStreamDataBidiLocal (c_localParams c)) < 2 ^ 62 \<and>
     unat (initialMaxStreamDataBidiRemote (c_localParams c)) < 2 ^ 62 \<and>
     unat (cfc_initialWindow (c_connectionFlow c)) < 2 ^ 62"

definition entry_at :: "nat \<Rightarrow> 'a conn_streams_scheme \<Rightarrow> u64 \<Rightarrow> bool" where
  "entry_at l c sid \<longleftrightarrow> entry_ok l (smap_find (c_streamFlow c) sid) (smap_find (c_streams c) sid) (smap_find (c_resetStreams c) sid)
     (smap_find (c_pendingReliableResets c) sid) (smap_find (c_streamFinalSize c) sid)"

text \<open>The ledger agrees with the live streams, and a stream without an entry is retired or untouched.\<close>

definition ledger_at :: "nat \<Rightarrow> nat \<Rightarrow> nat \<Rightarrow> 'a conn_streams_scheme \<Rightarrow> u64 \<Rightarrow> bool" where
  "ledger_at h k l c sid \<longleftrightarrow> k \<le> h + l \<and> l \<le> h \<and>
     (case smap_find (c_streamFlow c) sid of
        Some flow \<Rightarrow> h = highest_of flow \<and> k = consumed_of flow
      | None \<Rightarrow> isRetiredPeerBidirectional c sid \<or> h = 0 \<and> k = 0 \<and> l = 0)"

definition released_in :: "(u64, SendStream) smap \<Rightarrow> u64 \<Rightarrow> bool" where
  "released_in T sid \<longleftrightarrow> (\<exists>tx. smap_find T sid = Some tx \<and> tx_peerCreditPending tx)"

definition credit_pending :: "'a conn_streams_scheme \<Rightarrow> u64 \<Rightarrow> bool" where
  "credit_pending c = released_in (c_sendStreams c)"

definition retiring_ok :: "'a conn_streams_scheme \<Rightarrow> bool" where
  "retiring_ok c \<longleftrightarrow> retired_ranges.ok (c_retiredPeerBidiRanges c) \<and>
     (\<forall>sid. credit_pending c sid \<longrightarrow> isPeerInitiatedBidirectional c sid)"

definition flow_ok :: "(u64 \<Rightarrow> nat) \<Rightarrow> (u64 \<Rightarrow> nat) \<Rightarrow> (u64 \<Rightarrow> nat) \<Rightarrow> 'a conn_streams_scheme \<Rightarrow> bool" where
  "flow_ok H K L c \<longleftrightarrow> maps_ok c \<and> windows_small c \<and> retiring_ok c \<and>
     (\<forall>sid. entry_at (L sid) c sid \<and> ledger_at (H sid) (K sid) (L sid) c sid) \<and>
     connection_window.covered (c_connectionFlow c) \<and>
     unat (cfc_bytesReceived (c_connectionFlow c)) = sum H UNIV \<and>
     unat (cfc_bytesConsumed (c_connectionFlow c)) = sum K UNIV"

text \<open>The fields the invariant speaks of.\<close>

definition flow_view where
  "flow_view c = (c_localParams c, c_connectionFlow c, c_streamFlow c, c_streams c, c_resetStreams c,
     c_pendingReliableResets c, c_streamFinalSize c)"

definition retire_view where
  "retire_view c = (c_role c, c_retiredPeerBidiRanges c, credit_pending c)"

lemma retire_viewD:
  assumes "retire_view c' = retire_view c"
  shows "isRetiredPeerBidirectional c' = isRetiredPeerBidirectional c" and "retiring_ok c' = retiring_ok c"
proof -
  have v: "c_role c' = c_role c" "c_retiredPeerBidiRanges c' = c_retiredPeerBidiRanges c" "credit_pending c' = credit_pending c"
    using assms by (simp_all add: retire_view_def)
  then have b: "isPeerInitiatedBidirectional c' = isPeerInitiatedBidirectional c"
    by (simp add: isPeerInitiatedBidirectional_def fun_eq_iff)
  then show "isRetiredPeerBidirectional c' = isRetiredPeerBidirectional c"
    using v by (auto simp: isRetiredPeerBidirectional_def fun_eq_iff split: option.splits)
  show "retiring_ok c' = retiring_ok c" using v b by (simp add: retiring_ok_def)
qed

lemma flow_ok_view:
  assumes "flow_view c = flow_view c'" and "retire_view c = retire_view c'"
  shows "flow_ok H K L c = flow_ok H K L c'"
  using assms(1) retire_viewD [OF assms(2)]
  by (simp add: flow_view_def flow_ok_def maps_ok_def windows_small_def entry_at_def ledger_at_def cong: option.case_cong)

lemma onSpace_streams [simp]:
  "c_role (onSpace l g c) = c_role c" "c_localParams (onSpace l g c) = c_localParams c"
  "c_connectionFlow (onSpace l g c) = c_connectionFlow c" "c_streamFlow (onSpace l g c) = c_streamFlow c"
  "c_streams (onSpace l g c) = c_streams c" "c_resetStreams (onSpace l g c) = c_resetStreams c"
  "c_pendingReliableResets (onSpace l g c) = c_pendingReliableResets c"
  "c_streamFinalSize (onSpace l g c) = c_streamFinalSize c" "c_sendStreams (onSpace l g c) = c_sendStreams c"
  "c_retiredPeerBidiRanges (onSpace l g c) = c_retiredPeerBidiRanges c"
  "c_localMaxStreamsBidi (onSpace l g c) = c_localMaxStreamsBidi c"
  "c_peerStreamMaxData (onSpace l g c) = c_peerStreamMaxData c"
  "c_spaces (onSpace l g c) l' = (if l' = l then g (c_spaces c l) else c_spaces c l')"
  by (simp_all add: onSpace_def)

lemma flow_view_simps [simp]:
  "flow_view (onSpace l g c) = flow_view c" "flow_view (pushPending l f c) = flow_view c"
  "flow_view (c\<lparr>c_sendStreams := t\<rparr>) = flow_view c" "flow_view (c\<lparr>c_touchedStreams := ts\<rparr>) = flow_view c"
  "flow_view (c\<lparr>c_localMaxStreamsBidi := n\<rparr>) = flow_view c" "flow_view (c\<lparr>c_streamSchedulingCursor := k\<rparr>) = flow_view c"
  "flow_view (c\<lparr>c_closeErrorCode := n\<rparr>) = flow_view c" "flow_view (markStreamTouched sid c) = flow_view c"
  by (simp_all add: flow_view_def pushPending_def markStreamTouched_def)

lemma credit_pending_cong: "c_sendStreams c' = c_sendStreams c \<Longrightarrow> credit_pending c' = credit_pending c"
  by (simp add: credit_pending_def released_in_def fun_eq_iff)

lemma retire_view_simps [simp]:
  "retire_view (onSpace l g c) = retire_view c" "retire_view (pushPending l f c) = retire_view c"
  "retire_view (c\<lparr>c_touchedStreams := ts\<rparr>) = retire_view c" "retire_view (c\<lparr>c_localMaxStreamsBidi := n\<rparr>) = retire_view c"
  "retire_view (c\<lparr>c_streamSchedulingCursor := k\<rparr>) = retire_view c" "retire_view (c\<lparr>c_closeErrorCode := n\<rparr>) = retire_view c"
  "retire_view (markStreamTouched sid c) = retire_view c" "retire_view (c\<lparr>c_streamFlow := F\<rparr>) = retire_view c"
  "retire_view (c\<lparr>c_connectionFlow := cf\<rparr>) = retire_view c" "retire_view (c\<lparr>c_streams := S\<rparr>) = retire_view c"
  "retire_view (c\<lparr>c_resetStreams := R\<rparr>) = retire_view c" "retire_view (c\<lparr>c_pendingReliableResets := P\<rparr>) = retire_view c"
  "retire_view (c\<lparr>c_streamFinalSize := Z\<rparr>) = retire_view c" "retire_view (setStreamFlow sid flow c) = retire_view c"
  by (auto simp: retire_view_def pushPending_def markStreamTouched_def setStreamFlow_def intro: credit_pending_cong)

declare entry_ok.simps(2) [simp del]

lemmas entry_Some = entry_ok.simps(2)

subsection \<open>Windows under credit\<close>

lemma credit_effect:
  assumes "smap_ok (c_streamFlow c)" and "smap_find (c_streamFlow c) sid = Some flow"
  obtains flow' cf' where "flow' = stream_consume n flow \<or> flow' = snd (applyMaxStreamData (stream_consume n flow))"
    and "cf' = connection_consume n (c_connectionFlow c) \<or> cf' = snd (applyMaxData (connection_consume n (c_connectionFlow c)))"
    and "flow_view (creditFlowControl sid n c) =
      flow_view (c\<lparr>c_streamFlow := smap_insert sid flow' (c_streamFlow c), c_connectionFlow := cf'\<rparr>)"
    and "retire_view (creditFlowControl sid n c) = retire_view c"
proof
  let ?flow1 = "stream_consume n flow" and ?cf1 = "connection_consume n (c_connectionFlow c)"
  let ?flow' = "if shouldSendMaxStreamData ?flow1 then snd (applyMaxStreamData ?flow1) else ?flow1"
  let ?cf' = "if shouldSendMaxData ?cf1 then snd (applyMaxData ?cf1) else ?cf1"
  show "?flow' = ?flow1 \<or> ?flow' = snd (applyMaxStreamData ?flow1)" by simp
  show "?cf' = ?cf1 \<or> ?cf' = snd (applyMaxData ?cf1)" by simp
  show "flow_view (creditFlowControl sid n c) =
      flow_view (c\<lparr>c_streamFlow := smap_insert sid ?flow' (c_streamFlow c), c_connectionFlow := ?cf'\<rparr>)"
    using assms
    by (simp add: creditFlowControl_def streamFlowControl_def setStreamFlow_def flow_view_def pushPending_def
        applyMaxStreamData_def applyMaxData_def smap_insert_twice Let_def)
  show "retire_view (creditFlowControl sid n c) = retire_view c"
    using assms by (simp add: creditFlowControl_def streamFlowControl_def applyMaxStreamData_def applyMaxData_def Let_def)
qed

subsection \<open>A change at one stream id\<close>

lemma sum_update: "sum (f(x := v)) (UNIV :: u64 set) + f x = sum f UNIV + (v :: nat)"
proof -
  have "sum (f(x := v)) UNIV = v + sum (f(x := v)) (UNIV - {x})" "sum f UNIV = f x + sum f (UNIV - {x})"
    by (subst sum.remove [of _ x], simp_all)+
  moreover have "sum (f(x := v)) (UNIV - {x}) = sum f (UNIV - {x})" by (rule sum.cong) auto
  ultimately show ?thesis by simp
qed

lemma flow_update:
  assumes ok: "flow_ok H K L c" and maps: "maps_ok c'" and params: "c_localParams c' = c_localParams c"
    and retire: "retire_view c' = retire_view c"
    and window: "cfc_initialWindow (c_connectionFlow c') = cfc_initialWindow (c_connectionFlow c)"
    and flow: "c_streamFlow c' = smap_insert sid flow' (c_streamFlow c)"
    and other: "\<And>sid'. sid' \<noteq> sid \<Longrightarrow> smap_find (c_streams c') sid' = smap_find (c_streams c) sid' \<and>
      smap_find (c_resetStreams c') sid' = smap_find (c_resetStreams c) sid' \<and>
      smap_find (c_pendingReliableResets c') sid' = smap_find (c_pendingReliableResets c) sid' \<and>
      smap_find (c_streamFinalSize c') sid' = smap_find (c_streamFinalSize c) sid'"
    and entry: "entry_ok l (Some flow') (smap_find (c_streams c') sid) (smap_find (c_resetStreams c') sid)
      (smap_find (c_pendingReliableResets c') sid) (smap_find (c_streamFinalSize c') sid)"
    and bound: "consumed_of flow' \<le> highest_of flow' + l"
    and cover: "connection_window.covered (c_connectionFlow c')"
    and received: "unat (cfc_bytesReceived (c_connectionFlow c')) + H sid = unat (cfc_bytesReceived (c_connectionFlow c)) + highest_of flow'"
    and consumed: "unat (cfc_bytesConsumed (c_connectionFlow c')) + K sid = unat (cfc_bytesConsumed (c_connectionFlow c)) + consumed_of flow'"
  shows "flow_ok (H(sid := highest_of flow')) (K(sid := consumed_of flow')) (L(sid := l)) c'"
proof -
  have F: "smap_ok (c_streamFlow c)" using ok by (simp add: flow_ok_def maps_ok_def)
  have "entry_at ((L(sid := l)) sid') c' sid' \<and>
      ledger_at ((H(sid := highest_of flow')) sid') ((K(sid := consumed_of flow')) sid') ((L(sid := l)) sid') c' sid'" for sid'
  proof (cases "sid' = sid")
    case True
    then show ?thesis using entry bound by (simp add: entry_at_def ledger_at_def flow smap_insert_find [OF F] entry_Some)
  next
    case False
    have "entry_at (L sid') c sid'" "ledger_at (H sid') (K sid') (L sid') c sid'" using ok by (simp_all add: flow_ok_def)
    then show ?thesis using False other [OF False]
      by (simp add: entry_at_def ledger_at_def flow smap_insert_find [OF F] retire_viewD(1) [OF retire] cong: option.case_cong)
  qed
  then show ?thesis
    using ok maps cover received consumed sum_update [of H sid "highest_of flow'"] sum_update [of K sid "consumed_of flow'"]
      retire_viewD(2) [OF retire]
    by (simp add: flow_ok_def windows_small_def params window)
qed

lemma flow_entry:
  assumes "flow_ok H K L c" and "smap_find (c_streamFlow c) sid = Some flow"
  shows "stream_window.covered flow" and "unat (sfc_initialWindow flow) < 2 ^ 62"
    and "entry_ok (L sid) (Some flow) (smap_find (c_streams c) sid) (smap_find (c_resetStreams c) sid)
      (smap_find (c_pendingReliableResets c) sid) (smap_find (c_streamFinalSize c) sid)"
    and "H sid = highest_of flow" and "K sid = consumed_of flow" and "K sid \<le> H sid + L sid" and "L sid \<le> H sid"
proof -
  show "entry_ok (L sid) (Some flow) (smap_find (c_streams c) sid) (smap_find (c_resetStreams c) sid)
      (smap_find (c_pendingReliableResets c) sid) (smap_find (c_streamFinalSize c) sid)"
    using assms by (auto simp: flow_ok_def entry_at_def dest: spec [of _ sid])
  then show "stream_window.covered flow" "unat (sfc_initialWindow flow) < 2 ^ 62" by (auto simp: entry_Some)
  have "ledger_at (H sid) (K sid) (L sid) c sid" using assms(1) by (simp add: flow_ok_def)
  then show "H sid = highest_of flow" "K sid = consumed_of flow" "K sid \<le> H sid + L sid" "L sid \<le> H sid"
    using assms(2) by (simp_all add: ledger_at_def)
qed

text \<open>What keeps the counters from overflowing: no more is credited than twice what was received.\<close>

lemma flow_totals:
  assumes "flow_ok H K L c"
  shows "sum K UNIV \<le> sum H UNIV + sum L UNIV" and "sum L UNIV \<le> sum H UNIV" and "H sid \<le> sum H UNIV"
proof -
  have "K x \<le> H x + L x \<and> L x \<le> H x" for x using assms by (auto simp: flow_ok_def ledger_at_def)
  then show "sum K UNIV \<le> sum H UNIV + sum L UNIV" "sum L UNIV \<le> sum H UNIV"
    by (simp_all add: sum_mono flip: sum.distrib)
  show "H sid \<le> sum H UNIV" by (rule member_le_sum) simp_all
qed

lemma flow_untouched:
  assumes "flow_ok H K L c" and "smap_find (c_streamFlow c) sid = None" and "\<not> isRetiredPeerBidirectional c sid"
  shows "H sid = 0" and "K sid = 0" and "L sid = 0"
proof -
  have "ledger_at (H sid) (K sid) (L sid) c sid" using assms(1) by (simp add: flow_ok_def)
  then show "H sid = 0" "K sid = 0" "L sid = 0" using assms(2,3) by (simp_all add: ledger_at_def)
qed

definition small_flow :: "'a conn_streams_scheme \<Rightarrow> bool" where
  "small_flow c \<longleftrightarrow> unat (cfc_bytesReceived (c_connectionFlow c)) < 2 ^ 62"

text \<open>A change of the entry alone: \<open>n\<close> bytes are credited on the stream and on the connection.\<close>

lemma flow_credit:
  assumes ok: "flow_ok H K L c" and flow: "smap_find (c_streamFlow c) sid = Some flow"
    and n: "unat n \<le> highest_of flow" "consumed_of flow + unat n \<le> highest_of flow + l" and small: "small_flow c"
    and base: "maps_ok c'" "c_localParams c' = c_localParams c" "c_streamFlow c' = c_streamFlow c"
      "c_connectionFlow c' = c_connectionFlow c" "retire_view c' = retire_view c"
    and other: "\<And>sid'. sid' \<noteq> sid \<Longrightarrow> smap_find (c_streams c') sid' = smap_find (c_streams c) sid' \<and>
      smap_find (c_resetStreams c') sid' = smap_find (c_resetStreams c) sid' \<and>
      smap_find (c_pendingReliableResets c') sid' = smap_find (c_pendingReliableResets c) sid' \<and>
      smap_find (c_streamFinalSize c') sid' = smap_find (c_streamFinalSize c) sid'"
    and entry: "\<And>flow'. stream_window.covered flow' \<Longrightarrow> sfc_initialWindow flow' = sfc_initialWindow flow \<Longrightarrow>
      sfc_highestReceivedOffset flow' = sfc_highestReceivedOffset flow \<Longrightarrow>
      sfc_bytesConsumed flow' = sfc_bytesConsumed flow + n \<Longrightarrow> consumed_of flow' = consumed_of flow + unat n \<Longrightarrow>
      entry_ok l (Some flow') (smap_find (c_streams c') sid) (smap_find (c_resetStreams c') sid)
        (smap_find (c_pendingReliableResets c') sid) (smap_find (c_streamFinalSize c') sid)"
  shows "flow_ok H (K(sid := K sid + unat n)) (L(sid := l)) (creditFlowControl sid n c')"
proof -
  have F: "smap_ok (c_streamFlow c)" using ok by (simp add: flow_ok_def maps_ok_def)
  note E = flow_entry [OF ok flow] and T = flow_totals [OF ok]
  have total: "unat (cfc_bytesReceived (c_connectionFlow c)) = sum H UNIV" "unat (cfc_bytesConsumed (c_connectionFlow c)) = sum K UNIV"
    "connection_window.covered (c_connectionFlow c)" "unat (cfc_initialWindow (c_connectionFlow c)) < 2 ^ 62"
    using ok by (simp_all add: flow_ok_def windows_small_def)
  have s: "sum H UNIV < 2 ^ 62" using small total(1) by (simp add: small_flow_def)
  obtain flow' cf' where
    flow': "flow' = stream_consume n flow \<or> flow' = snd (applyMaxStreamData (stream_consume n flow))"
    and cf': "cf' = connection_consume n (c_connectionFlow c) \<or> cf' = snd (applyMaxData (connection_consume n (c_connectionFlow c)))"
    and v: "flow_view (creditFlowControl sid n c') =
      flow_view (c'\<lparr>c_streamFlow := smap_insert sid flow' (c_streamFlow c), c_connectionFlow := cf'\<rparr>)"
    and rv: "retire_view (creditFlowControl sid n c') = retire_view c'"
    by (rule credit_effect [of c' sid flow n, unfolded base(3,4), OF F flow])
  have h: "highest_of flow < 2 ^ 62" using T(3) [of sid] E(4) s by simp
  have "consumed_of flow + unat n + unat (sfc_initialWindow flow) < 2 ^ 64"
    using E(2,4-7) n(1) h by simp
  note S = stream_window.covered_credit [OF E(1) this flow']
  have "unat (cfc_bytesConsumed (c_connectionFlow c)) + unat n + unat (cfc_initialWindow (c_connectionFlow c)) < 2 ^ 64"
    using total T(1,2) n(1) h s by simp
  note C = connection_window.covered_credit [OF total(3) this cf']
  have S': "stream_window.covered flow'" "sfc_initialWindow flow' = sfc_initialWindow flow"
    "sfc_highestReceivedOffset flow' = sfc_highestReceivedOffset flow" "sfc_bytesConsumed flow' = sfc_bytesConsumed flow + n"
    "consumed_of flow' = consumed_of flow + unat n" using S by blast+
  have C': "connection_window.covered cf'" "cfc_initialWindow cf' = cfc_initialWindow (c_connectionFlow c)"
    "cfc_bytesReceived cf' = cfc_bytesReceived (c_connectionFlow c)"
    "unat (cfc_bytesConsumed cf') = unat (cfc_bytesConsumed (c_connectionFlow c)) + unat n" using C by blast+
  have E': "entry_ok l (Some flow') (smap_find (c_streams c') sid) (smap_find (c_resetStreams c') sid)
      (smap_find (c_pendingReliableResets c') sid) (smap_find (c_streamFinalSize c') sid)"
    using S' by (rule entry)
  let ?c = "c'\<lparr>c_streamFlow := smap_insert sid flow' (c_streamFlow c), c_connectionFlow := cf'\<rparr>"
  have "flow_ok (H(sid := highest_of flow')) (K(sid := consumed_of flow')) (L(sid := l)) ?c"
  proof (rule flow_update [OF ok])
    show "maps_ok ?c" using base F by (simp add: maps_ok_def smap_insert_ok)
    show "consumed_of flow' \<le> highest_of flow' + l" using n(2) unfolding S'(3,5) .
    show "unat (cfc_bytesConsumed (c_connectionFlow ?c)) + K sid = unat (cfc_bytesConsumed (c_connectionFlow c)) + consumed_of flow'"
      using C'(4) S'(5) E(5) by simp
    show "unat (cfc_bytesReceived (c_connectionFlow ?c)) + H sid = unat (cfc_bytesReceived (c_connectionFlow c)) + highest_of flow'"
      using C'(3) S'(3) E(4) by simp
  qed (use S'(1,2) C'(1,2) base other E' in simp_all)
  moreover have "H(sid := highest_of flow') = H" using S'(3) E(4) by (simp add: fun_eq_iff)
  moreover have "K(sid := consumed_of flow') = K(sid := K sid + unat n)" using S'(5) E(5) by (simp add: fun_eq_iff)
  moreover have "retire_view (creditFlowControl sid n c') = retire_view ?c" using rv by simp
  ultimately show ?thesis using flow_ok_view [OF v] by simp
qed

subsection \<open>STREAM frames\<close>

definition flowAt :: "'a conn_streams_scheme \<Rightarrow> u64 \<Rightarrow> SwQuicStreamFlowControl" where
  "flowAt c sid = (case smap_find (c_streamFlow c) sid of Some flow \<Rightarrow> flow
     | None \<Rightarrow> newStreamFlowControl (localStreamWindow c sid))"

lemma streamFlowControl_fst: "fst (streamFlowControl sid c) = flowAt c sid"
  by (simp add: streamFlowControl_def flowAt_def Let_def split: option.splits)

lemma streamFlowControl_set:
  assumes "smap_ok (c_streamFlow c)"
  shows "setStreamFlow sid flow (snd (streamFlowControl sid c)) = setStreamFlow sid flow c"
  using assms by (simp add: streamFlowControl_def setStreamFlow_def smap_insert_twice Let_def split: option.splits)

lemma enforceStreamLimit_None: "enforceStreamLimit sid c = (None, c') \<Longrightarrow> c' = c"
  by (auto simp: enforceStreamLimit_def Let_def split: if_splits)

lemma deliver_effect:
  assumes "deliverStreamFrame f c = (None, c')"
  obtains mb mf m' where "smap_receiveFrame_with mb mf (c_streams c) f = (None, m')"
    and "flow_view c' = flow_view (c\<lparr>c_streams := m'\<rparr>)" and "retire_view c' = retire_view c"
  using assms by (auto simp: deliverStreamFrame_def Let_def split: prod.splits option.splits)

lemma processStreamFrame_effect:
  assumes F: "smap_ok (c_streamFlow c)" and run: "processStreamFrame f c = (None, c')"
    and live: "\<not> isRetiredPeerBidirectional c (streamId f)"
  obtains flow1 cf mb mf m' where "\<not> finalSizeConflict c f"
    and "stream_onDataReceived (offset f) (word_of_nat (length (data f))) (flowAt c (streamId f)) = Inr flow1"
    and "if sfc_highestReceivedOffset flow1 > sfc_highestReceivedOffset (flowAt c (streamId f))
      then connection_onDataReceived (sfc_highestReceivedOffset flow1 - sfc_highestReceivedOffset (flowAt c (streamId f)))
        (c_connectionFlow c) = Inr cf
      else cf = c_connectionFlow c"
    and "smap_receiveFrame_with mb mf (c_streams c) f = (None, m')"
    and "flow_view c' = flow_view (c\<lparr>c_streamFlow := smap_insert (streamId f) flow1 (c_streamFlow c), c_connectionFlow := cf,
      c_streams := m', c_streamFinalSize := (if fin f
        then smap_insert (streamId f) (offset f + word_of_nat (length (data f))) (c_streamFinalSize c) else c_streamFinalSize c)\<rparr>)"
    and "retire_view c' = retire_view c"
proof -
  let ?sid = "streamId f" and ?len = "word_of_nat (length (data f)) :: u64"
  let ?c2 = "if fin f then c\<lparr>c_streamFinalSize := smap_insert ?sid (offset f + ?len) (c_streamFinalSize c)\<rparr> else c"
  have F2: "smap_ok (c_streamFlow ?c2)" using F by simp
  have at: "flowAt ?c2 ?sid = flowAt c ?sid" by (auto simp: flowAt_def localStreamWindow_def split: option.splits)
  obtain flow c3 where s: "streamFlowControl ?sid ?c2 = (flow, c3)" by fastforce
  then have flow: "flow = flowAt c ?sid" and set: "\<And>x. setStreamFlow ?sid x c3 = setStreamFlow ?sid x ?c2"
    using streamFlowControl_fst [of ?sid ?c2] streamFlowControl_set [OF F2, of ?sid] at unfolding s by simp_all
  have lim: "enforceStreamLimit ?sid c = (None, c)"
    using run live enforceStreamLimit_None [of ?sid c]
    by (cases "enforceStreamLimit ?sid c"; cases "fst (enforceStreamLimit ?sid c)") (auto simp: processStreamFrame_def Let_def)
  have nc: "\<not> finalSizeConflict c f" using run live lim by (auto simp: processStreamFrame_def Let_def)
  obtain flow1 where f1: "stream_onDataReceived (offset f) ?len flow = Inr flow1"
    using run live lim nc s by (cases "stream_onDataReceived (offset f) ?len flow") (auto simp: processStreamFrame_def Let_def)
  let ?c4 = "setStreamFlow ?sid flow1 ?c2"
  let ?new = "sfc_highestReceivedOffset flow1" and ?old = "sfc_highestReceivedOffset flow"
  have rest: "(if ?new > ?old
      then (case connection_onDataReceived (?new - ?old) (c_connectionFlow ?c4) of
              Inl e \<Rightarrow> (Some e, ?c4) | Inr cf \<Rightarrow> deliverStreamFrame f (?c4\<lparr>c_connectionFlow := cf\<rparr>))
      else deliverStreamFrame f ?c4) = (None, c')"
    using run live lim nc s f1 set [of flow1] unfolding processStreamFrame_def Let_def
    by (simp only: if_False option.case prod.case sum.case)
  have cf4: "c_connectionFlow ?c4 = c_connectionFlow c" by (simp add: setStreamFlow_def)
  obtain cf where cf: "if ?new > ?old then connection_onDataReceived (?new - ?old) (c_connectionFlow c) = Inr cf else cf = c_connectionFlow c"
    and d: "deliverStreamFrame f (?c4\<lparr>c_connectionFlow := cf\<rparr>) = (None, c')"
  proof (cases "?new > ?old")
    case True
    then show ?thesis using that rest unfolding cf4 by (auto split: sum.splits)
  next
    case False
    have "?c4\<lparr>c_connectionFlow := c_connectionFlow c\<rparr> = ?c4" unfolding cf4 [symmetric] by simp
    then show ?thesis using that [of "c_connectionFlow c"] rest False by (simp only: if_False)
  qed
  from deliver_effect [OF d] obtain mb mf m' where r: "smap_receiveFrame_with mb mf (c_streams (?c4\<lparr>c_connectionFlow := cf\<rparr>)) f = (None, m')"
    and v: "flow_view c' = flow_view (?c4\<lparr>c_connectionFlow := cf, c_streams := m'\<rparr>)"
    and rv: "retire_view c' = retire_view (?c4\<lparr>c_connectionFlow := cf\<rparr>)" by blast
  have r': "smap_receiveFrame_with mb mf (c_streams c) f = (None, m')" using r by (cases "fin f") (simp_all add: setStreamFlow_def)
  show thesis
  proof (rule that [OF nc f1 [unfolded flow] cf [unfolded flow] r'])
    show "flow_view c' = flow_view (c\<lparr>c_streamFlow := smap_insert ?sid flow1 (c_streamFlow c), c_connectionFlow := cf,
      c_streams := m', c_streamFinalSize := (if fin f
        then smap_insert ?sid (offset f + ?len) (c_streamFinalSize c) else c_streamFinalSize c)\<rparr>)"
      using v by (cases "fin f") (simp_all add: setStreamFlow_def flow_view_def)
    show "retire_view c' = retire_view c" using rv by simp
  qed
qed

lemma stream_data_ok:
  assumes "stream_onDataReceived off len flow = Inr flow1"
  shows "unat (off + len) = unat off + unat len" and "highest_of flow1 = max (highest_of flow) (unat off + unat len)"
    and "sfc_bytesConsumed flow1 = sfc_bytesConsumed flow" and "sfc_initialWindow flow1 = sfc_initialWindow flow"
    and "stream_window.covered flow \<Longrightarrow> stream_window.covered flow1"
proof -
  have nw: "\<not> off + len < off" using assms by (auto simp: stream_onDataReceived_def Let_def split: if_splits)
  then show u: "unat (off + len) = unat off + unat len"
    using sum_wraps_iff [of off len] by (intro unat_plus) simp
  have "flow1 = (if off + len > sfc_highestReceivedOffset flow then flow\<lparr>sfc_highestReceivedOffset := off + len\<rparr> else flow)"
    using assms by (auto simp: stream_onDataReceived_def Let_def split: if_splits)
  then show "highest_of flow1 = max (highest_of flow) (unat off + unat len)"
    and "sfc_bytesConsumed flow1 = sfc_bytesConsumed flow" and "sfc_initialWindow flow1 = sfc_initialWindow flow"
    using u by (auto simp: word_less_nat_alt)
  show "stream_window.covered flow \<Longrightarrow> stream_window.covered flow1"
    using stream_window.covered_receive [of "(off, len)" flow flow1] assms by simp
qed

lemma connection_data_ok:
  assumes "connection_onDataReceived len cf = Inr cf1"
  shows "unat (cfc_bytesReceived cf1) = unat (cfc_bytesReceived cf) + unat len"
    and "cfc_bytesConsumed cf1 = cfc_bytesConsumed cf" and "cfc_initialWindow cf1 = cfc_initialWindow cf"
    and "connection_window.covered cf \<Longrightarrow> connection_window.covered cf1"
proof -
  have nw: "\<not> cfc_bytesReceived cf + len < cfc_bytesReceived cf"
    and c: "cf1 = cf\<lparr>cfc_bytesReceived := cfc_bytesReceived cf + len\<rparr>"
    using assms by (auto simp: connection_onDataReceived_def Let_def split: if_splits)
  then show "unat (cfc_bytesReceived cf1) = unat (cfc_bytesReceived cf) + unat len"
    using sum_wraps_iff [of "cfc_bytesReceived cf" len] by (simp add: unat_plus)
  show "cfc_bytesConsumed cf1 = cfc_bytesConsumed cf" "cfc_initialWindow cf1 = cfc_initialWindow cf" by (simp_all add: c)
  show "connection_window.covered cf \<Longrightarrow> connection_window.covered cf1"
    using connection_window.covered_receive [OF assms] .
qed

lemma receiveFrame_with_Some:
  assumes "streams_ok m" and "frameType f = Stream" and "length (data f) < 2 ^ 64"
    and "smap_receiveFrame_with mb mf m f = (None, m')"
  obtains s' where "receive (streamOrNew mb mf m (streamId f)) (offset f) (data f) (fin f) = Inr s'"
    and "smap_find m' = (smap_find m)(streamId f \<mapsto> s')" and "streams_ok m'"
proof -
  note e = emplaced(2,3) [OF assms(1), of "streamId f" mb mf]
  have ok: "smap_ok (fst (smap_emplace (streamId f) (newStream (streamId f) mb mf) m))"
    using e(1) by (simp add: streams_ok_def)
  obtain s' where r: "receive (streamOrNew mb mf m (streamId f)) (offset f) (data f) (fin f) = Inr s'"
    using assms(4) by (auto simp: receiveFrame_with_unfold [OF assms(1,2)] Let_def split: sum.splits)
  then have "smap_find m' = (smap_find m)(streamId f \<mapsto> s')"
    using assms(4) by (auto simp: receiveFrame_with_unfold [OF assms(1,2)] Let_def smap.find_assign [OF ok] e(2))
  then show thesis using that r receiveFrame_with_ok [OF assms(1,3), of mb mf] assms(4) by simp
qed

text \<open>What is known of the entry of a stream id that is not retired, there or not.\<close>

lemma flowAt_entry:
  assumes ok: "flow_ok H K L c" and live: "\<not> isRetiredPeerBidirectional c sid"
  shows "entry_ok (L sid) (Some (flowAt c sid)) (smap_find (c_streams c) sid) (smap_find (c_resetStreams c) sid)
      (smap_find (c_pendingReliableResets c) sid) (smap_find (c_streamFinalSize c) sid)"
    and "H sid = highest_of (flowAt c sid)" and "K sid = consumed_of (flowAt c sid)" and "K sid \<le> H sid + L sid"
proof -
  have w: "unat (localStreamWindow c sid) < 2 ^ 62"
    using ok by (simp add: flow_ok_def windows_small_def localStreamWindow_def)
  have e: "entry_at (L sid) c sid" "ledger_at (H sid) (K sid) (L sid) c sid" using ok by (simp_all add: flow_ok_def)
  show "K sid \<le> H sid + L sid" using e(2) by (simp add: ledger_at_def)
  show "entry_ok (L sid) (Some (flowAt c sid)) (smap_find (c_streams c) sid) (smap_find (c_resetStreams c) sid)
      (smap_find (c_pendingReliableResets c) sid) (smap_find (c_streamFinalSize c) sid)"
    "H sid = highest_of (flowAt c sid)" "K sid = consumed_of (flowAt c sid)"
    using w e flow_untouched [OF ok _ live]
    by (cases "smap_find (c_streamFlow c) sid";
        simp add: entry_at_def ledger_at_def flowAt_def entry_Some covered_new; simp add: newStreamFlowControl_def)+
qed

lemma processStreamFrame_flow:
  assumes ok: "flow_ok H K L c" and f: "frameType f = Stream" "length (data f) < 2 ^ 31"
    and run: "processStreamFrame f c = (None, c')" and live: "\<not> isRetiredPeerBidirectional c (streamId f)"
  shows "flow_ok (H(streamId f := max (H (streamId f)) (unat (offset f) + length (data f)))) K L c'"
proof -
  let ?sid = "streamId f" and ?len = "word_of_nat (length (data f)) :: u64"
  have maps: "maps_ok c" using ok by (simp add: flow_ok_def)
  then have F: "smap_ok (c_streamFlow c)" and S: "streams_ok (c_streams c)" and Z: "smap_ok (c_streamFinalSize c)"
    by (simp_all add: maps_ok_def)
  let ?flow = "flowAt c ?sid"
  obtain flow1 cf mb mf m' where nc: "\<not> finalSizeConflict c f"
    and f1: "stream_onDataReceived (offset f) ?len ?flow = Inr flow1"
    and cf: "if sfc_highestReceivedOffset flow1 > sfc_highestReceivedOffset ?flow
      then connection_onDataReceived (sfc_highestReceivedOffset flow1 - sfc_highestReceivedOffset ?flow) (c_connectionFlow c) = Inr cf
      else cf = c_connectionFlow c"
    and rec: "smap_receiveFrame_with mb mf (c_streams c) f = (None, m')"
    and v: "flow_view c' = flow_view (c\<lparr>c_streamFlow := smap_insert ?sid flow1 (c_streamFlow c), c_connectionFlow := cf,
      c_streams := m', c_streamFinalSize := (if fin f
        then smap_insert ?sid (offset f + ?len) (c_streamFinalSize c) else c_streamFinalSize c)\<rparr>)" and rv: "retire_view c' = retire_view c"
    using processStreamFrame_effect [OF F run live] by blast
  have len: "unat ?len = length (data f)" using f(2) by (simp add: unsigned_of_nat take_bit_nat_eq_self)
  note D = stream_data_ok [OF f1, unfolded len]
  note E = flowAt_entry [OF ok live]
  note E1 = E(1) [unfolded entry_Some]
  have credit: "connection_window.covered (c_connectionFlow c)" using ok by (simp add: flow_ok_def)
  have C: "cfc_initialWindow cf = cfc_initialWindow (c_connectionFlow c) \<and> connection_window.covered cf \<and>
    unat (cfc_bytesReceived cf) + highest_of ?flow = unat (cfc_bytesReceived (c_connectionFlow c)) + highest_of flow1 \<and>
    cfc_bytesConsumed cf = cfc_bytesConsumed (c_connectionFlow c)"
  proof (cases "sfc_highestReceivedOffset flow1 > sfc_highestReceivedOffset ?flow")
    case True
    then have c: "connection_onDataReceived (sfc_highestReceivedOffset flow1 - sfc_highestReceivedOffset ?flow) (c_connectionFlow c) = Inr cf"
      using cf by simp
    show ?thesis using connection_data_ok [OF c] credit True by (simp add: unat_minus word_less_nat_alt word_le_nat_alt)
  next
    case False
    then have "cf = c_connectionFlow c" "highest_of flow1 = highest_of ?flow"
      using cf D(2) by (simp_all add: word_less_nat_alt)
    then show ?thesis using credit by simp
  qed
  have d64: "length (data f) < 2 ^ 64" using f(2) by simp
  obtain s' where s': "receive (streamOrNew mb mf (c_streams c) ?sid) (offset f) (data f) (fin f) = Inr s'"
    and m': "smap_find m' = (smap_find (c_streams c))(?sid \<mapsto> s')" and ok': "streams_ok m'"
    using receiveFrame_with_Some [OF S f(1) d64 rec] .
  have inv: "stream_inv (streamOrNew mb mf (c_streams c) ?sid)"
    using streamOrNew_ok(2) [OF S] stream_reachable_inv by blast
  have "inside (streamOrNew mb mf (c_streams c) ?sid) (highest_of flow1)"
    using E1 D(2) inside_new inside_mono [of _ "highest_of ?flow" "highest_of flow1"]
    by (auto simp: streamOrNew_def split: option.splits)
  moreover have "unat (offset f) + length (data f) \<le> highest_of flow1" using D(2) by simp
  ultimately have I: "inside s' (highest_of flow1)" "m_readOffset s' = m_readOffset (streamOrNew mb mf (c_streams c) ?sid)"
    using inside_receive [OF inv d64 s'] by blast+
  have final: "\<not> (fin f \<and> smap_find (c_streamFinalSize c) ?sid = Some z \<and> z \<noteq> offset f + ?len)"
    "smap_find (c_streamFinalSize c) ?sid = Some z \<Longrightarrow> unat (offset f) + length (data f) \<le> unat z" for z
    using nc D(1) by (auto simp: finalSizeConflict_def Let_def word_less_nat_alt not_less)
  let ?final = "if fin f then smap_insert ?sid (offset f + ?len) (c_streamFinalSize c) else c_streamFinalSize c"
  have entry: "entry_ok (L ?sid) (Some flow1) (smap_find m' ?sid) (smap_find (c_resetStreams c) ?sid)
      (smap_find (c_pendingReliableResets c) ?sid) (smap_find ?final ?sid)"
  proof -
    have kept: "smap_find ?final ?sid = smap_find (c_streamFinalSize c) ?sid \<and>
        sfc_highestReceivedOffset flow1 = sfc_highestReceivedOffset ?flow"
      if "smap_find (c_streamFinalSize c) ?sid = Some (sfc_highestReceivedOffset ?flow)"
      using that final [of "sfc_highestReceivedOffset ?flow"] D(2) by (auto simp: smap_insert_find [OF Z] word_unat_eq_iff)
    have ro: "m_readOffset s' = sfc_bytesConsumed ?flow" if "smap_find (c_resetStreams c) ?sid = None"
      using that E1 I(2) by (auto simp: streamOrNew_def newStream_def split: option.splits)
    have lo: "L ?sid \<le> unat (m_readOffset s')"
      using E1 I(2) by (auto simp: streamOrNew_def split: option.splits)
    have le: "L ?sid \<le> highest_of flow1" using E1 unfolding D(2) by linarith
    show ?thesis
      unfolding entry_Some using E1 D(3-5) kept ro lo le I(1) m' by (auto split: option.splits)
  qed
  let ?c = "c\<lparr>c_streamFlow := smap_insert ?sid flow1 (c_streamFlow c), c_connectionFlow := cf,
      c_streams := m', c_streamFinalSize := ?final\<rparr>"
  have "flow_ok (H(?sid := highest_of flow1)) (K(?sid := consumed_of flow1)) (L(?sid := L ?sid)) ?c"
  proof (rule flow_update [OF ok])
    show "maps_ok ?c" using maps ok' by (simp add: maps_ok_def smap_insert_ok)
    show "unat (cfc_bytesReceived (c_connectionFlow ?c)) + H ?sid = unat (cfc_bytesReceived (c_connectionFlow c)) + highest_of flow1"
      using C E(2) by simp
    show "unat (cfc_bytesConsumed (c_connectionFlow ?c)) + K ?sid = unat (cfc_bytesConsumed (c_connectionFlow c)) + consumed_of flow1"
      using C D(3) E(3) by simp
    show "consumed_of flow1 \<le> highest_of flow1 + L ?sid" using E(2-4) D(2,3) by simp
  qed (use C m' entry in \<open>auto simp: smap_insert_find [OF Z]\<close>)
  moreover have "K(?sid := consumed_of flow1) = K" using E(3) D(3) by (simp add: fun_eq_iff)
  moreover have "retire_view c' = retire_view ?c" using rv by simp
  ultimately show ?thesis using flow_ok_view [OF v] D(2) E(2) by simp
qed

subsection \<open>Resets\<close>

lemma smap_insert_same: "smap_ok m \<Longrightarrow> smap_find m k = Some v \<Longrightarrow> smap_insert k v m = m"
proof (induction k v m rule: smap_insert.induct)
  case (2 k v k' v' m)
  then have above: "\<forall>e\<in>set m. k' < fst e" and ok: "smap_ok m" by (simp_all add: smap_ok_Cons)
  show ?case
  proof (cases "k = k'")
    case False
    then have "smap_find m k = Some v" using 2(3) by simp
    then have "k' < k" using above smap_find_Some [OF ok] by fastforce
    with 2 ok False show ?thesis by auto
  qed (use 2 in simp)
qed simp

lemma entry_None: "flow_ok H K L c \<Longrightarrow> smap_find (c_streamFlow c) sid = None \<Longrightarrow>
  smap_find (c_streams c) sid = None \<and> smap_find (c_resetStreams c) sid = None \<and>
  smap_find (c_pendingReliableResets c) sid = None"
  by (auto simp: flow_ok_def entry_at_def dest: spec [of _ sid])

lemma fun_upd_back: "f x = v \<Longrightarrow> f(x := v) = f"
  by auto

lemma streamFlowControl_flow:
  assumes ok: "flow_ok H K L c" and live: "\<not> isRetiredPeerBidirectional c sid"
  shows "flow_ok H K L (snd (streamFlowControl sid c)) \<and>
    smap_find (c_streamFlow (snd (streamFlowControl sid c))) sid = Some (flowAt c sid) \<and>
    retire_view (snd (streamFlowControl sid c)) = retire_view c"
proof (cases "smap_find (c_streamFlow c) sid")
  case (Some flow)
  then show ?thesis using ok by (simp add: streamFlowControl_def flowAt_def)
next
  case None
  have maps: "maps_ok c" and F: "smap_ok (c_streamFlow c)" and cover: "connection_window.covered (c_connectionFlow c)"
    using ok by (simp_all add: flow_ok_def maps_ok_def)
  note E = flowAt_entry [OF ok live]
  let ?c = "c\<lparr>c_streamFlow := smap_insert sid (flowAt c sid) (c_streamFlow c)\<rparr>"
  have c': "snd (streamFlowControl sid c) = ?c"
    using None by (simp add: streamFlowControl_def flowAt_def Let_def)
  have "flow_ok (H(sid := highest_of (flowAt c sid))) (K(sid := consumed_of (flowAt c sid))) (L(sid := L sid)) ?c"
    by (rule flow_update [OF ok]) (use maps F E cover in \<open>simp_all add: maps_ok_def smap_insert_ok\<close>)
  then show ?thesis unfolding c' using E(2,3) by (simp add: smap_insert_find [OF F] fun_upd_back)
qed

text \<open>A flow entry alone is replaced, on the stream and on the connection.\<close>

lemma countToFinalSize_flow:
  assumes ok: "flow_ok H K L c" and flow: "smap_find (c_streamFlow c) sid = Some flow"
    and final: "sfc_highestReceivedOffset flow \<le> final"
      "smap_find (c_streamFinalSize c) sid \<noteq> None \<Longrightarrow> smap_find (c_streamFinalSize c) sid = Some final"
    and run: "countToFinalSize sid final flow c' = (None, c'')" and same: "c_streamFlow c' = c_streamFlow c" "c_connectionFlow c' = c_connectionFlow c"
  obtains flow1 cf where "flow_view c'' = flow_view (c'\<lparr>c_streamFlow := smap_insert sid flow1 (c_streamFlow c), c_connectionFlow := cf\<rparr>)"
    and "retire_view c'' = retire_view c'" and "sfc_highestReceivedOffset flow1 = final"
    and "flow_ok (H(sid := unat final)) K L (c\<lparr>c_streamFlow := smap_insert sid flow1 (c_streamFlow c), c_connectionFlow := cf\<rparr>)"
proof -
  have maps: "maps_ok c" and F: "smap_ok (c_streamFlow c)" and cover: "connection_window.covered (c_connectionFlow c)"
    using ok by (simp_all add: flow_ok_def maps_ok_def)
  note E = flow_entry [OF ok flow]
  let ?old = "sfc_highestReceivedOffset flow"
  show thesis
  proof (cases "final > ?old")
    case False
    then have f: "final = ?old" using final(1) by simp
    have c'': "c'' = c'" using run False by (simp add: countToFinalSize_def)
    then have v: "flow_view c'' = flow_view (c'\<lparr>c_streamFlow := smap_insert sid flow (c_streamFlow c), c_connectionFlow := c_connectionFlow c\<rparr>)"
      using same by (simp add: smap_insert_same [OF F flow] flow_view_def)
    show thesis
      by (rule that [OF v]) (use ok f c'' E(4) in \<open>simp_all add: smap_insert_same [OF F flow] fun_upd_back\<close>)
  next
    case True
    obtain flow1 where f1: "stream_onDataReceived ?old (final - ?old) flow = Inr flow1"
      using run True by (auto simp: countToFinalSize_def Let_def split: sum.splits)
    then obtain cf where cf: "connection_onDataReceived (final - ?old) (c_connectionFlow c) = Inr cf"
      and c'': "c'' = (setStreamFlow sid flow1 c')\<lparr>c_connectionFlow := cf\<rparr>"
      using run True same by (auto simp: countToFinalSize_def setStreamFlow_def Let_def split: sum.splits)
    note D = stream_data_ok [OF f1] and C = connection_data_ok [OF cf]
    have sum: "unat ?old + unat (final - ?old) = unat final" using True by (simp add: unat_minus word_le_nat_alt word_less_nat_alt)
    have h: "sfc_highestReceivedOffset flow1 = final"
      using D(2) sum True by (simp add: word_unat_eq_iff word_less_nat_alt)
    have none: "smap_find (c_resetStreams c) sid = None" "smap_find (c_pendingReliableResets c) sid = None"
      using E(3) final(2) True by (auto simp: entry_Some split: option.splits)
    have entry: "entry_ok (L sid) (Some flow1) (smap_find (c_streams c) sid) (smap_find (c_resetStreams c) sid)
        (smap_find (c_pendingReliableResets c) sid) (smap_find (c_streamFinalSize c) sid)"
      using E(3) D(3-5) none True h
      by (auto simp: entry_Some word_less_nat_alt split: option.splits elim: inside_mono)
    let ?c = "c\<lparr>c_streamFlow := smap_insert sid flow1 (c_streamFlow c), c_connectionFlow := cf\<rparr>"
    have "flow_ok (H(sid := highest_of flow1)) (K(sid := consumed_of flow1)) (L(sid := L sid)) ?c"
    proof (rule flow_update [OF ok])
      show "unat (cfc_bytesReceived (c_connectionFlow ?c)) + H sid = unat (cfc_bytesReceived (c_connectionFlow c)) + highest_of flow1"
        using C(1) sum h E(4) by simp
      show "unat (cfc_bytesConsumed (c_connectionFlow ?c)) + K sid = unat (cfc_bytesConsumed (c_connectionFlow c)) + consumed_of flow1"
        using C(2) D(3) E(5) by simp
      show "consumed_of flow1 \<le> highest_of flow1 + L sid"
        using E(4-6) D(3) h True by (simp add: word_less_nat_alt)
    qed (use maps F entry C cover in \<open>simp_all add: maps_ok_def smap_insert_ok\<close>)
    moreover have "H(sid := highest_of flow1) = H(sid := unat final)" "K(sid := consumed_of flow1) = K"
      using h D(3) E(5) by (simp_all add: fun_upd_back)
    ultimately have "flow_ok (H(sid := unat final)) K L ?c" by simp
    then show thesis using that [of cf flow1] h by (simp add: c'' same flow_view_def setStreamFlow_def) 
  qed
qed

text \<open>
  A stream becomes reset: what was not yet credited is credited, once. A stream that was reset
  before stays as it is.
\<close>

lemma creditToFinalSize_flow:
  assumes ok: "flow_ok H K L c" and flow: "smap_find (c_streamFlow c) sid = Some flow" and small: "small_flow c"
    and base: "maps_ok c'" "c_localParams c' = c_localParams c" "c_streamFlow c' = c_streamFlow c"
      "c_connectionFlow c' = c_connectionFlow c" "c_streams c' = c_streams c" "retire_view c' = retire_view c"
    and other: "\<And>sid'. sid' \<noteq> sid \<Longrightarrow> smap_find (c_resetStreams c') sid' = smap_find (c_resetStreams c) sid' \<and>
      smap_find (c_pendingReliableResets c') sid' = smap_find (c_pendingReliableResets c) sid' \<and>
      smap_find (c_streamFinalSize c') sid' = smap_find (c_streamFinalSize c) sid'"
    and final: "sfc_highestReceivedOffset flow = final" "smap_find (c_streamFinalSize c') sid = Some final"
      "smap_find (c_resetStreams c') sid \<noteq> None"
      "\<And>pr. smap_find (c_pendingReliableResets c') sid = Some pr \<Longrightarrow> prr_finalSize pr = final"
  shows "flow_ok H (K(sid := max (K sid) (unat final))) L (creditToFinalSize sid final c') \<and>
    retire_view (creditToFinalSize sid final c') = retire_view c"
proof -
  have F: "smap_ok (c_streamFlow c)" and cover: "connection_window.covered (c_connectionFlow c)"
    using ok by (simp_all add: flow_ok_def maps_ok_def)
  have at: "streamFlowControl sid c' = (flow, c')" using flow base(3) by (simp add: streamFlowControl_def)
  note E = flow_entry [OF ok flow]
  note E3 = E(3) [unfolded entry_Some]
  show ?thesis
  proof (cases "final > sfc_bytesConsumed flow")
    case True
    let ?n = "final - sfc_bytesConsumed flow"
    have n: "consumed_of flow + unat ?n = unat final"
      using True by (simp add: unat_minus word_less_nat_alt word_le_nat_alt)
    have fresh: "smap_find (c_resetStreams c) sid = None" using E3 True final(1) by (auto simp: word_less_nat_alt)
    then have l: "L sid = 0" using E3 by simp
    have le: "unat ?n \<le> highest_of flow" "consumed_of flow + unat ?n \<le> highest_of flow + L sid" using n final(1) by simp_all
    have "flow_ok H (K(sid := K sid + unat ?n)) (L(sid := L sid)) (creditFlowControl sid ?n c')"
    proof (rule flow_credit [OF ok flow le small base(1-4,6)])
      fix flow'
      assume "stream_window.covered flow'" "sfc_initialWindow flow' = sfc_initialWindow flow"
        "sfc_highestReceivedOffset flow' = sfc_highestReceivedOffset flow"
        "consumed_of flow' = consumed_of flow + unat ?n"
      then show "entry_ok (L sid) (Some flow') (smap_find (c_streams c') sid) (smap_find (c_resetStreams c') sid)
          (smap_find (c_pendingReliableResets c') sid) (smap_find (c_streamFinalSize c') sid)"
        using E3 final base(5) n l by (auto simp: entry_Some split: option.splits)
    qed (use other base(5) in simp)
    moreover have "K sid + unat ?n = max (K sid) (unat final)" using n E(5) by simp
    moreover have "retire_view (creditFlowControl sid ?n c') = retire_view c'"
      by (rule credit_effect [of c' sid flow ?n, unfolded base(3), OF F flow])
    ultimately show ?thesis using True base(6) by (simp add: creditToFinalSize_def at)
  next
    case False
    then have eq: "consumed_of flow = unat final + L sid"
      using E3 E(4-6) final(1) by (cases "smap_find (c_resetStreams c) sid") (auto simp: word_less_nat_alt)
    have "flow_ok (H(sid := highest_of flow)) (K(sid := consumed_of flow)) (L(sid := L sid)) c'"
    proof (rule flow_update [OF ok])
      show "entry_ok (L sid) (Some flow) (smap_find (c_streams c') sid) (smap_find (c_resetStreams c') sid)
          (smap_find (c_pendingReliableResets c') sid) (smap_find (c_streamFinalSize c') sid)"
        using E3 final base(5) eq by (auto simp: entry_Some split: option.splits)
    qed (use base other flow cover E smap_insert_same [OF F flow] in simp_all)
    then have "flow_ok H K L c'" using E(4,5) by (simp add: fun_upd_back)
    moreover have "max (K sid) (unat final) = K sid" using eq E(5) by simp
    ultimately show ?thesis using False base(6) by (simp add: creditToFinalSize_def at fun_upd_back)
  qed
qed

lemma erase_pending_flow:
  assumes ok: "flow_ok H K L c"
  shows "flow_ok H K L (c\<lparr>c_pendingReliableResets := fst (smap_erase sid (c_pendingReliableResets c))\<rparr>)"
proof -
  have P: "smap_ok (c_pendingReliableResets c)" using ok by (simp add: flow_ok_def maps_ok_def)
  let ?c = "c\<lparr>c_pendingReliableResets := fst (smap_erase sid (c_pendingReliableResets c))\<rparr>"
  note R = retire_viewD [OF retire_view_simps(12), of "fst (smap_erase sid (c_pendingReliableResets c))" c]
  have "entry_at (L sid') ?c sid' \<and> ledger_at (H sid') (K sid') (L sid') ?c sid'" for sid'
  proof -
    have "entry_at (L sid') c sid'" "ledger_at (H sid') (K sid') (L sid') c sid'" using ok by (simp_all add: flow_ok_def)
    then show ?thesis
      by (cases "smap_find (c_streamFlow c) sid'") (auto simp: entry_at_def ledger_at_def R entry_Some smap.find_erase [OF P])
  qed
  then show ?thesis using ok by (simp add: flow_ok_def maps_ok_def windows_small_def smap.ok_erase R)
qed

subsection \<open>Retirement\<close>

lemma removeStream_eq: "snd (removeStream m sid) = fst (smap_erase sid m)"
  by (cases "smap_erase sid m") (simp add: removeStream_def)

lemma retired_mark:
  assumes "retired_ranges.ok (c_retiredPeerBidiRanges c)" and "isPeerInitiatedBidirectional c sid"
  shows "retired_ranges.ok (c_retiredPeerBidiRanges (markRetiredPeerBidirectional sid c))"
    and "isRetiredPeerBidirectional (markRetiredPeerBidirectional sid c) x \<longleftrightarrow> isRetiredPeerBidirectional c x \<or> x = sid"
proof -
  let ?c = "markRetiredPeerBidirectional sid c" and ?n = "drop_bit 2 sid"
  have M: "retired_ranges.ok (c_retiredPeerBidiRanges ?c)"
      "retired_ranges.elems (c_retiredPeerBidiRanges ?c) = retired_ranges.elems (c_retiredPeerBidiRanges c) \<union> {unat ?n}"
    using retired_ranges.merge [OF assms(1), of ?n ?n] by (simp_all add: markRetiredPeerBidirectional_def)
  have bidi: "isPeerInitiatedBidirectional ?c = isPeerInitiatedBidirectional c"
    by (simp add: isPeerInitiatedBidirectional_def markRetiredPeerBidirectional_def fun_eq_iff)
  show "retired_ranges.ok (c_retiredPeerBidiRanges ?c)" by (rule M)
  have "x = sid" if "isPeerInitiatedBidirectional c x" "unat (drop_bit 2 x) = unat ?n"
    using same_stream [OF that(1) assms(2)] that(2) by (simp add: word_unat_eq_iff)
  then show "isRetiredPeerBidirectional ?c x \<longleftrightarrow> isRetiredPeerBidirectional c x \<or> x = sid"
    unfolding isRetired_elems [OF M(1)] isRetired_elems [OF assms(1)] M(2) bidi using assms(2) by auto
qed

text \<open>A retired stream leaves its entry; the ledger keeps what it received and what was credited.\<close>

lemma retireState_flow:
  assumes ok: "flow_ok H K L c" and bidi: "isPeerInitiatedBidirectional c sid"
  shows "flow_ok H K L (retirePeerBidirectionalState sid c)"
proof -
  let ?c = "retirePeerBidirectionalState sid c"
  have maps: "maps_ok c" and R0: "retired_ranges.ok (c_retiredPeerBidiRanges c)"
    using ok by (simp_all add: flow_ok_def retiring_ok_def)
  then have F: "smap_ok (c_streamFlow c)" and R: "smap_ok (c_resetStreams c)" and P: "smap_ok (c_pendingReliableResets c)"
    and Z: "smap_ok (c_streamFinalSize c)" and S: "streams_ok (c_streams c)" by (simp_all add: maps_ok_def)
  then have S': "smap_ok (c_streams c)" by (simp add: streams_ok_def)
  note M = retired_mark [OF R0 bidi]
  have f: "c_localParams ?c = c_localParams c" "c_connectionFlow ?c = c_connectionFlow c" "c_role ?c = c_role c"
    "c_streams ?c = fst (smap_erase sid (c_streams c))"
    "c_streamFlow ?c = fst (smap_erase sid (c_streamFlow c))" "c_resetStreams ?c = fst (smap_erase sid (c_resetStreams c))"
    "c_pendingReliableResets ?c = fst (smap_erase sid (c_pendingReliableResets c))"
    "c_streamFinalSize ?c = fst (smap_erase sid (c_streamFinalSize c))" "c_sendStreams ?c = c_sendStreams c"
    "c_retiredPeerBidiRanges ?c = c_retiredPeerBidiRanges (markRetiredPeerBidirectional sid c)"
    by (simp_all add: retirePeerBidirectionalState_def removePendingSendFramesForStream_def markRetiredPeerBidirectional_def
        removeStream_eq Let_def)
  have bidi_eq: "isPeerInitiatedBidirectional ?c = isPeerInitiatedBidirectional c"
    using f(3) by (simp add: isPeerInitiatedBidirectional_def fun_eq_iff)
  have "c_role (markRetiredPeerBidirectional sid c) = c_role c" by (simp add: markRetiredPeerBidirectional_def)
  then have "isRetiredPeerBidirectional ?c = isRetiredPeerBidirectional (markRetiredPeerBidirectional sid c)"
    using f(3,10) by (auto simp: isRetiredPeerBidirectional_def isPeerInitiatedBidirectional_def fun_eq_iff split: option.splits)
  then have ret: "isRetiredPeerBidirectional ?c x \<longleftrightarrow> isRetiredPeerBidirectional c x \<or> x = sid" for x
    using M(2) [of x] by simp
  have "entry_at (L x) ?c x \<and> ledger_at (H x) (K x) (L x) ?c x" for x
  proof -
    have "entry_at (L x) c x" "ledger_at (H x) (K x) (L x) c x" using ok by (simp_all add: flow_ok_def)
    then show ?thesis
      by (cases "x = sid") (simp_all add: entry_at_def ledger_at_def f ret smap.find_erase [OF S'] smap.find_erase [OF F]
          smap.find_erase [OF R] smap.find_erase [OF P] smap.find_erase [OF Z] cong: option.case_cong)
  qed
  moreover have "retiring_ok ?c"
    using ok M(1) by (simp add: flow_ok_def retiring_ok_def f bidi_eq credit_pending_def released_in_def)
  moreover have "maps_ok ?c"
    using maps removeStream_ok [OF S, of sid] by (simp add: maps_ok_def f smap.ok_erase removeStream_eq)
  ultimately show ?thesis using ok by (simp add: flow_ok_def windows_small_def f)
qed

lemma flow_ok_sending:
  assumes ok: "flow_ok H K L c" and pending: "\<And>sid. credit_pending (c\<lparr>c_sendStreams := T\<rparr>) sid \<Longrightarrow> isPeerInitiatedBidirectional c sid"
  shows "flow_ok H K L (c\<lparr>c_sendStreams := T\<rparr>)"
proof -
  let ?c = "c\<lparr>c_sendStreams := T\<rparr>"
  have b: "isPeerInitiatedBidirectional ?c = isPeerInitiatedBidirectional c"
    by (simp add: isPeerInitiatedBidirectional_def fun_eq_iff)
  have "isRetiredPeerBidirectional ?c = isRetiredPeerBidirectional c"
    by (auto simp: isRetiredPeerBidirectional_def b fun_eq_iff split: option.splits)
  then show ?thesis using ok pending
    by (simp add: flow_ok_def maps_ok_def windows_small_def retiring_ok_def entry_at_def ledger_at_def b cong: option.case_cong)
qed

lemma retireOne_flow: "flow_ok H K L c \<Longrightarrow> flow_ok H K L (retireOne sid c)"
proof -
  assume ok: "flow_ok H K L c"
  show ?thesis
  proof (cases "smap_find (c_sendStreams c) sid")
    case None
    then show ?thesis using ok by (simp add: retireOne_def)
  next
    case (Some tx)
    show ?thesis
    proof (cases "\<not> tx_peerCreditPending tx \<or> \<not> receiveTerminal c sid \<or> \<not> resetTerminal tx \<and> \<not> gracefulTerminal tx")
      case True
      then show ?thesis using ok by (simp add: retireOne_def Some)
    next
      case False
      let ?c1 = "retirePeerBidirectionalState sid c"
      let ?c2 = "?c1\<lparr>c_sendStreams := fst (smap_erase sid (c_sendStreams ?c1))\<rparr>"
      have "credit_pending c sid" using False Some by (simp add: credit_pending_def released_in_def)
      then have bidi: "isPeerInitiatedBidirectional c sid" using ok by (simp add: flow_ok_def retiring_ok_def)
      have ok1: "flow_ok H K L ?c1" by (rule retireState_flow [OF ok bidi])
      have "flow_ok H K L ?c2"
      proof (rule flow_ok_sending [OF ok1])
        fix x
        assume "credit_pending ?c2 x"
        then have "credit_pending ?c1 x"
          by (auto simp: credit_pending_def released_in_def smap_erase_def smap_find_filter split: if_splits)
        then show "isPeerInitiatedBidirectional ?c1 x" using ok1 by (simp add: flow_ok_def retiring_ok_def)
      qed
      moreover have "flow_view (retireOne sid c) = flow_view ?c2" "retire_view (retireOne sid c) = retire_view ?c2"
        using False by (auto simp: retireOne_def Some Let_def)
      ultimately show ?thesis using flow_ok_view by blast
    qed
  qed
qed

lemma retire_flow: "flow_ok H K L c \<Longrightarrow> flow_ok H K L (retireAcknowledgedPeerStreams c)"
proof -
  assume ok: "flow_ok H K L c"
  have "flow_ok H K L (fold retireOne ks c)" for ks
    using ok by (induction ks arbitrary: c) (simp_all add: retireOne_flow)
  then show ?thesis
    unfolding retireAcknowledgedPeerStreams_def Let_def using flow_ok_view [OF flow_view_simps(6) retire_view_simps(5)] by blast
qed

subsection \<open>The handlers\<close>

lemma resetConflict_False:
  assumes "\<not> resetConflict c f flow"
  shows "sfc_highestReceivedOffset flow \<le> finalSize f"
    and "smap_find (c_streamFinalSize c) (streamId f) \<noteq> None \<Longrightarrow> smap_find (c_streamFinalSize c) (streamId f) = Some (finalSize f)"
  using assms by (auto simp: resetConflict_def not_less split: option.splits)

text \<open>The part both resets share, behind the checks: count, enter the final size, credit.\<close>

lemma reset_counted:
  fixes c :: "'a conn_streams_scheme"
  assumes ok: "flow_ok H K L c" and flow: "smap_find (c_streamFlow c) (streamId f) = Some flow"
    and nc: "\<not> resetConflict c f flow"
    and run: "countToFinalSize (streamId f) (finalSize f) flow c' = (None, c'')"
    and c': "flow_view c' = flow_view c \<or> flow_view c' = flow_view (c\<lparr>c_resetStreams := R, c_streamFinalSize := Z\<rparr>)"
    and rc: "retire_view c' = retire_view c"
  obtains d :: "'a conn_streams_scheme" and flow1 where "flow_ok (H(streamId f := unat (finalSize f))) K L d"
    and "smap_find (c_streamFlow d) (streamId f) = Some flow1"
    and "sfc_highestReceivedOffset flow1 = finalSize f"
    and "c_localParams c'' = c_localParams d" "c_streamFlow c'' = c_streamFlow d" "c_connectionFlow c'' = c_connectionFlow d"
      "c_streams c'' = c_streams d" "c_pendingReliableResets c'' = c_pendingReliableResets d"
      "c_pendingReliableResets c'' = c_pendingReliableResets c"
      "c_resetStreams d = c_resetStreams c" "c_streamFinalSize d = c_streamFinalSize c"
      "c_resetStreams c'' = c_resetStreams c'" "c_streamFinalSize c'' = c_streamFinalSize c'" "retire_view c'' = retire_view d"
proof -
  have same: "c_streamFlow c' = c_streamFlow c" "c_connectionFlow c' = c_connectionFlow c"
    "c_streams c' = c_streams c" "c_localParams c' = c_localParams c" "c_pendingReliableResets c' = c_pendingReliableResets c"
    using c' by (auto simp: flow_view_def)
  have F: "smap_ok (c_streamFlow c)" using ok by (simp add: flow_ok_def maps_ok_def)
  obtain cf flow1 where v: "flow_view c'' = flow_view (c'\<lparr>c_streamFlow := smap_insert (streamId f) flow1 (c_streamFlow c), c_connectionFlow := cf\<rparr>)"
    and rv: "retire_view c'' = retire_view c'"
    and h: "sfc_highestReceivedOffset flow1 = finalSize f"
    and d: "flow_ok (H(streamId f := unat (finalSize f))) K L
      (c\<lparr>c_streamFlow := smap_insert (streamId f) flow1 (c_streamFlow c), c_connectionFlow := cf\<rparr>)"
    by (rule countToFinalSize_flow [OF ok flow resetConflict_False [OF nc] run same(1,2)])
  have flow1: "smap_find (c_streamFlow (c\<lparr>c_streamFlow := smap_insert (streamId f) flow1 (c_streamFlow c), c_connectionFlow := cf\<rparr>)) (streamId f) = Some flow1"
    by (simp add: smap_insert_find [OF F])
  show thesis by (rule that [OF d flow1 h]) (use v rv rc same in \<open>simp_all add: flow_view_def\<close>)
qed

lemma small_flow_view: "flow_view c = flow_view c' \<Longrightarrow> small_flow c = small_flow c'"
  by (simp add: small_flow_def flow_view_def)

lemma small_touched: "small_flow (markStreamTouched sid c) = small_flow c"
  by (simp add: small_flow_def markStreamTouched_def)

lemma small_flow_updates:
  "small_flow (c\<lparr>c_pendingReliableResets := P\<rparr>) = small_flow c" "small_flow (c\<lparr>c_resetStreams := R\<rparr>) = small_flow c"
  "small_flow (c\<lparr>c_streamFinalSize := Z\<rparr>) = small_flow c" "small_flow (c\<lparr>c_streams := S\<rparr>) = small_flow c"
  by (simp_all add: small_flow_def)

lemma small_credit: "small_flow (creditFlowControl sid n c) = small_flow c"
  by (simp add: small_flow_def creditFlowControl_def streamFlowControl_def setStreamFlow_def pushPending_def
      connection_consume_def applyMaxData_def applyMaxStreamData_def Let_def split: option.splits)

lemma small_creditToFinal: "small_flow (creditToFinalSize sid final c) = small_flow c"
proof -
  have "small_flow (snd (streamFlowControl sid c)) = small_flow c"
    by (simp add: streamFlowControl_def small_flow_def Let_def split: option.splits)
  then show ?thesis by (cases "streamFlowControl sid c") (simp add: creditToFinalSize_def small_credit Let_def)
qed

lemma small_retire: "small_flow (retireAcknowledgedPeerStreams c) = small_flow c"
proof -
  have one: "small_flow (retireOne sid c) = small_flow c" for sid and c :: "'a conn_streams_scheme"
    by (simp add: retireOne_def retirePeerBidirectionalState_def removePendingSendFramesForStream_def pushPending_def
        markRetiredPeerBidirectional_def small_flow_def Let_def split: option.splits)
  have "small_flow (fold retireOne ks c) = small_flow c" for ks
    by (induction ks arbitrary: c) (simp_all add: one)
  then show ?thesis by (simp add: retireAcknowledgedPeerStreams_def small_flow_def Let_def)
qed

lemma processResetStreamFrame_flow:
  fixes c :: "'a conn_streams_scheme"
  assumes ok: "flow_ok H K L c" and run: "processResetStreamFrame f c = (None, c')" and small: "small_flow c'"
    and live: "\<not> isRetiredPeerBidirectional c (streamId f)"
  shows "flow_ok (H(streamId f := unat (finalSize f))) (K(streamId f := max (K (streamId f)) (unat (finalSize f)))) L c' \<and>
    H (streamId f) \<le> unat (finalSize f)"
proof -
  let ?sid = "streamId f" and ?flow = "flowAt c (streamId f)"
  have lim: "enforceStreamLimit ?sid c = (None, c)"
    using run live enforceStreamLimit_None [of ?sid c]
    by (cases "enforceStreamLimit ?sid c"; cases "fst (enforceStreamLimit ?sid c)") (auto simp: processResetStreamFrame_def Let_def)
  obtain c2 where s: "streamFlowControl ?sid c = (?flow, c2)" using streamFlowControl_fst [of ?sid c] by (metis prod.collapse)
  have ok2: "flow_ok H K L c2" and flow: "smap_find (c_streamFlow c2) ?sid = Some ?flow"
    using streamFlowControl_flow [OF ok live] by (simp_all add: s)
  have nc: "\<not> resetConflict c2 f ?flow" using run live lim s by (auto simp: processResetStreamFrame_def Let_def)
  let ?R = "smap_insert ?sid (errorCode f) (c_resetStreams c2)" and ?Z = "smap_insert ?sid (finalSize f) (c_streamFinalSize c2)"
  let ?c3 = "c2\<lparr>c_resetStreams := ?R, c_streamFinalSize := ?Z\<rparr>"
  obtain c4 where count: "countToFinalSize ?sid (finalSize f) ?flow ?c3 = (None, c4)"
    and c': "c' = retireAcknowledgedPeerStreams (markStreamTouched ?sid (creditToFinalSize ?sid (finalSize f) c4))"
    using run live lim s nc by (auto simp: processResetStreamFrame_def Let_def split: prod.splits option.splits)
  have maps: "maps_ok c2" using ok2 by (simp add: flow_ok_def)
  then have R: "smap_ok (c_resetStreams c2)" and Z: "smap_ok (c_streamFinalSize c2)" by (simp_all add: maps_ok_def)
  have V: "flow_view ?c3 = flow_view c2 \<or> flow_view ?c3 = flow_view (c2\<lparr>c_resetStreams := ?R, c_streamFinalSize := ?Z\<rparr>)" by simp
  obtain d :: "'a conn_streams_scheme" and flow1 where d: "flow_ok (H(?sid := unat (finalSize f))) K L d" "smap_find (c_streamFlow d) ?sid = Some flow1"
    "sfc_highestReceivedOffset flow1 = finalSize f"
    and same: "c_localParams c4 = c_localParams d" "c_streamFlow c4 = c_streamFlow d" "c_connectionFlow c4 = c_connectionFlow d"
      "c_streams c4 = c_streams d" "c_pendingReliableResets c4 = c_pendingReliableResets d"
      "c_pendingReliableResets c4 = c_pendingReliableResets c2"
      "c_resetStreams d = c_resetStreams c2" "c_streamFinalSize d = c_streamFinalSize c2"
      "c_resetStreams c4 = c_resetStreams ?c3" "c_streamFinalSize c4 = c_streamFinalSize ?c3" "retire_view c4 = retire_view d"
    by (rule reset_counted [OF ok2 flow nc count V]) simp_all
  have dm: "maps_ok d" using d(1) by (simp add: flow_ok_def)
  have "small_flow c4"
    using small by (simp add: c' small_retire small_touched small_creditToFinal)
  then have sd: "small_flow d" by (simp add: small_flow_def same)
  have "flow_ok (H(?sid := unat (finalSize f))) (K(?sid := max (K ?sid) (unat (finalSize f)))) L (creditToFinalSize ?sid (finalSize f) c4) \<and>
      retire_view (creditToFinalSize ?sid (finalSize f) c4) = retire_view d"
  proof (rule creditToFinalSize_flow [OF d(1,2) sd])
    show "maps_ok c4" using dm same R Z by (simp add: maps_ok_def smap_insert_ok)
    show "prr_finalSize pr = finalSize f" if "smap_find (c_pendingReliableResets c4) ?sid = Some pr" for pr
      using that flow_entry(3) [OF d(1,2)] d(3) same(5) by (simp add: entry_Some)
  qed (use same d(3) in \<open>simp_all add: smap_insert_find [OF R] smap_insert_find [OF Z]\<close>)
  moreover have "H ?sid \<le> unat (finalSize f)"
    using flow_entry(4) [OF ok2 flow] resetConflict_False(1) [OF nc] by (simp add: word_le_nat_alt)
  ultimately show ?thesis unfolding c' using retire_flow flow_ok_view [OF flow_view_simps(8) retire_view_simps(7)] by blast
qed

lemma processResetStreamAtFrame_flow:
  fixes c :: "'a conn_streams_scheme"
  assumes ok: "flow_ok H K L c" and run: "processResetStreamAtFrame f c = (None, c')" and small: "small_flow c'"
    and live: "\<not> isRetiredPeerBidirectional c (streamId f)"
  shows "flow_ok (H(streamId f := unat (finalSize f)))
    (if reliableSize f = 0 then K(streamId f := max (K (streamId f)) (unat (finalSize f))) else K) L c' \<and>
    H (streamId f) \<le> unat (finalSize f)"
proof -
  let ?sid = "streamId f" and ?flow = "flowAt c (streamId f)"
  have rel: "\<not> reliableSize f > finalSize f" using run by (auto simp: processResetStreamAtFrame_def)
  have lim: "enforceStreamLimit ?sid c = (None, c)"
    using run live rel enforceStreamLimit_None [of ?sid c]
    by (cases "enforceStreamLimit ?sid c"; cases "fst (enforceStreamLimit ?sid c)") (auto simp: processResetStreamAtFrame_def Let_def)
  obtain c2 where s: "streamFlowControl ?sid c = (?flow, c2)" using streamFlowControl_fst [of ?sid c] by (metis prod.collapse)
  have ok2: "flow_ok H K L c2" and flow: "smap_find (c_streamFlow c2) ?sid = Some ?flow"
    using streamFlowControl_flow [OF ok live] by (simp_all add: s)
  have nc: "\<not> resetConflict c2 f ?flow" using run live rel lim s by (auto simp: processResetStreamAtFrame_def Let_def)
  let ?pending = "\<lparr>prr_errorCode = errorCode f, prr_finalSize = finalSize f, prr_reliableSize = reliableSize f\<rparr>"
  obtain c3 where count: "countToFinalSize ?sid (finalSize f) ?flow c2 = (None, c3)"
    using run live rel lim s nc
    by (cases "countToFinalSize ?sid (finalSize f) ?flow c2"; cases "fst (countToFinalSize ?sid (finalSize f) ?flow c2)")
      (auto simp: processResetStreamAtFrame_def Let_def)
  let ?P = "smap_insert ?sid ?pending (c_pendingReliableResets c3)" and ?Z = "smap_insert ?sid (finalSize f) (c_streamFinalSize c3)"
  let ?c4 = "c3\<lparr>c_streamFinalSize := ?Z, c_pendingReliableResets := ?P\<rparr>"
  let ?c5 = "creditToFinalSize ?sid (finalSize f) (?c4\<lparr>c_resetStreams := smap_insert ?sid (errorCode f) (c_resetStreams ?c4)\<rparr>)"
  let ?c6 = "?c5\<lparr>c_pendingReliableResets := fst (smap_erase ?sid (c_pendingReliableResets ?c5))\<rparr>"
  have c': "c' = retireAcknowledgedPeerStreams (markStreamTouched ?sid (if reliableSize f = 0 then ?c6 else ?c4))"
    using run live rel lim s nc count by (cases "reliableSize f = 0") (simp_all add: processResetStreamAtFrame_def Let_def)
  let ?H = "H(?sid := unat (finalSize f))"
  have maps: "maps_ok c2" using ok2 by (simp add: flow_ok_def)
  then have R: "smap_ok (c_resetStreams c2)" and Z: "smap_ok (c_streamFinalSize c2)" and P: "smap_ok (c_pendingReliableResets c2)"
    by (simp_all add: maps_ok_def)
  have V: "flow_view c2 = flow_view c2 \<or> flow_view c2 = flow_view (c2\<lparr>c_resetStreams := [], c_streamFinalSize := []\<rparr>)" by simp
  obtain d :: "'a conn_streams_scheme" and flow1 where d: "flow_ok ?H K L d" "smap_find (c_streamFlow d) ?sid = Some flow1"
    "sfc_highestReceivedOffset flow1 = finalSize f"
    and same: "c_localParams c3 = c_localParams d" "c_streamFlow c3 = c_streamFlow d" "c_connectionFlow c3 = c_connectionFlow d"
      "c_streams c3 = c_streams d" "c_pendingReliableResets c3 = c_pendingReliableResets d"
      "c_pendingReliableResets c3 = c_pendingReliableResets c2"
      "c_resetStreams d = c_resetStreams c2" "c_streamFinalSize d = c_streamFinalSize c2"
      "c_resetStreams c3 = c_resetStreams c2" "c_streamFinalSize c3 = c_streamFinalSize c2" "retire_view c3 = retire_view d"
    by (rule reset_counted [OF ok2 flow nc count V refl])
  have dm: "maps_ok d" using d(1) by (simp add: flow_ok_def)
  have D: "smap_ok (c_streamFlow d)" "connection_window.covered (c_connectionFlow d)"
    "smap_ok (c_pendingReliableResets d)" using d(1) by (simp_all add: flow_ok_def maps_ok_def)
  note E = flow_entry [OF d(1,2)]
  have "flow_ok ?H (if reliableSize f = 0 then K(?sid := max (K ?sid) (unat (finalSize f))) else K) L
      (if reliableSize f = 0 then ?c6 else ?c4)"
  proof (cases "reliableSize f = 0")
    case True
    have "small_flow c3" using small True
      by (simp add: c' small_retire small_touched small_creditToFinal small_flow_updates)
    then have sd: "small_flow d" by (simp add: small_flow_def same)
    have "flow_ok ?H (K(?sid := max (K ?sid) (unat (finalSize f)))) L ?c5 \<and> retire_view ?c5 = retire_view d"
    proof (rule creditToFinalSize_flow [OF d(1,2) sd])
      show "maps_ok (?c4\<lparr>c_resetStreams := smap_insert ?sid (errorCode f) (c_resetStreams ?c4)\<rparr>)"
        using dm same R Z P by (simp add: maps_ok_def smap_insert_ok)
    qed (use same d(3) P R Z in \<open>auto simp: smap_insert_find\<close>)
    then show ?thesis unfolding if_P [OF True] using erase_pending_flow by blast
  next
    case False
    have entry: "entry_ok (L ?sid) (Some flow1) (smap_find (c_streams ?c4) ?sid) (smap_find (c_resetStreams ?c4) ?sid)
        (smap_find (c_pendingReliableResets ?c4) ?sid) (smap_find (c_streamFinalSize ?c4) ?sid)"
      using E(3) same d(3) by (auto simp: entry_Some smap_insert_find P Z D(3))
    have "flow_ok (?H(?sid := highest_of flow1)) (K(?sid := consumed_of flow1)) (L(?sid := L ?sid)) ?c4"
    proof (rule flow_update [OF d(1)])
      show "maps_ok ?c4" using dm same R Z P by (simp add: maps_ok_def smap_insert_ok)
      show "consumed_of flow1 \<le> highest_of flow1 + L ?sid" using E(4-6) by simp
      show "unat (cfc_bytesReceived (c_connectionFlow ?c4)) + ?H ?sid = unat (cfc_bytesReceived (c_connectionFlow d)) + highest_of flow1"
        using E(4) same(3) by simp
      show "unat (cfc_bytesConsumed (c_connectionFlow ?c4)) + K ?sid = unat (cfc_bytesConsumed (c_connectionFlow d)) + consumed_of flow1"
        using E(5) same(3) by simp
    qed (use same D entry smap_insert_same [OF D(1) d(2)] P R Z in \<open>simp_all add: smap_insert_find\<close>)
    moreover have "?H(?sid := highest_of flow1) = ?H" "K(?sid := consumed_of flow1) = K"
      using d(3) E(5) by (simp_all add: fun_upd_back)
    ultimately show ?thesis unfolding if_not_P [OF False] by simp
  qed
  moreover have "H ?sid \<le> unat (finalSize f)"
    using flow_entry(4) [OF ok2 flow] resetConflict_False(1) [OF nc] by (simp add: word_le_nat_alt)
  ultimately show ?thesis unfolding c' using retire_flow flow_ok_view [OF flow_view_simps(8) retire_view_simps(7)] by blast
qed

subsection \<open>Reading\<close>

text \<open>What a read of \<open>n\<close> bytes adds to the bytes read after a reset.\<close>

definition read_late :: "'a conn_streams_scheme \<Rightarrow> u64 \<Rightarrow> nat \<Rightarrow> nat \<Rightarrow> nat" where
  "read_late c sid n l = (if smap_find (c_resetStreams c) sid = None then l else l + n)"

text \<open>The final size of the pending reliable reset that a read reaches, or zero.\<close>

definition reset_reached :: "'a conn_streams_scheme \<Rightarrow> u64 \<Rightarrow> nat" where
  "reset_reached c sid =
     (case (smap_find (c_pendingReliableResets c) sid, streamAt (snd (smap_readContiguous (c_streams c) sid)) sid) of
        (Some pending, Some s) \<Rightarrow> if m_readOffset s \<ge> prr_reliableSize pending then unat (prr_finalSize pending) else 0
      | _ \<Rightarrow> 0)"

lemma readContiguous_flow:
  assumes ok: "flow_ok H K L c" and small: "small_flow c" and read: "smap_readContiguous (c_streams c) sid = (bs, m)"
  shows "flow_ok H (K(sid := K sid + length bs)) (L(sid := read_late c sid (length bs) (L sid)))
    (if bs \<noteq> [] then creditFlowControl sid (word_of_nat (length bs)) (c\<lparr>c_streams := m\<rparr>) else c\<lparr>c_streams := m\<rparr>)"
proof (cases "smap_find (c_streams c) sid")
  case None
  then show ?thesis using read ok by (auto simp: smap_readContiguous_def streamAt_def read_late_def fun_upd_back)
next
  case (Some s)
  have maps: "maps_ok c" and cover: "connection_window.covered (c_connectionFlow c)" using ok by (simp_all add: flow_ok_def)
  then have F: "smap_ok (c_streamFlow c)" and S: "streams_ok (c_streams c)" by (simp_all add: maps_ok_def)
  then have S': "smap_ok (c_streams c)" by (simp add: streams_ok_def)
  obtain s' where r: "readContiguous s = (bs, s')" and m: "m = smap_insert sid s' (c_streams c)"
    using read Some by (auto simp: smap_readContiguous_def streamAt_def split: prod.splits)
  have find: "smap_find m = (smap_find (c_streams c))(sid \<mapsto> s')" by (simp add: m smap.find_assign [OF S'])
  have mok: "streams_ok m" using smap_readContiguous_ok [OF S, of sid] read by simp
  obtain flow where flow: "smap_find (c_streamFlow c) sid = Some flow"
    using entry_None [OF ok, of sid] Some by (cases "smap_find (c_streamFlow c) sid") auto
  let ?l = "read_late c sid (length bs) (L sid)"
  note E = flow_entry [OF ok flow]
  note E3 = E(3) [unfolded entry_Some Some option.case]
  have ins: "inside s (highest_of flow)" and lo: "L sid \<le> unat (m_readOffset s)" using E3 by auto
  have "stream_inv s" using S Some stream_reachable_inv by (auto simp: streams_ok_def)
  note I = inside_read [OF this r ins]
  have below: "unat (m_readOffset s) + length bs \<le> highest_of flow" using I by (simp add: inside_def)
  then have len: "unat (word_of_nat (length bs) :: u64) = length bs"
    using unsigned_less [of "sfc_highestReceivedOffset flow", where 'a = nat]
    by (simp add: unsigned_of_nat take_bit_nat_eq_self)
  have unreset: "m_readOffset s = sfc_bytesConsumed flow" "L sid = 0" "?l = 0" if "smap_find (c_resetStreams c) sid = None"
    using E3 that by (simp_all add: read_late_def)
  have le: "consumed_of flow + length bs \<le> highest_of flow + ?l"
  proof (cases "smap_find (c_resetStreams c) sid")
    case None
    then show ?thesis using below unreset by simp
  next
    case r: (Some e)
    then show ?thesis using E3 by (simp add: read_late_def)
  qed
  have entry: "entry_ok ?l (Some flow') (smap_find m sid) (smap_find (c_resetStreams c) sid)
        (smap_find (c_pendingReliableResets c) sid) (smap_find (c_streamFinalSize c) sid)"
    if "stream_window.covered flow'" "sfc_initialWindow flow' = sfc_initialWindow flow"
      "sfc_highestReceivedOffset flow' = sfc_highestReceivedOffset flow" "consumed_of flow' = consumed_of flow + length bs" for flow'
  proof (cases "smap_find (c_resetStreams c) sid")
    case None
    then have "m_readOffset s' = sfc_bytesConsumed flow'" using I(2) unreset(1) that(4) by (simp add: word_unat_eq_iff)
    then show ?thesis using E3 None I that unreset find by (simp add: entry_Some cong: option.case_cong)
  next
    case r: (Some e)
    have "?l \<le> unat (m_readOffset s')" "?l \<le> highest_of flow" using I(2) lo below r by (simp_all add: read_late_def)
    then show ?thesis using E3 r I that find by (simp add: entry_Some read_late_def split: option.splits)
  qed
  have maps': "maps_ok (c\<lparr>c_streams := m\<rparr>)" using maps mok by (simp add: maps_ok_def)
  show ?thesis
  proof (cases "bs = []")
    case True
    have "flow_ok (H(sid := highest_of flow)) (K(sid := consumed_of flow)) (L(sid := ?l)) (c\<lparr>c_streams := m\<rparr>)"
    proof (rule flow_update [OF ok])
      show "consumed_of flow \<le> highest_of flow + ?l" using le by simp
    qed (use maps' cover find E(1,4,5) entry [of flow] True smap_insert_same [OF F flow] in simp_all)
    then show ?thesis using True E(4,5) by (simp add: fun_upd_back)
  next
    case False
    have n: "unat (word_of_nat (length bs) :: u64) \<le> highest_of flow"
      "consumed_of flow + unat (word_of_nat (length bs) :: u64) \<le> highest_of flow + ?l" using below le unfolding len by simp_all
    have "flow_ok H (K(sid := K sid + unat (word_of_nat (length bs) :: u64))) (L(sid := ?l))
        (creditFlowControl sid (word_of_nat (length bs)) (c\<lparr>c_streams := m\<rparr>))"
      by (rule flow_credit [OF ok flow n small maps']) (use entry len find in simp_all)
    then show ?thesis using False len by simp
  qed
qed

lemma readStream_unfold:
  assumes "smap_readContiguous (c_streams c) sid = (bs, m)"
    and "c2 = (if bs \<noteq> [] then creditFlowControl sid (word_of_nat (length bs)) (c\<lparr>c_streams := m\<rparr>) else c\<lparr>c_streams := m\<rparr>)"
  shows "snd (readStream sid c) = retireAcknowledgedPeerStreams
     (case (smap_find (c_pendingReliableResets c2) sid, streamAt (c_streams c2) sid) of
        (Some pending, Some s) \<Rightarrow>
          if m_readOffset s \<ge> prr_reliableSize pending
          then let c' = creditToFinalSize sid (prr_finalSize pending)
                     (c2\<lparr>c_resetStreams := smap_insert sid (prr_errorCode pending) (c_resetStreams c2)\<rparr>)
               in markStreamTouched sid
                    (c'\<lparr>c_pendingReliableResets := fst (smap_erase sid (c_pendingReliableResets c'))\<rparr>)
          else c2
      | _ \<Rightarrow> c2)"
  unfolding readStream_def assms Let_def prod.case snd_conv ..

lemma credit_keeps:
  "c_pendingReliableResets (creditFlowControl sid n c) = c_pendingReliableResets c" "c_streams (creditFlowControl sid n c) = c_streams c"
  by (simp_all add: creditFlowControl_def streamFlowControl_def setStreamFlow_def pushPending_def applyMaxData_def
      applyMaxStreamData_def Let_def split: option.splits)

lemma readStream_flow:
  assumes ok: "flow_ok H K L c" and small: "small_flow c" and read: "smap_readContiguous (c_streams c) sid = (bs, m)"
  shows "flow_ok H (K(sid := max (K sid + length bs) (reset_reached c sid))) (L(sid := read_late c sid (length bs) (L sid)))
    (snd (readStream sid c))"
proof -
  let ?K = "K(sid := K sid + length bs)" and ?L = "L(sid := read_late c sid (length bs) (L sid))"
  define c2 where "c2 = (if bs \<noteq> [] then creditFlowControl sid (word_of_nat (length bs)) (c\<lparr>c_streams := m\<rparr>) else c\<lparr>c_streams := m\<rparr>)"
  have ok2: "flow_ok H ?K ?L c2" unfolding c2_def by (rule readContiguous_flow [OF ok small read])
  have small2: "small_flow c2" using small by (simp add: c2_def small_credit small_flow_updates)
  have keep: "c_pendingReliableResets c2 = c_pendingReliableResets c" "c_streams c2 = m" by (simp_all add: c2_def credit_keeps)
  have reached: "reset_reached c sid = (case (smap_find (c_pendingReliableResets c2) sid, streamAt (c_streams c2) sid) of
        (Some pending, Some s) \<Rightarrow> if m_readOffset s \<ge> prr_reliableSize pending then unat (prr_finalSize pending) else 0
      | _ \<Rightarrow> 0)" by (simp add: reset_reached_def read keep)
  have "\<exists>c3. snd (readStream sid c) = retireAcknowledgedPeerStreams c3 \<and> flow_ok H (?K(sid := max (?K sid) (reset_reached c sid))) ?L c3"
  proof (cases "\<exists>pending s. smap_find (c_pendingReliableResets c2) sid = Some pending \<and> streamAt (c_streams c2) sid = Some s \<and>
      m_readOffset s \<ge> prr_reliableSize pending")
    case False
    then have "snd (readStream sid c) = retireAcknowledgedPeerStreams c2"
      unfolding readStream_unfold [OF read c2_def] by (auto split: option.splits)
    moreover have "reset_reached c sid = 0" using False unfolding reached by (auto split: option.splits)
    ultimately show ?thesis using ok2 by (auto simp: fun_upd_back)
  next
    case True
    then obtain pending s where p: "smap_find (c_pendingReliableResets c2) sid = Some pending" "streamAt (c_streams c2) sid = Some s"
      "m_readOffset s \<ge> prr_reliableSize pending" by blast
    let ?d = "c2\<lparr>c_resetStreams := smap_insert sid (prr_errorCode pending) (c_resetStreams c2)\<rparr>"
    let ?c' = "creditToFinalSize sid (prr_finalSize pending) ?d"
    have e: "snd (readStream sid c) = retireAcknowledgedPeerStreams
        (markStreamTouched sid (?c'\<lparr>c_pendingReliableResets := fst (smap_erase sid (c_pendingReliableResets ?c'))\<rparr>))"
      unfolding readStream_unfold [OF read c2_def] using p by (simp add: Let_def)
    have final: "reset_reached c sid = unat (prr_finalSize pending)" unfolding reached using p by simp
    have maps: "maps_ok c2" using ok2 by (simp add: flow_ok_def)
    then have R: "smap_ok (c_resetStreams c2)" by (simp add: maps_ok_def)
    obtain flow where flow: "smap_find (c_streamFlow c2) sid = Some flow"
      using entry_None [OF ok2, of sid] p(2) by (cases "smap_find (c_streamFlow c2) sid") (auto simp: streamAt_def)
    note E = flow_entry(3) [OF ok2 flow, unfolded entry_Some]
    have "flow_ok H (?K(sid := max (?K sid) (unat (prr_finalSize pending)))) ?L ?c' \<and> retire_view ?c' = retire_view c2"
    proof (rule creditToFinalSize_flow [OF ok2 flow small2])
      show "maps_ok ?d" using maps R by (simp add: maps_ok_def smap_insert_ok)
    qed (use E p R in \<open>auto simp: smap_insert_find\<close>)
    then have "flow_ok H (?K(sid := max (?K sid) (unat (prr_finalSize pending)))) ?L
        (markStreamTouched sid (?c'\<lparr>c_pendingReliableResets := fst (smap_erase sid (c_pendingReliableResets ?c'))\<rparr>))"
      using erase_pending_flow flow_ok_view [OF flow_view_simps(8) retire_view_simps(7)] by blast
    then show ?thesis using e final by auto
  qed
  then show ?thesis using retire_flow by auto
qed

end
