(* ===== verification/Quic_Recovery.thy ===== *)
theory Quic_Recovery
  imports Quic_Connection
begin

text \<open>
  The recovery half of \<open>SwQuicConnection\<close> (\<open>src/core/io/quic/SwQuicConnection.h\<close>): the processing of
  an ACK frame, with the acknowledgement of stream data, the loss of packets, the requeueing
  of their frames and persistent congestion, and the timers (probe timeout, idle timeout,
  draining). The record \<open>conn_recovery\<close> extends the state of the streams by what these
  functions use. As in \<open>Quic_LossRecovery\<close> the rounding of a \<open>double\<close> is the argument \<open>rnd\<close>.
\<close>

subsection \<open>State\<close>

record conn_recovery = conn_streams +
  c_congestion :: SwQuicCongestionControl
  c_handshakeConfirmed :: bool
  c_peerAckDelayExponent :: u64
  c_peerMaxAckDelayMs :: u64
  c_effectiveIdleTimeoutMs :: u64
  c_lastNetworkActivityMs :: u64
  c_hasNetworkActivity :: bool
  c_drainDeadlineMs :: u64
  c_hasDrainDeadline :: bool
  c_ptoCount :: nat
  c_closeQueued :: bool
  c_closeReason :: bytes
  c_closeIsApplication :: bool
  c_currentPhaseTxAcked :: bool
  c_currentPhaseFirstTxPn :: u64

definition kLocalMaxAckDelayMs :: u64 where "kLocalMaxAckDelayMs = 25"
definition kPersistentCongestionThreshold :: rat where "kPersistentCongestionThreshold = 3"

definition isAckElicitingFrame :: "frame_Type \<Rightarrow> bool" where
  "isAckElicitingFrame t \<longleftrightarrow> t \<noteq> Ack \<and> t \<noteq> Padding \<and> t \<noteq> ConnectionClose"

definition isRetransmittableFrame :: "frame_Type \<Rightarrow> bool" where
  "isRetransmittableFrame t \<longleftrightarrow>
     t \<noteq> Ack \<and> t \<noteq> Padding \<and> t \<noteq> Ping \<and> t \<noteq> ConnectionClose \<and> t \<noteq> Datagram \<and> t \<noteq> PathResponse"

subsection \<open>ACK frames\<close>

definition updateSendStream :: "u64 \<Rightarrow> (SendStream \<Rightarrow> SendStream) \<Rightarrow> 'a conn_recovery_scheme \<Rightarrow> 'a conn_recovery_scheme" where
  "updateSendStream sid g c =
     (case smap_find (c_sendStreams c) sid of None \<Rightarrow> c | Some tx \<Rightarrow> setSendStream sid (g tx) c)"

definition acknowledgeFrame :: "SwQuicFrame \<Rightarrow> 'a conn_recovery_scheme \<Rightarrow> 'a conn_recovery_scheme" where
  "acknowledgeFrame f c =
     (if frameType f = Stream then
        updateSendStream (streamId f)
          (\<lambda>tx. let tx' = acknowledgeSendStreamRange (offset f) (word_of_nat (length (data f))) tx
                in if fin f then tx'\<lparr>tx_finAcked := True\<rparr> else tx') c
      else if frameType f = ResetStream \<or> frameType f = ResetStreamAt then
        updateSendStream (streamId f) (\<lambda>tx. tx\<lparr>tx_resetAcked := True\<rparr>) c
      else c)"

definition erasePacket :: "Level \<Rightarrow> u64 \<Rightarrow> 'a conn_recovery_scheme \<Rightarrow> 'a conn_recovery_scheme" where
  "erasePacket level pn = onSpace level (\<lambda>s. s\<lparr>spc_sentPackets := fst (smap_erase pn (spc_sentPackets s))\<rparr>)"

definition acknowledgePacket :: "Level \<Rightarrow> u64 \<Rightarrow> 'a conn_recovery_scheme \<Rightarrow> 'a conn_recovery_scheme" where
  "acknowledgePacket level pn c =
     (case smap_find (spc_sentPackets (c_spaces c level)) pn of
        None \<Rightarrow> c
      | Some r \<Rightarrow>
          let c1 = (if sr_ackEliciting r
                    then c\<lparr>c_congestion := cc_onPacketAcked (sr_sentBytes r) (sr_sentTimeMs r) (c_congestion c)\<rparr>
                    else c)
          in erasePacket level pn (fold acknowledgeFrame (sr_retransmittable r) c1))"

text \<open>The lost ack-eliciting packets so far: how many, the earliest and the latest time they were sent.\<close>

record LostSpan =
  anyLostAckEliciting :: bool
  earliestLostSent :: u64
  latestLostSent :: u64
  lostAckElicitingCount :: nat

definition noLostSpan :: LostSpan where
  "noLostSpan = \<lparr>anyLostAckEliciting = False, earliestLostSent = 0, latestLostSent = 0, lostAckElicitingCount = 0\<rparr>"

definition extendSpan :: "u64 \<Rightarrow> LostSpan \<Rightarrow> LostSpan" where
  "extendSpan t sp =
     (let sp1 = (if \<not> anyLostAckEliciting sp \<or> t < earliestLostSent sp then sp\<lparr>earliestLostSent := t\<rparr> else sp);
          sp2 = (if \<not> anyLostAckEliciting sp1 \<or> t > latestLostSent sp1 then sp1\<lparr>latestLostSent := t\<rparr> else sp1)
      in sp2\<lparr>anyLostAckEliciting := True, lostAckElicitingCount := lostAckElicitingCount sp2 + 1\<rparr>)"

definition requeueFrames :: "Level \<Rightarrow> SwQuicFrame list \<Rightarrow> 'a conn_streams_scheme \<Rightarrow> 'a conn_streams_scheme" where
  "requeueFrames level fs c = fold (pushPending level) (filter (shouldRetransmitFrame c) fs) c"

definition losePacket ::
  "Level \<Rightarrow> u64 \<Rightarrow> u64 \<Rightarrow> LostSpan \<times> 'a conn_recovery_scheme \<Rightarrow> LostSpan \<times> 'a conn_recovery_scheme" where
  "losePacket level now pn s =
     (case s of (sp, c) \<Rightarrow>
       (case smap_find (spc_sentPackets (c_spaces c level)) pn of
          None \<Rightarrow> (sp, c)
        | Some r \<Rightarrow>
            let (sp1, c1) =
              (if sr_ackEliciting r
               then (extendSpan (sr_sentTimeMs r) sp,
                     c\<lparr>c_congestion := cc_onPacketsLost (sr_sentBytes r) (sr_sentTimeMs r) now (c_congestion c)\<rparr>)
               else (sp, c))
            in (sp1, erasePacket level pn (requeueFrames level (sr_retransmittable r) c1))))"

definition persistentCongestion :: "(rat \<Rightarrow> rat) \<Rightarrow> SwQuicLossRecovery \<Rightarrow> u64 \<Rightarrow> LostSpan \<Rightarrow> bool" where
  "persistentCongestion rnd l maxAckDelay sp \<longleftrightarrow>
     m_firstSample l \<and> lostAckElicitingCount sp \<ge> 2 \<and>
     rnd (of_nat (unat (latestLostSent sp - earliestLostSent sp))) \<ge>
       rnd (computePtoMsExact rnd maxAckDelay l * kPersistentCongestionThreshold)"

definition refreshInFlightFlag :: "Level \<Rightarrow> 'a conn_streams_scheme \<Rightarrow> 'a conn_streams_scheme" where
  "refreshInFlightFlag level =
     onSpace level (\<lambda>s. s\<lparr>spc_hasAckElicitingInFlight := list_ex (\<lambda>e. sr_ackEliciting (snd e)) (spc_sentPackets s)\<rparr>)"

definition notePhaseAcked :: "Level \<Rightarrow> u64 list \<Rightarrow> 'a conn_recovery_scheme \<Rightarrow> 'a conn_recovery_scheme" where
  "notePhaseAcked level acked c =
     (if level = LevelApplication \<and> \<not> c_currentPhaseTxAcked c \<and> list_ex (\<lambda>pn. pn \<ge> c_currentPhaseFirstTxPn c) acked
      then c\<lparr>c_currentPhaseTxAcked := True\<rparr> else c)"

definition ackDelayOf :: "'a conn_recovery_scheme \<Rightarrow> SwQuicFrame \<Rightarrow> u64" where
  "ackDelayOf c f = push_bit (unat (c_peerAckDelayExponent c)) (ackDelay f) div 1000"

text \<open>What follows a successful \<open>onAckReceived\<close>.\<close>

definition applyAckResult ::
  "(rat \<Rightarrow> rat) \<Rightarrow> Level \<Rightarrow> u64 \<Rightarrow> AckResult \<Rightarrow> 'a conn_recovery_scheme \<Rightarrow> 'a conn_recovery_scheme" where
  "applyAckResult rnd level now res c =
     (let c1 = fold (acknowledgePacket level) (newlyAcked res) (notePhaseAcked level (newlyAcked res) c);
          (sp, c2) = fold (losePacket level now) (lost res) (noLostSpan, c1);
          c3 = (if persistentCongestion rnd (spc_loss (c_spaces c2 level)) (c_peerMaxAckDelayMs c2) sp
                then c2\<lparr>c_congestion := onPersistentCongestion (c_congestion c2)\<rparr> else c2)
      in refreshInFlightFlag level (retireAcknowledgedPeerStreams c3))"

definition processAckFrame ::
  "(rat \<Rightarrow> rat) \<Rightarrow> Level \<Rightarrow> SwQuicFrame \<Rightarrow> u64 \<Rightarrow> 'a conn_recovery_scheme call" where
  "processAckFrame rnd level f now c =
     (case rebuildAckRanges f of
        Inl e \<Rightarrow> (Some e, c)
      | Inr ranges \<Rightarrow>
          (case onAckReceived rnd (largestAcknowledged f) (ackDelayOf c f) ranges now (spc_loss (c_spaces c level)) of
             Inl e \<Rightarrow> (Some e, c)
           | Inr (res, loss) \<Rightarrow>
               (None, applyAckResult rnd level now res
                  (onSpace level (\<lambda>s. s\<lparr>spc_loss := loss, spc_probesPending := 0\<rparr>) (c\<lparr>c_ptoCount := 0\<rparr>)))))"

subsection \<open>Timers\<close>

text \<open>
  The probe resends the frames of the oldest packet that still has one worth resending, and
  is a PING when there is none.
\<close>

fun requeueOldest_loop :: "Level \<Rightarrow> (u64, SentRecord) smap \<Rightarrow> 'a conn_streams_scheme \<Rightarrow> 'a conn_streams_scheme" where
  "requeueOldest_loop level [] c = pushPending level ping c"
| "requeueOldest_loop level ((pn, r) # it) c =
     (if list_ex (shouldRetransmitFrame c) (sr_retransmittable r) then requeueFrames level (sr_retransmittable r) c
      else requeueOldest_loop level it c)"

definition requeueOldestUnacked :: "Level \<Rightarrow> 'a conn_streams_scheme \<Rightarrow> 'a conn_streams_scheme" where
  "requeueOldestUnacked level c = requeueOldest_loop level (spc_sentPackets (c_spaces c level)) c"

definition spacePtoDeadline :: "(rat \<Rightarrow> rat) \<Rightarrow> Level \<Rightarrow> 'a conn_recovery_scheme \<Rightarrow> u64 option" where
  "spacePtoDeadline rnd level c =
     (let s = c_spaces c level in
      if \<not> spc_hasAckElicitingInFlight s \<or> spc_sentPackets s = [] then None
      else
        let maxAckDelay = (if level = LevelApplication then c_peerMaxAckDelayMs c else 0);
            pto = 2 ^ min (c_ptoCount c) 16 * computePtoMs rnd maxAckDelay (spc_loss s)
        in Some (spc_lastAckElicitingSentMs s + pto))"

definition mergeDeadline :: "u64 \<Rightarrow> u64 option \<Rightarrow> u64 option" where
  "mergeDeadline candidate d =
     (case d of None \<Rightarrow> Some candidate | Some deadline \<Rightarrow> Some (if candidate < deadline then candidate else deadline))"

definition mergeOptional :: "u64 option \<Rightarrow> u64 option \<Rightarrow> u64 option" where
  "mergeOptional candidate d = (case candidate of None \<Rightarrow> d | Some t \<Rightarrow> mergeDeadline t d)"

definition allLevels :: "Level list" where
  "allLevels = [LevelInitial, LevelHandshake, LevelApplication]"

definition spaceDeadlines :: "(rat \<Rightarrow> rat) \<Rightarrow> 'a conn_recovery_scheme \<Rightarrow> Level \<Rightarrow> u64 option \<Rightarrow> u64 option" where
  "spaceDeadlines rnd c level d =
     (let s = c_spaces c level;
          d1 = (if spc_hasAckDeadline s then mergeDeadline (spc_ackDeadlineMs s) d else d)
      in mergeOptional (spacePtoDeadline rnd level c) d1)"

definition idleArmed :: "'a conn_recovery_scheme \<Rightarrow> bool" where
  "idleArmed c \<longleftrightarrow> c_effectiveIdleTimeoutMs c > 0 \<and> c_hasNetworkActivity c \<and> c_state c = Open"

definition nextDeadline :: "(rat \<Rightarrow> rat) \<Rightarrow> 'a conn_recovery_scheme \<Rightarrow> u64 option" where
  "nextDeadline rnd c =
     (let d = fold (spaceDeadlines rnd c) allLevels None;
          d1 = (if idleArmed c then mergeDeadline (c_lastNetworkActivityMs c + c_effectiveIdleTimeoutMs c) d else d)
      in if c_hasDrainDeadline c then mergeDeadline (c_drainDeadlineMs c) d1 else d1)"

definition nextTimeoutMs :: "(rat \<Rightarrow> rat) \<Rightarrow> u64 \<Rightarrow> 'a conn_recovery_scheme \<Rightarrow> int" where
  "nextTimeoutMs rnd now c =
     (case nextDeadline rnd c of
        None \<Rightarrow> - 1
      | Some deadline \<Rightarrow> if deadline \<le> now then 0 else sint (deadline - now))"

definition probeLevel :: "(rat \<Rightarrow> rat) \<Rightarrow> u64 \<Rightarrow> Level \<Rightarrow> 'a conn_recovery_scheme \<Rightarrow> 'a conn_recovery_scheme" where
  "probeLevel rnd now level c =
     (case spacePtoDeadline rnd level c of
        None \<Rightarrow> c
      | Some deadline \<Rightarrow>
          if now \<ge> deadline then
            let c1 = requeueOldestUnacked level c;
                c2 = (if spc_probesPending (c_spaces c1 level) < 2
                      then onSpace level (\<lambda>s. s\<lparr>spc_probesPending := spc_probesPending s + 1\<rparr>) c1 else c1)
            in c2\<lparr>c_ptoCount := c_ptoCount c2 + 1\<rparr>
          else c)"

definition onTimeout :: "(rat \<Rightarrow> rat) \<Rightarrow> u64 \<Rightarrow> 'a conn_recovery_scheme \<Rightarrow> 'a conn_recovery_scheme" where
  "onTimeout rnd now c =
     (if c_hasDrainDeadline c \<and> now \<ge> c_drainDeadlineMs c then c\<lparr>c_state := Closed, c_hasDrainDeadline := False\<rparr>
      else if idleArmed c \<and> now \<ge> c_lastNetworkActivityMs c + c_effectiveIdleTimeoutMs c then c\<lparr>c_state := Closed\<rparr>
      else fold (probeLevel rnd now) allLevels c)"

definition armDrainTimer :: "(rat \<Rightarrow> rat) \<Rightarrow> u64 \<Rightarrow> 'a conn_recovery_scheme \<Rightarrow> 'a conn_recovery_scheme" where
  "armDrainTimer rnd now c =
     (let pto = computePtoMs rnd (c_peerMaxAckDelayMs c) (spc_loss (c_spaces c LevelApplication))
      in c\<lparr>c_drainDeadlineMs := now + 3 * pto, c_hasDrainDeadline := True\<rparr>)"

definition close_connection :: "u64 \<Rightarrow> bytes \<Rightarrow> bool \<Rightarrow> 'a conn_recovery_scheme \<Rightarrow> 'a conn_recovery_scheme" where
  "close_connection code reason isApplication c =
     (if c_state c \<noteq> Open then c
      else c\<lparr>c_state := Closing, c_closeQueued := True, c_closeErrorCode := code, c_closeReason := reason,
             c_closeIsApplication := isApplication\<rparr>)"

subsection \<open>Handshake and limits of the peer\<close>

definition connSetHandshakeConfirmed :: "bool \<Rightarrow> 'a conn_recovery_scheme \<Rightarrow> 'a conn_recovery_scheme" where
  "connSetHandshakeConfirmed b c =
     c\<lparr>c_handshakeConfirmed := b,
       c_spaces := (\<lambda>l. (c_spaces c l)\<lparr>spc_loss := setHandshakeConfirmed b (spc_loss (c_spaces c l))\<rparr>)\<rparr>"

definition combineIdleTimeouts :: "u64 \<Rightarrow> u64 \<Rightarrow> u64" where
  "combineIdleTimeouts l p = (if l = 0 then p else if p = 0 then l else if l < p then l else p)"

definition applyPeerTransportParameters :: "SwQuicTransportParameters \<Rightarrow> 'a conn_recovery_scheme \<Rightarrow> 'a conn_recovery_scheme" where
  "applyPeerTransportParameters p c =
     c\<lparr>c_peerParams := p, c_hasPeerParams := True, c_peerAckDelayExponent := ackDelayExponent p,
       c_peerMaxAckDelayMs := maxAckDelayMs p,
       c_connectionFlow := connection_setPeerMaxData (initialMaxData p) (c_connectionFlow c),
       c_peerMaxStreamsBidi := initialMaxStreamsBidi p, c_peerMaxStreamsUni := initialMaxStreamsUni p,
       c_effectiveIdleTimeoutMs := combineIdleTimeouts (maxIdleTimeoutMs (c_localParams c)) (maxIdleTimeoutMs p)\<rparr>"

definition processMaxData :: "SwQuicFrame \<Rightarrow> 'a conn_streams_scheme \<Rightarrow> 'a conn_streams_scheme" where
  "processMaxData f c =
     (if maximum f > cfc_peerMaxData (c_connectionFlow c)
      then c\<lparr>c_connectionFlow := connection_setPeerMaxData (maximum f) (c_connectionFlow c)\<rparr> else c)"

definition processMaxStreamData :: "SwQuicFrame \<Rightarrow> 'a conn_streams_scheme call" where
  "processMaxStreamData f c =
     (if isRetiredPeerBidirectional c (streamId f) then (None, c)
      else (case validatePeerSendControlStream c (streamId f) of
              Some e \<Rightarrow> (Some e, c)
            | None \<Rightarrow>
                let limit = (case smap_find (c_peerStreamMaxData c) (streamId f) of None \<Rightarrow> 0 | Some l \<Rightarrow> l)
                in (None, c\<lparr>c_peerStreamMaxData := smap_insert (streamId f)
                       (if maximum f > limit then maximum f else limit) (c_peerStreamMaxData c)\<rparr>)))"

definition processMaxStreams :: "SwQuicFrame \<Rightarrow> 'a conn_streams_scheme \<Rightarrow> 'a conn_streams_scheme" where
  "processMaxStreams f c =
     (if isBidirectional f then
        (if maximum f > c_peerMaxStreamsBidi c then c\<lparr>c_peerMaxStreamsBidi := maximum f\<rparr> else c)
      else if maximum f > c_peerMaxStreamsUni c then c\<lparr>c_peerMaxStreamsUni := maximum f\<rparr>
      else c)"

definition processStopSending :: "SwQuicFrame \<Rightarrow> 'a conn_streams_scheme call" where
  "processStopSending f c =
     (if isRetiredPeerBidirectional c (streamId f) then (None, c)
      else (case validatePeerSendControlStream c (streamId f) of
              Some e \<Rightarrow> (Some e, c)
            | None \<Rightarrow>
                (case conn_resetStream (streamId f) (errorCode f) c of
                   (Some e, c1) \<Rightarrow> (Some e, c1)
                 | (None, c1) \<Rightarrow> (None, markStreamTouched (streamId f) c1))))"

end
