(* ===== verification/Quic_Protector.thy ===== *)
theory Quic_Protector
  imports Quic_Packet
begin

text \<open>
  Packet protection: \<open>SwQuicPacketProtector\<close> (\<open>src/core/io/quic/SwQuicPacketProtector.h\<close>), the
  authenticated encryption of a packet with its header as associated data, the mask that hides
  the packet number, and their removal. AES-128 itself is a library of the platform (OpenSSL or
  CNG): the record \<open>aes_library\<close> of its two calls is an argument of every function here, and
  \<open>aes_ok\<close> states what is documented of them.

  The theory shows that removing the protection inverts adding it for 1-RTT, Initial and
  Handshake packets, and that two packet numbers never give the same nonce.
\<close>

unbundle bit_operations_syntax

subsection \<open>The library\<close>

record SwQuicInitialKeys =
  ik_secret :: bytes
  ik_key :: bytes
  ik_iv :: bytes
  ik_headerProtectionKey :: bytes

definition noKeys :: SwQuicInitialKeys where
  "noKeys = \<lparr>ik_secret = [], ik_key = [], ik_iv = [], ik_headerProtectionKey = []\<rparr>"

text \<open>
  \<open>gcmEncrypt key nonce aad plaintext\<close> is the ciphertext and its tag, \<open>gcmDecrypt key nonce aad
  ciphertext tag\<close> the plaintext, \<open>ecbEncrypt key block\<close> one encrypted block.
\<close>

record aes_library =
  gcmEncrypt :: "bytes \<Rightarrow> bytes \<Rightarrow> bytes \<Rightarrow> bytes \<Rightarrow> string + bytes \<times> bytes"
  gcmDecrypt :: "bytes \<Rightarrow> bytes \<Rightarrow> bytes \<Rightarrow> bytes \<Rightarrow> bytes \<Rightarrow> string + bytes"
  ecbEncrypt :: "bytes \<Rightarrow> bytes \<Rightarrow> string + bytes"

definition kTagLength :: nat where "kTagLength = 16"

definition aes_ok :: "aes_library \<Rightarrow> bool" where
  "aes_ok C \<longleftrightarrow>
     (\<forall>key nonce aad p ct tag. gcmEncrypt C key nonce aad p = Inr (ct, tag) \<longrightarrow>
        length ct = length p \<and> length tag = kTagLength \<and> gcmDecrypt C key nonce aad ct tag = Inr p) \<and>
     (\<forall>key block m. ecbEncrypt C key block = Inr m \<longrightarrow> length m = 16)"

definition aes128GcmEncrypt :: "aes_library \<Rightarrow> bytes \<Rightarrow> bytes \<Rightarrow> bytes \<Rightarrow> bytes \<Rightarrow> string + bytes" where
  "aes128GcmEncrypt C key nonce aad p =
     (case gcmEncrypt C key nonce aad p of Inl e \<Rightarrow> Inl e | Inr (ct, tag) \<Rightarrow> Inr (ct @ tag))"

definition aes128GcmDecrypt :: "aes_library \<Rightarrow> bytes \<Rightarrow> bytes \<Rightarrow> bytes \<Rightarrow> bytes \<Rightarrow> string + bytes" where
  "aes128GcmDecrypt C key nonce aad c =
     (if length c < kTagLength then Inl ''AES-GCM ciphertext is shorter than its tag''
      else let ciphertextSize = length c - kTagLength
           in gcmDecrypt C key nonce aad (take ciphertextSize c) (drop ciphertextSize c))"

subsection \<open>Helpers\<close>

definition validateInitialKeys :: "SwQuicInitialKeys \<Rightarrow> string option" where
  "validateInitialKeys keys =
     (if length (ik_key keys) \<noteq> 16 \<or> length (ik_iv keys) \<noteq> 12 \<or> length (ik_headerProtectionKey keys) \<noteq> 16
      then Some ''Invalid QUIC Initial key material'' else None)"

definition nonceForPacketNumber :: "bytes \<Rightarrow> u64 \<Rightarrow> bytes" where
  "nonceForPacketNumber iv pn =
     fold (\<lambda>i nonce. nonce[length nonce - 1 - i := nonce ! (length nonce - 1 - i) XOR ucast (drop_bit (i * 8) pn AND 0xff)])
       [0..<min (length iv) 8] iv"

text \<open>The mask acts on some low bits of the first byte and on the bytes of the packet number.\<close>

definition maskHeader :: "nat \<Rightarrow> nat \<Rightarrow> u8 \<Rightarrow> bytes \<Rightarrow> bytes \<Rightarrow> bytes" where
  "maskHeader off n bits hpMask p =
     fold (\<lambda>i q. q[off + i := q ! (off + i) XOR hpMask ! (1 + i)]) [0..<n] (p[0 := p ! 0 XOR (hpMask ! 0 AND bits)])"

definition pnValue :: "bytes \<Rightarrow> nat \<Rightarrow> nat \<Rightarrow> u64" where
  "pnValue p off n = foldl (\<lambda>acc i. push_bit 8 acc OR ucast (p ! (off + i))) 0 [0..<n]"

definition fullPacketNumber :: "u64 option \<Rightarrow> u64 \<Rightarrow> u8 \<Rightarrow> u64" where
  "fullPacketNumber largest pn n = (case largest of None \<Rightarrow> pn | Some l \<Rightarrow> expandPacketNumber l True pn n)"

definition pp_readByte :: "u8 reader" where
  "pp_readByte buf off =
     (if off \<ge> length buf then (Inl ''QUIC protected packet is truncated'', off) else (Inr (buf ! off), off + 1))"

definition pp_readU32 :: "u32 reader" where
  "pp_readU32 buf off =
     (if size_sub (length buf) off < 4 then (Inl ''QUIC protected packet version is truncated'', off)
      else (Inr (push_bit 24 (ucast (buf ! off)) OR push_bit 16 (ucast (buf ! (off + 1))) OR
                 push_bit 8 (ucast (buf ! (off + 2))) OR ucast (buf ! (off + 3))), off + 4))"

definition pp_readSlice :: "nat \<Rightarrow> bytes reader" where
  "pp_readSlice len buf off =
     (if size_sub (length buf) off < len then (Inl ''QUIC protected packet field is truncated'', off)
      else (Inr (mid buf (to_int off) (to_int len)), off + len))"

subsection \<open>Long headers\<close>

definition protectLongHeader ::
  "aes_library \<Rightarrow> SwQuicInitialKeys \<Rightarrow> u64 \<Rightarrow> u8 \<Rightarrow> bytes \<Rightarrow> bytes \<Rightarrow> string + bytes" where
  "protectLongHeader C keys pn n header payload =
     (if n < 1 \<or> n > 4 then Inl ''Invalid QUIC packet number length for protection''
      else (case validateInitialKeys keys of
              Some e \<Rightarrow> Inl e
            | None \<Rightarrow>
                if length header < unat n then Inl ''QUIC header is too short for packet number''
                else (case aes128GcmEncrypt C (ik_key keys) (nonceForPacketNumber (ik_iv keys) pn) header payload of
                        Inl e \<Rightarrow> Inl e
                      | Inr ct \<Rightarrow>
                          let packet = header @ ct;
                              packetNumberOffset = length header - unat n;
                              sampleOffset = packetNumberOffset + 4
                          in if length packet < sampleOffset + 16
                             then Inl ''QUIC packet is too short for header protection sample''
                             else (case ecbEncrypt C (ik_headerProtectionKey keys) (mid packet (to_int sampleOffset) 16) of
                                     Inl e \<Rightarrow> Inl e
                                   | Inr hpMask \<Rightarrow> Inr (maskHeader packetNumberOffset (unat n) 0x0f hpMask packet)))))"

text \<open>
  Behind the length field the two functions that remove the protection are the same up to the
  wording of an error: \<open>what\<close> is \<open>''QUIC protected''\<close> or \<open>''QUIC Handshake''\<close>.
\<close>

definition unprotectPayload ::
  "aes_library \<Rightarrow> SwQuicInitialKeys \<Rightarrow> u64 option \<Rightarrow> string \<Rightarrow> bytes \<Rightarrow> nat \<Rightarrow> u64 \<Rightarrow> u8 \<Rightarrow> string + u8 \<times> u64 \<times> bytes" where
  "unprotectPayload C keys largest what packet packetNumberOffset encodedPayloadLength protectedFirstByte =
     (let sampleOffset = packetNumberOffset + 4 in
      if length packet < sampleOffset + 16 then Inl (what @ '' packet is too short for header protection sample'')
      else (case ecbEncrypt C (ik_headerProtectionKey keys) (mid packet (to_int sampleOffset) 16) of
              Inl e \<Rightarrow> Inl e
            | Inr hpMask \<Rightarrow>
                let firstByte = protectedFirstByte XOR (hpMask ! 0 AND 0x0f);
                    n = (firstByte AND 0x03) + 1
                in if encodedPayloadLength < ucast n + word_of_nat kTagLength
                   then Inl (what @ '' payload is shorter than packet number and tag'')
                   else if encodedPayloadLength > word_of_nat (size_sub (length packet) packetNumberOffset)
                   then Inl (what @ '' payload is truncated'')
                   else
                     let packetNumberEnd = packetNumberOffset + unat n;
                         aad = maskHeader packetNumberOffset (unat n) 0x0f hpMask (mid packet 0 (to_int packetNumberEnd));
                         pn = fullPacketNumber largest (pnValue aad packetNumberOffset (unat n)) n;
                         ct = mid packet (to_int packetNumberEnd) (to_int (unat (encodedPayloadLength - ucast n)))
                     in (case aes128GcmDecrypt C (ik_key keys) (nonceForPacketNumber (ik_iv keys) pn) aad ct of
                           Inl e \<Rightarrow> Inl e
                         | Inr plaintext \<Rightarrow> Inr (n, pn, plaintext))))"

definition readIds :: "(u32 \<times> SwQuicConnectionId \<times> SwQuicConnectionId) reader" where
  "readIds =
     bindR pp_readU32 (\<lambda>version.
     bindR pp_readByte (\<lambda>dcidLength.
     bindR (pp_readSlice (unat dcidLength)) (\<lambda>dcidBytes.
     bindR pp_readByte (\<lambda>scidLength.
     bindR (pp_readSlice (unat scidLength)) (\<lambda>scidBytes.
     bindR (liftSum (cid_fromBytes dcidBytes)) (\<lambda>dcid.
     bindR (liftSum (cid_fromBytes scidBytes)) (\<lambda>scid.
       returnR (version, dcid, scid))))))))"

definition unprotectRest ::
  "aes_library \<Rightarrow> SwQuicInitialKeys \<Rightarrow> u64 option \<Rightarrow> string \<Rightarrow> u8 \<Rightarrow> SwQuicPacketHeader \<Rightarrow> (SwQuicPacketHeader \<times> bytes \<times> nat) reader" where
  "unprotectRest C keys largest what protectedFirstByte base =
     bindR VarInt_decode (\<lambda>encodedPayloadLength packet off.
       (case unprotectPayload C keys largest what packet off encodedPayloadLength protectedFirstByte of
          Inl e \<Rightarrow> (Inl e, off)
        | Inr (n, pn, plaintext) \<Rightarrow>
            (case setPacketNumberLength n (base\<lparr>m_payloadLength := word_of_nat (length plaintext)\<rparr>) of
               Inl e \<Rightarrow> (Inl e, off)
             | Inr h \<Rightarrow> (Inr (setDecodedPacketNumber pn h, plaintext, off + unat encodedPayloadLength), off))))"

definition unprotectInitial ::
  "aes_library \<Rightarrow> SwQuicInitialKeys \<Rightarrow> bytes \<Rightarrow> u64 option \<Rightarrow> string + SwQuicPacketHeader \<times> bytes \<times> nat" where
  "unprotectInitial C keys packet largest =
     (case validateInitialKeys keys of
        Some e \<Rightarrow> Inl e
      | None \<Rightarrow>
          fst (bindR pp_readByte (\<lambda>protectedFirstByte.
            if protectedFirstByte AND 0x80 = 0 then failR ''QUIC packet is not a long header packet''
            else if protectedFirstByte AND 0x40 = 0 then failR ''QUIC fixed bit is not set''
            else if protectedFirstByte AND 0x30 \<noteq> 0 then failR ''QUIC protected packet is not an Initial packet''
            else
              bindR readIds (\<lambda>(version, dcid, scid).
              bindR VarInt_decode (\<lambda>tokenLength.
              bindR pkt_remaining (\<lambda>remaining.
                if tokenLength > word_of_nat remaining then failR ''QUIC Initial token is truncated''
                else
                  bindR (pp_readSlice (unat tokenLength)) (\<lambda>token.
                    unprotectRest C keys largest ''QUIC protected'' protectedFirstByte
                      ((makeInitial dcid scid)\<lparr>m_version := version, m_token := token\<rparr>)))))) packet 0))"

definition unprotectLongHeaderNoToken ::
  "aes_library \<Rightarrow> SwQuicInitialKeys \<Rightarrow> bytes \<Rightarrow> u8 \<Rightarrow> LongPacketType \<Rightarrow> u64 option \<Rightarrow> string + SwQuicPacketHeader \<times> bytes \<times> nat" where
  "unprotectLongHeaderNoToken C keys packet expectedTypeBits resultType largest =
     (case validateInitialKeys keys of
        Some e \<Rightarrow> Inl e
      | None \<Rightarrow>
          fst (bindR pp_readByte (\<lambda>protectedFirstByte.
            if protectedFirstByte AND 0x80 = 0 then failR ''QUIC packet is not a long header packet''
            else if protectedFirstByte AND 0x40 = 0 then failR ''QUIC fixed bit is not set''
            else if protectedFirstByte AND 0x30 \<noteq> expectedTypeBits
            then failR ''QUIC protected packet has an unexpected long-header type''
            else
              bindR readIds (\<lambda>(version, dcid, scid).
                unprotectRest C keys largest ''QUIC Handshake'' protectedFirstByte
                  (newHeader\<lparr>m_form := LongForm, m_longPacketType := resultType, m_version := version,
                     m_destinationConnectionId := dcid, m_sourceConnectionId := scid\<rparr>))) packet 0))"

definition unprotectHandshake ::
  "aes_library \<Rightarrow> SwQuicInitialKeys \<Rightarrow> bytes \<Rightarrow> u64 option \<Rightarrow> string + SwQuicPacketHeader \<times> bytes \<times> nat" where
  "unprotectHandshake C keys packet = unprotectLongHeaderNoToken C keys packet 0x20 Handshake"

definition unprotectZeroRtt ::
  "aes_library \<Rightarrow> SwQuicInitialKeys \<Rightarrow> bytes \<Rightarrow> u64 option \<Rightarrow> string + SwQuicPacketHeader \<times> bytes \<times> nat" where
  "unprotectZeroRtt C keys packet = unprotectLongHeaderNoToken C keys packet 0x10 ZeroRtt"

subsection \<open>Short headers\<close>

definition shortFirstByte :: "u8 \<Rightarrow> bool \<Rightarrow> bool \<Rightarrow> u8" where
  "shortFirstByte n spinBit keyPhase =
     (0x40 OR (n - 1)) OR (if spinBit then 0x20 else 0) OR (if keyPhase then 0x04 else 0)"

definition protectShortHeader1Rtt ::
  "aes_library \<Rightarrow> SwQuicInitialKeys \<Rightarrow> SwQuicConnectionId \<Rightarrow> u64 \<Rightarrow> u8 \<Rightarrow> bool \<Rightarrow> bool \<Rightarrow> bytes \<Rightarrow> string + bytes" where
  "protectShortHeader1Rtt C keys dcid pn n spinBit keyPhase plaintext =
     (if n < 1 \<or> n > 4 then Inl ''Invalid QUIC packet number length for protection''
      else if pn > push_bit 62 1 - 1 then Inl ''QUIC packet number exceeds the 62-bit limit''
      else (case validateInitialKeys keys of
              Some e \<Rightarrow> Inl e
            | None \<Rightarrow>
                let packetNumberOffset = 1 + length dcid;
                    headerSize = packetNumberOffset + unat n;
                    sampleOffset = packetNumberOffset + 4
                in if length plaintext > size_sub (size_sub int_max headerSize) kTagLength
                   then Inl ''QUIC protected packet is too large''
                   else if headerSize + length plaintext + kTagLength < sampleOffset + 16
                   then Inl ''QUIC packet is too short for header protection sample''
                   else
                     let header = [shortFirstByte n spinBit keyPhase] @ dcid @ be_bytes (unat n) pn
                     in (case gcmEncrypt C (ik_key keys) (nonceForPacketNumber (ik_iv keys) pn) header plaintext of
                           Inl e \<Rightarrow> Inl e
                         | Inr (ct, tag) \<Rightarrow>
                             let packet = header @ ct @ tag
                             in (case ecbEncrypt C (ik_headerProtectionKey keys) (take 16 (drop sampleOffset packet)) of
                                   Inl e \<Rightarrow> Inl e
                                 | Inr hpMask \<Rightarrow> Inr (maskHeader packetNumberOffset (unat n) 0x1f hpMask packet)))))"

definition unprotectShortHeader1Rtt ::
  "aes_library \<Rightarrow> SwQuicInitialKeys \<Rightarrow> bytes \<Rightarrow> nat \<Rightarrow> u64 option \<Rightarrow> string + u64 \<times> bool \<times> bytes" where
  "unprotectShortHeader1Rtt C keys packet dcidLength largest =
     (case validateInitialKeys keys of
        Some e \<Rightarrow> Inl e
      | None \<Rightarrow>
          if dcidLength > kMaxLength then Inl ''QUIC short header connection ID length is invalid''
          else if packet = [] then Inl ''QUIC short header packet is empty''
          else if packet ! 0 AND 0x80 \<noteq> 0 then Inl ''QUIC packet is not a short header packet''
          else if packet ! 0 AND 0x40 = 0 then Inl ''QUIC fixed bit is not set''
          else
            let packetNumberOffset = 1 + dcidLength; sampleOffset = packetNumberOffset + 4 in
            if length packet < sampleOffset + 16
            then Inl ''QUIC short header packet is too short for header protection sample''
            else (case ecbEncrypt C (ik_headerProtectionKey keys) (take 16 (drop sampleOffset packet)) of
                    Inl e \<Rightarrow> Inl e
                  | Inr hpMask \<Rightarrow>
                      let firstByte = packet ! 0 XOR (hpMask ! 0 AND 0x1f);
                          n = (firstByte AND 0x03) + 1;
                          packetNumberEnd = packetNumberOffset + unat n
                      in if length packet < packetNumberEnd + kTagLength
                         then Inl ''QUIC short header payload is shorter than packet number and tag''
                         else
                           let aad = maskHeader packetNumberOffset (unat n) 0x1f hpMask (take packetNumberEnd packet);
                               pn = fullPacketNumber largest (pnValue aad packetNumberOffset (unat n)) n;
                               ciphertextSize = length packet - packetNumberEnd - kTagLength
                           in (case gcmDecrypt C (ik_key keys) (nonceForPacketNumber (ik_iv keys) pn) aad
                                      (take ciphertextSize (drop packetNumberEnd packet))
                                      (drop (packetNumberEnd + ciphertextSize) packet) of
                                 Inl e \<Rightarrow> Inl e
                               | Inr plaintext \<Rightarrow>
                                   if firstByte AND 0x18 \<noteq> 0 then Inl ''QUIC short header reserved bits are non-zero''
                                   else Inr (pn, firstByte AND 0x04 \<noteq> 0, plaintext))))"

subsection \<open>Bytes changed in place\<close>

lemma length_fold_update: "length (fold (\<lambda>i q. q[f i := h i q]) js p) = length p"
  by (induction js arbitrary: p) auto

lemma fold_xor_miss:
  "\<forall>i\<in>set js. f i \<noteq> j \<Longrightarrow> fold (\<lambda>i q. q[f i := q ! f i XOR g i]) js p ! j = p ! j" for p :: bytes
  by (induction js arbitrary: p) auto

lemma fold_xor_hit:
  fixes p :: bytes
  assumes "inj_on f (set js)" and "distinct js" and "i \<in> set js" and "f i < length p"
  shows "fold (\<lambda>i q. q[f i := q ! f i XOR g i]) js p ! f i = p ! f i XOR g i"
  using assms
proof (induction js arbitrary: p)
  case (Cons k ks)
  show ?case
  proof (cases "i = k")
    case True
    then have "\<forall>l\<in>set ks. f l \<noteq> f k" using Cons.prems by (auto simp: inj_on_def)
    then show ?thesis using Cons.prems True by (simp add: fold_xor_miss)
  next
    case False
    then have "i \<in> set ks" "f k \<noteq> f i" using Cons.prems by (auto simp: inj_on_def)
    moreover have "inj_on f (set ks)" using Cons.prems(1) by (auto simp: inj_on_def)
    ultimately show ?thesis using Cons by simp
  qed
qed simp

lemma length_maskHeader [simp]: "length (maskHeader off n bits m p) = length p"
  by (simp add: maskHeader_def length_fold_update [where f = "\<lambda>i. off + i"])

lemma maskHeader_nth:
  assumes "0 < off" and "off + n \<le> length p" and "j < length p"
  shows "maskHeader off n bits m p ! j =
    (if j = 0 then p ! 0 XOR (m ! 0 AND bits)
     else if off \<le> j \<and> j < off + n then p ! j XOR m ! (1 + (j - off)) else p ! j)"
proof (cases "off \<le> j \<and> j < off + n")
  case True
  then have "fold (\<lambda>i q. q[off + i := q ! (off + i) XOR m ! (1 + i)]) [0..<n] (p[0 := p ! 0 XOR (m ! 0 AND bits)]) ! (off + (j - off)) =
      p[0 := p ! 0 XOR (m ! 0 AND bits)] ! (off + (j - off)) XOR m ! (1 + (j - off))"
    using assms by (intro fold_xor_hit) (auto simp: inj_on_def)
  then show ?thesis using True assms by (simp add: maskHeader_def)
next
  case False
  then have "fold (\<lambda>i q. q[off + i := q ! (off + i) XOR m ! (1 + i)]) [0..<n] (p[0 := p ! 0 XOR (m ! 0 AND bits)]) ! j =
      p[0 := p ! 0 XOR (m ! 0 AND bits)] ! j"
    using assms by (intro fold_xor_miss) auto
  then show ?thesis using False assms by (auto simp: maskHeader_def nth_list_update)
qed

lemma maskHeader_append:
  assumes "0 < off" and "off + n \<le> length h"
  shows "maskHeader off n bits m (h @ x) = maskHeader off n bits m h @ x"
proof (rule nth_equalityI)
  fix j assume "j < length (maskHeader off n bits m (h @ x))"
  then show "maskHeader off n bits m (h @ x) ! j = (maskHeader off n bits m h @ x) ! j"
    using assms by (cases "j < length h") (auto simp: maskHeader_nth nth_append)
qed simp

lemma maskHeader_twice:
  assumes "0 < off" and "off + n \<le> length p"
  shows "maskHeader off n bits m (maskHeader off n bits m p) = p"
proof (rule nth_equalityI)
  fix j assume "j < length (maskHeader off n bits m (maskHeader off n bits m p))"
  then show "maskHeader off n bits m (maskHeader off n bits m p) ! j = p ! j"
    using assms by (cases "j = 0") (simp_all add: maskHeader_nth xor.assoc)
qed simp

lemma pnValue_be_bytes:
  assumes "n \<le> 8"
  shows "pnValue (pre @ be_bytes n pn) (length pre) n = take_bit (8 * n) pn"
  using decode_loop_eq [of pre "be_bytes n pn" "[]" 0] be_value_be_bytes [of 0 n pn] assms
  by (simp add: pnValue_def)

subsection \<open>Nonces\<close>

lemma nonce_fold:
  "fold (\<lambda>i q. q[length q - 1 - i := q ! (length q - 1 - i) XOR g i]) js iv =
   fold (\<lambda>i q. q[length iv - 1 - i := q ! (length iv - 1 - i) XOR g i]) js iv" for iv :: bytes
proof -
  have "fold (\<lambda>i q. q[length q - 1 - i := q ! (length q - 1 - i) XOR g i]) js q =
      fold (\<lambda>i q. q[length iv - 1 - i := q ! (length iv - 1 - i) XOR g i]) js q" if "length q = length iv" for q
    using that by (induction js arbitrary: q) auto
  then show ?thesis by simp
qed

lemma nonce_nth:
  assumes "i < 8" and "8 \<le> length iv"
  shows "nonceForPacketNumber iv pn ! (length iv - 1 - i) = iv ! (length iv - 1 - i) XOR ucast (drop_bit (i * 8) pn AND 0xff)"
  unfolding nonceForPacketNumber_def nonce_fold using assms
  by (intro fold_xor_hit) (auto simp: inj_on_def)

lemma byte_of_word: "n div 8 < 8 \<Longrightarrow> bit (ucast (drop_bit (n div 8 * 8) (pn :: u64) AND 0xff) :: u8) (n mod 8) = bit pn n"
proof -
  have ff: "(0xff :: u64) = mask 8" by (simp add: mask_eq_exp_minus_1)
  assume "n div 8 < 8"
  moreover have "n div 8 * 8 + n mod 8 = n" "n mod 8 < 64" by (simp, rule less_trans [of _ 8], simp_all)
  ultimately show ?thesis unfolding ff by (simp add: bit_simps)
qed

lemma xor_left_cancel: "a XOR x = a XOR y \<Longrightarrow> x = y" for a x y :: u8
proof -
  assume "a XOR x = a XOR y"
  then have "(a XOR a) XOR x = (a XOR a) XOR y" unfolding xor.assoc by simp
  then show "x = y" by simp
qed

lemma nonce_inj:
  assumes "8 \<le> length iv" and "nonceForPacketNumber iv pn = nonceForPacketNumber iv pn'"
  shows "pn = pn'"
proof (rule bit_word_eqI)
  fix n assume n: "n < LENGTH(64)"
  then have n8: "n div 8 < 8" by simp
  have "nonceForPacketNumber iv pn ! (length iv - 1 - n div 8) = nonceForPacketNumber iv pn' ! (length iv - 1 - n div 8)"
    by (simp only: assms(2))
  then have "(ucast (drop_bit (n div 8 * 8) pn AND 0xff) :: u8) = ucast (drop_bit (n div 8 * 8) pn' AND 0xff)"
    unfolding nonce_nth [OF n8 assms(1)] by (rule xor_left_cancel)
  then show "bit pn n \<longleftrightarrow> bit pn' n" using byte_of_word [OF n8, of pn] byte_of_word [OF n8, of pn'] by simp
qed

subsection \<open>1-RTT packets\<close>

lemma xor_and_clear: "b AND c = 0 \<Longrightarrow> (a XOR (m AND b)) AND c = a AND c" for a b c m :: u8
  by (simp add: bit.conj_xor_distrib2 and.assoc)

lemma shortFirstByte_bits:
  assumes "1 \<le> n" and "n \<le> 4"
  shows "(shortFirstByte n s k AND 0x03) + 1 = n" and "shortFirstByte n s k AND 0x80 = 0"
    and "shortFirstByte n s k AND 0x40 \<noteq> 0" and "shortFirstByte n s k AND 0x18 = 0"
    and "shortFirstByte n s k AND 0x04 \<noteq> 0 \<longleftrightarrow> k"
proof -
  have "unat n \<in> {1, 2, 3, 4}" using assms by (auto simp: word_le_nat_alt)
  then have "n = 1 \<or> n = 2 \<or> n = 3 \<or> n = 4" by (auto simp: word_unat_eq_iff)
  then show "(shortFirstByte n s k AND 0x03) + 1 = n" "shortFirstByte n s k AND 0x80 = 0"
    "shortFirstByte n s k AND 0x40 \<noteq> 0" "shortFirstByte n s k AND 0x18 = 0" "shortFirstByte n s k AND 0x04 \<noteq> 0 \<longleftrightarrow> k"
    by (auto simp: shortFirstByte_def)
qed

text \<open>
  The packet numbers a receiver can expand: the truncated number is the number, or the largest
  number received so far puts it in the window.
\<close>

definition pn_expands :: "u64 option \<Rightarrow> u64 \<Rightarrow> u8 \<Rightarrow> bool" where
  "pn_expands largest pn n \<longleftrightarrow>
     (case largest of
        None \<Rightarrow> unat pn < 2 ^ (8 * unat n)
      | Some l \<Rightarrow> unat l < 2 ^ 62 \<and> unat pn < 2 ^ 62 \<and> unat l + 1 < unat pn + 2 ^ (8 * unat n) div 2 \<and>
                  unat pn \<le> unat l + 1 + 2 ^ (8 * unat n) div 2)"

lemma fullPacketNumber_expands:
  assumes "1 \<le> n" and "n \<le> 4" and "pn_expands largest pn n"
  shows "fullPacketNumber largest (take_bit (8 * unat n) pn) n = pn"
proof (cases largest)
  case None
  then show ?thesis using assms(3) by (simp add: fullPacketNumber_def pn_expands_def take_bit_self)
next
  case (Some l)
  then show ?thesis using assms(3) expandPacketNumber_correct [OF assms(1,2), of l pn]
    by (simp add: fullPacketNumber_def pn_expands_def)
qed

lemma protectShort_cases:
  assumes "protectShortHeader1Rtt C keys dcid pn n s k p = Inr packet"
  obtains ct tag hpMask where "1 \<le> n" "n \<le> 4" "validateInitialKeys keys = None"
    "gcmEncrypt C (ik_key keys) (nonceForPacketNumber (ik_iv keys) pn)
       ([shortFirstByte n s k] @ dcid @ be_bytes (unat n) pn) p = Inr (ct, tag)"
    "ecbEncrypt C (ik_headerProtectionKey keys)
       (take 16 (drop (5 + length dcid) (([shortFirstByte n s k] @ dcid @ be_bytes (unat n) pn) @ ct @ tag))) = Inr hpMask"
    "packet = maskHeader (1 + length dcid) (unat n) 0x1f hpMask (([shortFirstByte n s k] @ dcid @ be_bytes (unat n) pn) @ ct @ tag)"
    "4 \<le> unat n + length p"
proof -
  let ?h = "[shortFirstByte n s k] @ dcid @ be_bytes (unat n) pn"
  have n: "\<not> (n < 1 \<or> n > 4)" and keys: "validateInitialKeys keys = None"
    using assms by (auto simp: protectShortHeader1Rtt_def split: if_splits option.splits)
  note run = assms [unfolded protectShortHeader1Rtt_def keys option.case if_not_P [OF n] Let_def]
  obtain ct tag where enc: "gcmEncrypt C (ik_key keys) (nonceForPacketNumber (ik_iv keys) pn) ?h p = Inr (ct, tag)"
    using run by (fastforce split: if_splits sum.splits)
  note run1 = run [unfolded enc sum.case prod.case]
  obtain hpMask where ecb: "ecbEncrypt C (ik_headerProtectionKey keys)
      (take 16 (drop (1 + length dcid + 4) (?h @ ct @ tag))) = Inr hpMask"
    using run1 by (fastforce split: if_splits sum.splits)
  note run2 = run1 [unfolded ecb sum.case]
  have five: "1 + length dcid + 4 = 5 + length dcid" by simp
  show thesis
  proof (rule that [OF _ _ keys enc])
    show "ecbEncrypt C (ik_headerProtectionKey keys) (take 16 (drop (5 + length dcid) (?h @ ct @ tag))) = Inr hpMask"
      using ecb unfolding five .
    show "packet = maskHeader (1 + length dcid) (unat n) 0x1f hpMask (?h @ ct @ tag)" "4 \<le> unat n + length p"
      using run2 by (auto split: if_splits simp: kTagLength_def)
  qed (use n in \<open>simp_all only: de_Morgan_disj not_less\<close>)
qed

lemma unprotect_protect_short:
  assumes C: "aes_ok C" and prot: "protectShortHeader1Rtt C keys dcid pn n s k p = Inr packet"
    and cid: "length dcid \<le> kMaxLength" and pn: "pn_expands largest pn n"
  shows "unprotectShortHeader1Rtt C keys packet (length dcid) largest = Inr (pn, k, p)"
proof -
  obtain ct tag hpMask where n: "1 \<le> n" "n \<le> 4" and keys: "validateInitialKeys keys = None"
    and enc: "gcmEncrypt C (ik_key keys) (nonceForPacketNumber (ik_iv keys) pn)
       ([shortFirstByte n s k] @ dcid @ be_bytes (unat n) pn) p = Inr (ct, tag)"
    and ecb: "ecbEncrypt C (ik_headerProtectionKey keys)
       (take 16 (drop (5 + length dcid) (([shortFirstByte n s k] @ dcid @ be_bytes (unat n) pn) @ ct @ tag))) = Inr hpMask"
    and packet: "packet = maskHeader (1 + length dcid) (unat n) 0x1f hpMask (([shortFirstByte n s k] @ dcid @ be_bytes (unat n) pn) @ ct @ tag)"
    and size: "4 \<le> unat n + length p"
    using prot by (rule protectShort_cases)
  define h where "h = [shortFirstByte n s k] @ dcid @ be_bytes (unat n) pn"
  define off where "off = 1 + length dcid"
  define m where "m = maskHeader off (unat n) 0x1f hpMask h"
  have h: "length h = off + unat n" "0 < off" by (simp_all add: h_def off_def)
  have p: "packet = m @ ct @ tag"
    unfolding packet off_def [symmetric] h_def [symmetric] m_def by (rule maskHeader_append) (simp_all add: h)
  have lens: "length ct = length p" "length tag = 16" and dec: "gcmDecrypt C (ik_key keys) (nonceForPacketNumber (ik_iv keys) pn) h ct tag = Inr p"
    using C enc unfolding aes_ok_def h_def kTagLength_def by blast+
  have lm: "length m = off + unat n" by (simp add: m_def h)
  have n4: "unat n \<le> 4" using n by (simp add: word_le_nat_alt)
  have sample: "drop (off + 4) packet = drop (5 + length dcid) (h @ ct @ tag)"
  proof -
    have "drop (off + 4) (m @ ct @ tag) = drop (off + 4 - length m) (ct @ tag)" using n4 by (simp add: lm)
    also have "\<dots> = drop (off + 4) (h @ ct @ tag)" using n4 by (simp add: lm h)
    finally show ?thesis by (simp add: p off_def)
  qed
  have first: "packet ! 0 = shortFirstByte n s k XOR (hpMask ! 0 AND 0x1f)"
    using maskHeader_nth [of off "unat n" h 0] h by (simp add: p m_def nth_append h_def)
  have bits: "packet ! 0 AND 0x80 = 0" "packet ! 0 AND 0x40 \<noteq> 0"
    unfolding first using shortFirstByte_bits [OF n] by (simp_all add: xor_and_clear)
  have fb: "packet ! 0 XOR (hpMask ! 0 AND 0x1f) = shortFirstByte n s k" by (simp add: first xor.assoc)
  have aad: "maskHeader off (unat n) 0x1f hpMask (take (off + unat n) packet) = h"
    using maskHeader_twice [of off "unat n" h] h by (simp add: p lm m_def)
  have "pnValue h off (unat n) = take_bit (8 * unat n) pn"
    using pnValue_be_bytes [of "unat n" "[shortFirstByte n s k] @ dcid" pn] n4 by (simp add: h_def off_def)
  then have num: "fullPacketNumber largest (pnValue h off (unat n)) n = pn"
    using fullPacketNumber_expands [OF n pn] by simp
  have len: "length packet = off + unat n + length p + 16" by (simp add: p lm lens)
  have parts: "take (length p) (drop (off + unat n) packet) = ct" "drop (off + unat n + length p) packet = tag"
    using lens by (simp_all add: p lm)
  have "packet \<noteq> []" using len by auto
  then show ?thesis
    unfolding unprotectShortHeader1Rtt_def keys option.case Let_def off_def [symmetric] fb shortFirstByte_bits(1) [OF n] sample
      ecb [folded h_def] sum.case aad num
    using cid bits size len n4 shortFirstByte_bits [OF n, of s k]
    by (simp add: off_def [symmetric] parts dec kTagLength_def)
qed

subsection \<open>Long-header packets\<close>

lemma protectLong_cases:
  assumes "protectLongHeader C keys pn n h p = Inr packet"
  obtains ct tag hpMask where "1 \<le> n" "n \<le> 4" "validateInitialKeys keys = None" "unat n \<le> length h"
    "gcmEncrypt C (ik_key keys) (nonceForPacketNumber (ik_iv keys) pn) h p = Inr (ct, tag)"
    "ecbEncrypt C (ik_headerProtectionKey keys) (mid (h @ ct @ tag) (to_int (length h - unat n + 4)) 16) = Inr hpMask"
    "packet = maskHeader (length h - unat n) (unat n) 0x0f hpMask (h @ ct @ tag)"
    "length h - unat n + 20 \<le> length (h @ ct @ tag)"
proof -
  have n: "\<not> (n < 1 \<or> n > 4)" and keys: "validateInitialKeys keys = None" and len: "\<not> length h < unat n"
    using assms by (auto simp: protectLongHeader_def split: if_splits option.splits)
  note run = assms [unfolded protectLongHeader_def aes128GcmEncrypt_def keys option.case if_not_P [OF n] if_not_P [OF len] Let_def]
  obtain ct tag where enc: "gcmEncrypt C (ik_key keys) (nonceForPacketNumber (ik_iv keys) pn) h p = Inr (ct, tag)"
    using run by (fastforce split: if_splits sum.splits)
  note run1 = run [unfolded enc sum.case prod.case]
  obtain hpMask where ecb: "ecbEncrypt C (ik_headerProtectionKey keys) (mid (h @ ct @ tag) (to_int (length h - unat n + 4)) 16) = Inr hpMask"
    using run1 by (fastforce split: if_splits sum.splits)
  have n': "1 \<le> n" "n \<le> 4" using n by (simp_all only: de_Morgan_disj not_less)
  show thesis
    by (rule that [OF n' keys _ enc ecb]) (use len run1 ecb in \<open>auto split: if_splits simp: not_less\<close>)
qed

lemma mid_nat: "mid b (to_int pos) 16 = take 16 (drop pos b)" if "pos + 16 \<le> length b" "length b < 2 ^ 31"
  using that mid_cast [of pos 16 b] by (simp add: to_int_small)

lemma mid_0: "mid b 0 (to_int len) = take len b" if "len \<le> length b" "length b < 2 ^ 31"
  using that mid_cast [of 0 len b] by (simp add: to_int_small)

lemma unprotectPayload_protect:
  fixes n :: u8
  assumes C: "aes_ok C" and prot: "protectLongHeader C keys pn n (pre @ be_bytes (unat n) pn) p = Inr packet"
    and pre: "pre \<noteq> []" "(pre ! 0 AND 0x03) + 1 = n" and pn: "pn_expands largest pn n"
    and small: "length (packet @ rest) < 2 ^ 31"
  shows "validateInitialKeys keys = None" and "length packet = length pre + (length p + unat n + 16)"
    and "\<exists>m. packet = maskHeader (length pre) (unat n) 0x0f m (pre @ be_bytes (unat n) pn) @ drop (length pre + unat n) packet"
    and "unprotectPayload C keys largest what (packet @ rest) (length pre) (word_of_nat (length p + unat n + 16)) (packet ! 0) = Inr (n, pn, p)"
proof -
  define h where "h = pre @ be_bytes (unat n) pn"
  define off where "off = length pre"
  obtain ct tag hpMask where n: "1 \<le> n" "n \<le> 4" and keys: "validateInitialKeys keys = None" and nh: "unat n \<le> length h"
    and enc: "gcmEncrypt C (ik_key keys) (nonceForPacketNumber (ik_iv keys) pn) h p = Inr (ct, tag)"
    and ecb: "ecbEncrypt C (ik_headerProtectionKey keys) (mid (h @ ct @ tag) (to_int (length h - unat n + 4)) 16) = Inr hpMask"
    and packet: "packet = maskHeader (length h - unat n) (unat n) 0x0f hpMask (h @ ct @ tag)"
    and sz: "length h - unat n + 20 \<le> length (h @ ct @ tag)"
    using prot unfolding h_def by (rule protectLong_cases)
  have h: "length h = off + unat n" "0 < off" "length h - unat n = off" using pre(1) by (simp_all add: h_def off_def)
  define m where "m = maskHeader off (unat n) 0x0f hpMask h"
  have p: "packet = m @ ct @ tag"
    unfolding packet h(3) m_def by (rule maskHeader_append) (simp_all add: h)
  have lens: "length ct = length p" "length tag = 16" and dec: "gcmDecrypt C (ik_key keys) (nonceForPacketNumber (ik_iv keys) pn) h ct tag = Inr p"
    using C enc unfolding aes_ok_def kTagLength_def by blast+
  have lm: "length m = off + unat n" by (simp add: m_def h)
  have n4: "unat n \<le> 4" using n by (simp add: word_le_nat_alt)
  have len: "length packet = off + unat n + length p + 16" by (simp add: p lm lens)
  show "validateInitialKeys keys = None" by (rule keys)
  show "length packet = length pre + (length p + unat n + 16)" using len by (simp add: off_def)
  have "packet = m @ drop (off + unat n) packet" by (simp add: p lm)
  then show "\<exists>m. packet = maskHeader (length pre) (unat n) 0x0f m (pre @ be_bytes (unat n) pn) @ drop (length pre + unat n) packet"
    unfolding m_def off_def h_def by blast
  have sm: "length packet < 2 ^ 31" "length (h @ ct @ tag) < 2 ^ 31" using small by (simp_all add: p lm h)
  have s16: "off + 20 \<le> length packet" using sz by (simp add: h p lm)
  have sample: "mid (packet @ rest) (to_int (off + 4)) 16 = mid (h @ ct @ tag) (to_int (length h - unat n + 4)) 16"
  proof -
    have "mid (packet @ rest) (to_int (off + 4)) 16 = take 16 (drop (off + 4) (packet @ rest))"
      using s16 small by (intro mid_nat) simp_all
    also have "\<dots> = take 16 (drop (off + 4 - length m) (ct @ tag))" using s16 n4 by (simp add: p lm)
    also have "\<dots> = take 16 (drop (off + 4) (h @ ct @ tag))" using n4 by (simp add: lm h)
    also have "\<dots> = mid (h @ ct @ tag) (to_int (off + 4)) 16" using s16 sm(2) by (intro mid_nat [symmetric]) (simp_all add: h p lm)
    finally show ?thesis unfolding h(3) .
  qed
  have first: "packet ! 0 = pre ! 0 XOR (hpMask ! 0 AND 0x0f)"
    using maskHeader_nth [of off "unat n" h 0] h pre(1) by (simp add: p m_def nth_append h_def)
  have fb: "packet ! 0 XOR (hpMask ! 0 AND 0x0f) = pre ! 0" by (simp add: first xor.assoc)
  have aad: "maskHeader off (unat n) 0x0f hpMask (mid (packet @ rest) 0 (to_int (off + unat n))) = h"
    using maskHeader_twice [of off "unat n" h] h small by (subst mid_0) (simp_all add: p lm m_def)
  have "pnValue h off (unat n) = take_bit (8 * unat n) pn"
    using pnValue_be_bytes [of "unat n" pre pn] n4 by (simp add: h_def off_def)
  then have num: "fullPacketNumber largest (pnValue h off (unat n)) n = pn"
    using fullPacketNumber_expands [OF n pn] by simp
  let ?L = "word_of_nat (length p + unat n + 16) :: u64"
  have L: "unat ?L = length p + unat n + 16"
    using sm(1) len by (simp add: unsigned_of_nat take_bit_nat_eq_self del: of_nat_add)
  have un: "unat (ucast n :: u64) = unat n" using n4 by (simp add: unsigned_ucast_eq take_bit_nat_eq_self)
  have Ln: "unat (?L - ucast n) = length p + 16" using L un by (subst unat_minus) (simp_all add: word_le_nat_alt)
  have short: "\<not> ?L < ucast n + word_of_nat kTagLength"
  proof -
    have "unat (ucast n + word_of_nat kTagLength :: u64) = unat n + 16"
      using n4 un by (subst unat_plus) (simp_all add: kTagLength_def)
    then show ?thesis unfolding word_less_nat_alt L by simp
  qed
  have fits: "\<not> ?L > word_of_nat (size_sub (length (packet @ rest)) off)"
  proof -
    have "unat (word_of_nat (length (packet @ rest) - off) :: u64) = length (packet @ rest) - off"
      using small by (simp add: unsigned_of_nat take_bit_nat_eq_self)
    moreover have "off \<le> length (packet @ rest)" using len by simp
    ultimately show ?thesis unfolding word_less_nat_alt L using len by simp
  qed
  have ct: "mid (packet @ rest) (to_int (off + unat n)) (to_int (unat (?L - ucast n))) = ct @ tag"
    unfolding Ln using small len lens by (subst mid_cast) (simp_all add: p lm)
  show "unprotectPayload C keys largest what (packet @ rest) (length pre) ?L (packet ! 0) = Inr (n, pn, p)"
    unfolding unprotectPayload_def Let_def off_def [symmetric] sample ecb sum.case fb pre(2) if_not_P [OF short] if_not_P [OF fits] aad ct num
      aes128GcmDecrypt_def
    using s16 by (simp add: lens dec kTagLength_def)
qed

lemma bindR_step: "r buf off = (Inr x, off') \<Longrightarrow> bindR r k buf off = k x buf off'"
  by (simp add: bindR_def)

lemma reads_pp_readByte [reads_intros]: "reads pp_readByte [v] v"
  by (rule readsI) (simp add: pp_readByte_def)

lemma reads_pp_readU32 [reads_intros]: "reads pp_readU32 (u32_bytes v) v"
  by (rule readsI) (simp add: pp_readU32_def u32_bytes_def nth_append u32_join)

lemma reads_pp_readSlice [reads_intros]: "n = length bs \<Longrightarrow> reads (pp_readSlice n) bs bs"
proof (rule readsI)
  fix pre suf
  assume n: "n = length bs" and len: "length (pre @ bs @ suf) < 2 ^ 31"
  show "pp_readSlice n (pre @ bs @ suf) (length pre) = (Inr bs, length pre + length bs)"
    using mid_append [OF len] by (simp add: pp_readSlice_def n)
qed

definition ids_bytes :: "u32 \<Rightarrow> SwQuicConnectionId \<Rightarrow> SwQuicConnectionId \<Rightarrow> bytes" where
  "ids_bytes v d s = u32_bytes v @ [word_of_nat (length d)] @ d @ [word_of_nat (length s)] @ s"

lemma reads_readIds:
  assumes "length d \<le> kMaxLength" and "length s \<le> kMaxLength"
  shows "reads readIds (ids_bytes v d s) (v, d, s)"
proof -
  have ul: "unat (word_of_nat (length d) :: u8) = length d" "unat (word_of_nat (length s) :: u8) = length s"
    using assms by (simp_all add: kMaxLength_def unsigned_of_nat take_bit_nat_eq_self)
  have ids: "reads (liftSum (cid_fromBytes d)) [] d" "reads (liftSum (cid_fromBytes s)) [] s"
    using assms by (auto intro!: reads_liftSum simp: cid_fromBytes_def cid_setBytes_def)
  have tail: "reads (bindR (liftSum (cid_fromBytes d)) (\<lambda>dcid. bindR (liftSum (cid_fromBytes s)) (\<lambda>scid.
       returnR (v, dcid, scid)))) ([] @ [] @ []) (v, d, s)"
    by (rule reads_bindR [OF ids(1)], rule reads_bindR [OF ids(2)], rule reads_returnR)
  have "reads readIds (u32_bytes v @ [word_of_nat (length d)] @ d @ [word_of_nat (length s)] @ s @ ([] @ [] @ [])) (v, d, s)"
    unfolding readIds_def
    by (rule reads_bindR [OF reads_pp_readU32], rule reads_bindR [OF reads_pp_readByte], rule reads_bindR [OF reads_pp_readSlice], rule ul,
        rule reads_bindR [OF reads_pp_readByte], rule reads_bindR [OF reads_pp_readSlice], rule ul, rule tail)
  then show ?thesis by (simp add: ids_bytes_def)
qed

text \<open>
  The unprotected long header of a packet: \<open>extra\<close> is the token field of an Initial packet, and empty otherwise.
\<close>

definition longHeader :: "u8 \<Rightarrow> u32 \<Rightarrow> SwQuicConnectionId \<Rightarrow> SwQuicConnectionId \<Rightarrow> bytes \<Rightarrow> nat \<Rightarrow> u8 \<Rightarrow> u64 \<Rightarrow> bytes" where
  "longHeader first v d s extra payloadSize n pn =
     ([first] @ ids_bytes v d s @ extra @ varint_bytes (word_of_nat (payloadSize + unat n + 16))) @ be_bytes (unat n) pn"

lemma maskHeader_split:
  assumes "pre \<noteq> []" and that: "length x = n"
  shows "\<exists>ys. maskHeader (length pre) n bits m (pre @ x) = (pre ! 0 XOR (m ! 0 AND bits)) # tl pre @ ys"
proof -
  let ?M = "maskHeader (length pre) n bits m (pre @ x)"
  have "take (length pre) ?M = (pre ! 0 XOR (m ! 0 AND bits)) # tl pre"
  proof (rule nth_equalityI)
    fix j assume "j < length (take (length pre) ?M)"
    then have j: "j < length pre" by simp
    have "?M ! j = (if j = 0 then (pre @ x) ! 0 XOR (m ! 0 AND bits) else (pre @ x) ! j)"
      using maskHeader_nth [of "length pre" n "pre @ x" j bits m] assms j by auto
    then show "take (length pre) ?M ! j = ((pre ! 0 XOR (m ! 0 AND bits)) # tl pre) ! j"
      using j assms by (cases j) (auto simp: nth_append nth_tl)
  qed (use assms in simp)
  then show ?thesis using append_take_drop_id [of "length pre" ?M] by (metis append_Cons)
qed

text \<open>What a long-header packet looks like on the wire, and what the readers find behind its ids.\<close>

lemma long_packet_wire:
  fixes n :: u8
  assumes C: "aes_ok C" and prot: "protectLongHeader C keys pn n (longHeader first v d s extra (length p) n pn) p = Inr packet"
    and first: "(first AND 0x03) + 1 = n" and pn: "pn_expands largest pn n" and small: "length (packet @ rest) < 2 ^ 31"
  shows "validateInitialKeys keys = None"
    and "\<exists>b tail. packet @ rest = [b] @ ids_bytes v d s @ extra @ varint_bytes (word_of_nat (length p + unat n + 16)) @ tail \<and>
      b AND 0xf0 = first AND 0xf0 \<and>
      fst (unprotectRest C keys largest what b base (packet @ rest) (length ([b] @ ids_bytes v d s @ extra))) =
        (case setPacketNumberLength n (base\<lparr>m_payloadLength := word_of_nat (length p)\<rparr>) of
           Inl e \<Rightarrow> Inl e | Inr h \<Rightarrow> Inr (setDecodedPacketNumber pn h, p, length packet))"
proof -
  let ?L = "word_of_nat (length p + unat n + 16) :: u64"
  define pre where "pre = [first] @ ids_bytes v d s @ extra @ varint_bytes ?L"
  have pre: "pre \<noteq> []" "(pre ! 0 AND 0x03) + 1 = n" using first by (simp_all add: pre_def)
  note unp = unprotectPayload_protect [OF C prot [unfolded longHeader_def pre_def [symmetric]] pre pn small]
  show "validateInitialKeys keys = None" by (rule unp(1))
  from unp(3) obtain m where m: "packet = maskHeader (length pre) (unat n) 0x0f m (pre @ be_bytes (unat n) pn) @ drop (length pre + unat n) packet"
    by blast
  from maskHeader_split [OF pre(1), of "be_bytes (unat n) pn" "unat n" "0x0f" m] obtain ys where
    ys: "maskHeader (length pre) (unat n) 0x0f m (pre @ be_bytes (unat n) pn) = (pre ! 0 XOR (m ! 0 AND 0x0f)) # tl pre @ ys" by auto
  define b where "b = first XOR (m ! 0 AND 0x0f)"
  define tail where "tail = ys @ drop (length pre + unat n) packet @ rest"
  have buf: "packet @ rest = [b] @ ids_bytes v d s @ extra @ varint_bytes ?L @ tail"
    using m ys by (simp add: b_def tail_def pre_def)
  have b: "b AND 0xf0 = first AND 0xf0" by (simp add: b_def xor_and_clear)
  have p0: "packet ! 0 = b" using m ys by (metis append_Cons b_def nth_Cons_0 pre_def)
  have lenL: "length packet = length pre + (length p + unat n + 16)" by (rule unp(2))
  have L: "unat ?L = length p + unat n + 16" "?L \<le> maxValue"
  proof -
    have "length p + unat n + 16 < 2 ^ 32" using small lenL by simp
    then show "?L \<le> maxValue" by (rule small_le_max)
    show "unat ?L = length p + unat n + 16" using \<open>length p + unat n + 16 < 2 ^ 32\<close>
      by (simp add: unsigned_of_nat take_bit_nat_eq_self del: of_nat_add)
  qed
  have lp: "length pre = length ([b] @ ids_bytes v d s @ extra) + length (varint_bytes ?L)" by (simp add: pre_def)
  have dec: "VarInt_decode (packet @ rest) (length ([b] @ ids_bytes v d s @ extra)) = (Inr ?L, length pre)"
    using readsD [OF reads_VarInt [OF L(2)], of "[b] @ ids_bytes v d s @ extra" tail] small
    unfolding buf lp by simp
  have end': "length pre + unat ?L = length packet" using lenL L(1) by simp
  have "fst (unprotectRest C keys largest what b base (packet @ rest) (length ([b] @ ids_bytes v d s @ extra))) =
        (case setPacketNumberLength n (base\<lparr>m_payloadLength := word_of_nat (length p)\<rparr>) of
           Inl e \<Rightarrow> Inl e | Inr h \<Rightarrow> Inr (setDecodedPacketNumber pn h, p, length packet))"
    unfolding unprotectRest_def bindR_step [of VarInt_decode, OF dec]
      unp(4) [unfolded p0] sum.case prod.case end'
    by (simp split: sum.split)
  then show "\<exists>b tail. packet @ rest = [b] @ ids_bytes v d s @ extra @ varint_bytes ?L @ tail \<and>
      b AND 0xf0 = first AND 0xf0 \<and>
      fst (unprotectRest C keys largest what b base (packet @ rest) (length ([b] @ ids_bytes v d s @ extra))) =
        (case setPacketNumberLength n (base\<lparr>m_payloadLength := word_of_nat (length p)\<rparr>) of
           Inl e \<Rightarrow> Inl e | Inr h \<Rightarrow> Inr (setDecodedPacketNumber pn h, p, length packet))"
    using buf b by blast
qed

lemma long_first_bits:
  assumes "1 \<le> n" and "n \<le> 4" and "t \<in> {0, 0x20}"
  shows "(((0xc0 OR (n - 1)) OR t) AND 0x03) + 1 = (n :: u8)" and "((0xc0 OR (n - 1)) OR t) AND 0xf0 = 0xc0 OR t"
proof -
  have "unat n \<in> {1, 2, 3, 4}" using assms by (auto simp: word_le_nat_alt)
  then have "n = 1 \<or> n = 2 \<or> n = 3 \<or> n = 4" by (auto simp: word_unat_eq_iff)
  then show "(((0xc0 OR (n - 1)) OR t) AND 0x03) + 1 = n" "((0xc0 OR (n - 1)) OR t) AND 0xf0 = 0xc0 OR t"
    using assms(3) by auto
qed

lemma long_type_bits:
  assumes "b AND 0xf0 = 0xc0 OR t" and "t \<in> {0, 0x20}"
  shows "b AND 0x80 \<noteq> 0" and "b AND 0x40 \<noteq> 0" and "b AND 0x30 = (t :: u8)"
proof -
  have e: "b AND 0x80 = (b AND 0xf0) AND 0x80" "b AND 0x40 = (b AND 0xf0) AND 0x40" "b AND 0x30 = (b AND 0xf0) AND 0x30"
    by (simp_all add: and.assoc)
  show "b AND 0x80 \<noteq> 0" unfolding e(1) assms(1) using assms(2) by auto
  show "b AND 0x40 \<noteq> 0" unfolding e(2) assms(1) using assms(2) by auto
  show "b AND 0x30 = t" unfolding e(3) assms(1) using assms(2) by auto
qed

lemma setPacketNumberLength_ok:
  "1 \<le> n \<Longrightarrow> n \<le> 4 \<Longrightarrow> m_packetNumber h = 0 \<Longrightarrow> setPacketNumberLength n h = Inr (h\<lparr>m_packetNumberLength := n\<rparr>)"
  by (cases "n = 0") (simp_all add: setPacketNumberLength_def not_less)

lemma protectLong_length: "protectLongHeader C keys pn n h p = Inr packet \<Longrightarrow> 1 \<le> n \<and> n \<le> 4"
  by (elim protectLong_cases) simp

lemma unprotect_protect_initial:
  assumes C: "aes_ok C" and prot: "protectLongHeader C keys pn n
      (longHeader (0xc0 OR (n - 1)) v d s (varint_bytes (word_of_nat (length token)) @ token) (length p) n pn) p = Inr packet"
    and cid: "length d \<le> kMaxLength" "length s \<le> kMaxLength" and pn: "pn_expands largest pn n"
    and small: "length (packet @ rest) < 2 ^ 31"
  shows "unprotectInitial C keys (packet @ rest) largest =
    Inr ((makeInitial d s)\<lparr>m_version := v, m_token := token, m_payloadLength := word_of_nat (length p),
           m_packetNumberLength := n, m_packetNumber := pn\<rparr>, p, length packet)"
proof -
  have n: "1 \<le> n" "n \<le> 4" using protectLong_length [OF prot] by simp_all
  let ?extra = "varint_bytes (word_of_nat (length token)) @ token"
  let ?base = "(makeInitial d s)\<lparr>m_version := v, m_token := token\<rparr>"
  have f: "((0xc0 OR (n - 1)) AND 0x03) + 1 = n" using long_first_bits(1) [OF n, of 0] by simp
  note wire = long_packet_wire(1) [OF C prot f pn small]
    long_packet_wire(2) [OF C prot f pn small, where what = "''QUIC protected''" and base = ?base]
  obtain b tail where buf: "packet @ rest = [b] @ ids_bytes v d s @ ?extra @ varint_bytes (word_of_nat (length p + unat n + 16)) @ tail"
    and b: "b AND 0xf0 = (0xc0 OR (n - 1)) AND 0xf0"
    and rest: "fst (unprotectRest C keys largest ''QUIC protected'' b ?base (packet @ rest) (length ([b] @ ids_bytes v d s @ ?extra))) =
        (case setPacketNumberLength n (?base\<lparr>m_payloadLength := word_of_nat (length p)\<rparr>) of
           Inl e \<Rightarrow> Inl e | Inr h \<Rightarrow> Inr (setDecodedPacketNumber pn h, p, length packet))"
    using wire(2) by auto
  have b3: "b AND 0x80 \<noteq> 0" "b AND 0x40 \<noteq> 0" "b AND 0x30 = 0"
    using long_type_bits [of b 0] b long_first_bits [OF n, of 0] by simp_all
  define Z where "Z = varint_bytes (word_of_nat (length p + unat n + 16)) @ tail"
  have buf': "packet @ rest = [b] @ ids_bytes v d s @ varint_bytes (word_of_nat (length token)) @ token @ Z"
    using buf by (simp add: Z_def)
  note sm = small [unfolded buf']
  have tl: "unat (word_of_nat (length token) :: u64) = length token" "(word_of_nat (length token) :: u64) \<le> maxValue"
    using sm by (auto intro: small_le_max simp: unsigned_of_nat take_bit_nat_eq_self)
  have 1: "pp_readByte (packet @ rest) 0 = (Inr b, 1)"
    using readsD [OF reads_pp_readByte [of b], of "[]" "ids_bytes v d s @ varint_bytes (word_of_nat (length token)) @ token @ Z"] sm
    unfolding buf' by simp
  have 2: "readIds (packet @ rest) 1 = (Inr (v, d, s), length ([b] @ ids_bytes v d s))"
    using readsD [OF reads_readIds [OF cid, of v], of "[b]" "varint_bytes (word_of_nat (length token)) @ token @ Z"] sm
    unfolding buf' by simp
  have 3: "VarInt_decode (packet @ rest) (length ([b] @ ids_bytes v d s)) =
      (Inr (word_of_nat (length token)), length ([b] @ ids_bytes v d s @ varint_bytes (word_of_nat (length token))))"
    using readsD [OF reads_VarInt [OF tl(2)], of "[b] @ ids_bytes v d s" "token @ Z"] sm unfolding buf' by simp
  have 4: "pkt_remaining (packet @ rest) (length ([b] @ ids_bytes v d s @ varint_bytes (word_of_nat (length token)))) =
      (Inr (length (token @ Z)), length ([b] @ ids_bytes v d s @ varint_bytes (word_of_nat (length token))))"
    unfolding buf' by (simp add: pkt_remaining_def)
  have 5: "pp_readSlice (unat (word_of_nat (length token) :: u64)) (packet @ rest)
        (length ([b] @ ids_bytes v d s @ varint_bytes (word_of_nat (length token)))) =
      (Inr token, length ([b] @ ids_bytes v d s @ ?extra))"
    using readsD [OF reads_pp_readSlice [OF tl(1)], of "[b] @ ids_bytes v d s @ varint_bytes (word_of_nat (length token))" Z] sm
    unfolding buf' by simp
  have fits: "\<not> (word_of_nat (length token) :: u64) > word_of_nat (length (token @ Z))"
  proof -
    have "unat (word_of_nat (length (token @ Z)) :: u64) = length (token @ Z)"
      using sm by (simp add: unsigned_of_nat take_bit_nat_eq_self del: of_nat_add)
    then show ?thesis unfolding word_less_nat_alt tl by simp
  qed
  note keys = wire(1)
  have h: "setPacketNumberLength n (?base\<lparr>m_payloadLength := word_of_nat (length p)\<rparr>) =
      Inr (?base\<lparr>m_payloadLength := word_of_nat (length p), m_packetNumberLength := n\<rparr>)"
    using n by (subst setPacketNumberLength_ok) (simp_all add: makeInitial_def newHeader_def)
  show ?thesis
    unfolding unprotectInitial_def keys option.case bindR_step [of pp_readByte, OF 1] if_not_P [OF b3(1)] if_not_P [OF b3(2)] simp_thms if_False
      b3(3) bindR_step [of readIds, OF 2] prod.case bindR_step [of VarInt_decode, OF 3] bindR_step [of pkt_remaining, OF 4]
      if_not_P [OF fits] bindR_step [of "pp_readSlice _", OF 5]
    using rest h by (simp add: setDecodedPacketNumber_def)
qed

lemma unprotect_protect_handshake:
  assumes C: "aes_ok C" and prot: "protectLongHeader C keys pn n
      (longHeader ((0xc0 OR (n - 1)) OR 0x20) v d s [] (length p) n pn) p = Inr packet"
    and cid: "length d \<le> kMaxLength" "length s \<le> kMaxLength" and pn: "pn_expands largest pn n"
    and small: "length (packet @ rest) < 2 ^ 31"
  shows "unprotectHandshake C keys (packet @ rest) largest =
    Inr (newHeader\<lparr>m_longPacketType := Handshake, m_version := v, m_destinationConnectionId := d, m_sourceConnectionId := s,
           m_payloadLength := word_of_nat (length p), m_packetNumberLength := n, m_packetNumber := pn\<rparr>, p, length packet)"
proof -
  have n: "1 \<le> n" "n \<le> 4" using protectLong_length [OF prot] by simp_all
  let ?base = "newHeader\<lparr>m_form := LongForm, m_longPacketType := Handshake, m_version := v, m_destinationConnectionId := d, m_sourceConnectionId := s\<rparr>"
  have f: "(((0xc0 OR (n - 1)) OR 0x20) AND 0x03) + 1 = n" using long_first_bits(1) [OF n, of "0x20"] by simp
  note wire = long_packet_wire(1) [OF C prot f pn small]
    long_packet_wire(2) [OF C prot f pn small, where what = "''QUIC Handshake''" and base = ?base]
  obtain b tail where buf: "packet @ rest = [b] @ ids_bytes v d s @ varint_bytes (word_of_nat (length p + unat n + 16)) @ tail"
    and b: "b AND 0xf0 = ((0xc0 OR (n - 1)) OR 0x20) AND 0xf0"
    and rest: "fst (unprotectRest C keys largest ''QUIC Handshake'' b ?base (packet @ rest) (length ([b] @ ids_bytes v d s))) =
        (case setPacketNumberLength n (?base\<lparr>m_payloadLength := word_of_nat (length p)\<rparr>) of
           Inl e \<Rightarrow> Inl e | Inr h \<Rightarrow> Inr (setDecodedPacketNumber pn h, p, length packet))"
    using wire(2) by auto
  have b3: "b AND 0x80 \<noteq> 0" "b AND 0x40 \<noteq> 0" "b AND 0x30 = 0x20"
    using long_type_bits [of b "0x20"] b long_first_bits(2) [OF n, of "0x20"] by simp_all
  define Z where "Z = varint_bytes (word_of_nat (length p + unat n + 16)) @ tail"
  have buf': "packet @ rest = [b] @ ids_bytes v d s @ Z" using buf by (simp add: Z_def)
  note sm = small [unfolded buf']
  have 1: "pp_readByte (packet @ rest) 0 = (Inr b, 1)"
    using readsD [OF reads_pp_readByte [of b], of "[]" "ids_bytes v d s @ Z"] sm unfolding buf' by simp
  have 2: "readIds (packet @ rest) 1 = (Inr (v, d, s), length ([b] @ ids_bytes v d s))"
    using readsD [OF reads_readIds [OF cid, of v], of "[b]" Z] sm unfolding buf' by simp
  note keys = wire(1)
  have h: "setPacketNumberLength n (?base\<lparr>m_payloadLength := word_of_nat (length p)\<rparr>) =
      Inr (?base\<lparr>m_payloadLength := word_of_nat (length p), m_packetNumberLength := n\<rparr>)"
    using n by (subst setPacketNumberLength_ok) (simp_all add: newHeader_def)
  show ?thesis
    unfolding unprotectHandshake_def unprotectLongHeaderNoToken_def keys option.case bindR_step [of pp_readByte, OF 1]
      if_not_P [OF b3(1)] if_not_P [OF b3(2)] simp_thms if_False b3(3) bindR_step [of readIds, OF 2] prod.case
    using rest h by (simp add: setDecodedPacketNumber_def newHeader_def)
qed

subsection \<open>Removing the protection inverts adding it\<close>

text \<open>
  C40. Whatever AES and GCM compute, a protected packet whose packet number the receiver can
  expand is opened with the same keys to what was sent: a 1-RTT packet to its packet number,
  key phase and payload; an Initial or Handshake packet, alone or followed by coalesced
  packets, to its header, its payload and its length in the datagram.
\<close>

theorem protection_roundtrip:
  assumes "aes_ok C" and "length d \<le> kMaxLength" and "length s \<le> kMaxLength" and "pn_expands largest pn n"
  shows "(protectShortHeader1Rtt C keys d pn n spin k p = Inr packet \<longrightarrow>
      unprotectShortHeader1Rtt C keys packet (length d) largest = Inr (pn, k, p)) \<and>
    (protectLongHeader C keys pn n
        (longHeader (0xc0 OR (n - 1)) v d s (varint_bytes (word_of_nat (length token)) @ token) (length p) n pn) p = Inr packet \<and>
      length (packet @ rest) < 2 ^ 31 \<longrightarrow>
      unprotectInitial C keys (packet @ rest) largest =
        Inr ((makeInitial d s)\<lparr>m_version := v, m_token := token, m_payloadLength := word_of_nat (length p),
               m_packetNumberLength := n, m_packetNumber := pn\<rparr>, p, length packet)) \<and>
    (protectLongHeader C keys pn n (longHeader ((0xc0 OR (n - 1)) OR 0x20) v d s [] (length p) n pn) p = Inr packet \<and>
      length (packet @ rest) < 2 ^ 31 \<longrightarrow>
      unprotectHandshake C keys (packet @ rest) largest =
        Inr (newHeader\<lparr>m_longPacketType := Handshake, m_version := v, m_destinationConnectionId := d,
               m_sourceConnectionId := s, m_payloadLength := word_of_nat (length p), m_packetNumberLength := n,
               m_packetNumber := pn\<rparr>, p, length packet))"
  using unprotect_protect_short [OF assms(1) _ assms(2,4)] unprotect_protect_initial [OF assms(1) _ assms(2-4)]
    unprotect_protect_handshake [OF assms(1) _ assms(2-4)] by blast

text \<open>A library that meets \<open>aes_ok\<close>, to evaluate the functions with.\<close>

definition xorAes :: aes_library where
  "xorAes =
     \<lparr>gcmEncrypt = (\<lambda>key nonce aad p. Inr (map (\<lambda>x. x XOR 0x5a) p, take 16 (nonce @ aad @ replicate 16 0))),
      gcmDecrypt = (\<lambda>key nonce aad ct tag.
        if tag = take 16 (nonce @ aad @ replicate 16 0) then Inr (map (\<lambda>x. x XOR 0x5a) ct) else Inl ''authentication failed''),
      ecbEncrypt = (\<lambda>key block. Inr (take 16 (map (\<lambda>x. x XOR 0xc3) block @ replicate 16 0x7e)))\<rparr>"

lemma xorAes_ok: "aes_ok xorAes"
  by (auto simp: aes_ok_def xorAes_def kTagLength_def comp_def xor.assoc)

definition sampleKeys :: SwQuicInitialKeys where
  "sampleKeys = \<lparr>ik_secret = [1], ik_key = replicate 16 1, ik_iv = replicate 12 2, ik_headerProtectionKey = replicate 16 3\<rparr>"

theorem protection_roundtrip_witness:
  "\<exists>packet. unprotectShortHeader1Rtt xorAes sampleKeys packet (length [7, 8, 9 :: u8]) (Some 0xa82f30ea) =
     Inr (0xa82f9b32, True, [10, 20, 30, 40])"
proof -
  have "\<not> isl (protectShortHeader1Rtt xorAes sampleKeys [7, 8, 9] 0xa82f9b32 2 False True [10, 20, 30, 40])"
    by (simp add: protectShortHeader1Rtt_def sampleKeys_def validateInitialKeys_def xorAes_def size_sub_def int_max_def
        kTagLength_def Let_def word_le_nat_alt word_less_nat_alt)
  then obtain packet where
    "protectShortHeader1Rtt xorAes sampleKeys [7, 8, 9] 0xa82f9b32 2 False True [10, 20, 30, 40] = Inr packet"
    by (cases "protectShortHeader1Rtt xorAes sampleKeys [7, 8, 9] 0xa82f9b32 2 False True [10, 20, 30, 40]") auto
  moreover have "pn_expands (Some 0xa82f30ea) 0xa82f9b32 2" by (simp add: pn_expands_def)
  ultimately have "unprotectShortHeader1Rtt xorAes sampleKeys packet (length [7, 8, 9 :: u8]) (Some 0xa82f30ea) =
     Inr (0xa82f9b32, True, [10, 20, 30, 40])"
    by (intro protection_roundtrip [OF xorAes_ok, where s = "[]", THEN conjunct1, THEN mp]) (simp_all add: kMaxLength_def)
  then show ?thesis by blast
qed

end
