(* ===== verification/Quic_Sender.thy ===== *)
theory Quic_Sender
  imports Quic_Recovery Quic_Protector Quic_FrameCodec
begin

text \<open>
  The sending half of \<open>SwQuicConnection\<close> (\<open>src/core/io/quic/SwQuicConnection.h\<close>): the staging
  of stream data under the limits of the peer, the queue of DATAGRAM frames, and the assembly of
  packets under the congestion window, the pacing, the payload ceiling and the
  anti-amplification limit.

  The cipher is the argument \<open>aes_library\<close> of \<open>Quic_Protector\<close>; nothing is assumed of it here.
\<close>

subsection \<open>State\<close>

datatype DatagramQueueOverflowPolicy = RejectNewest | DropOldest

record conn_sender = conn_recovery +
  c_version :: u32
  c_plaintextInitialTx :: bool
  c_rxKeys :: "Level \<Rightarrow> SwQuicInitialKeys"
  c_txKeys :: "Level \<Rightarrow> SwQuicInitialKeys"
  c_nextRxKeys :: SwQuicInitialKeys
  c_nextTxKeys :: SwQuicInitialKeys
  c_prevRxKeys :: SwQuicInitialKeys
  c_hasNextKeys :: bool
  c_hasPrevRxKeys :: bool
  c_keyPhase :: bool
  c_keyUpdateCount :: u64
  c_localConnectionId :: SwQuicConnectionId
  c_peerConnectionId :: SwQuicConnectionId
  c_initialToken :: bytes
  c_closeSent :: bool
  c_pathValidated :: bool
  c_awaitingPathResponse :: bool
  c_resetCcOnValidation :: bool
  c_pathChallengeData :: bytes
  c_bytesReceivedThisPath :: u64
  c_bytesSentThisPath :: u64
  c_pendingDatagramFrames :: "SwQuicFrame list"
  c_pendingDatagramFrameBytes :: nat
  c_queuedDatagramFrames :: u64
  c_encodedDatagramFrames :: u64
  c_droppedOutgoingDatagramFrames :: u64
  c_maxDatagramsPerBuild :: nat
  c_maxPendingDatagramFrames :: nat
  c_maxPendingDatagramBytes :: nat
  c_datagramQueueOverflowPolicy :: DatagramQueueOverflowPolicy
  c_maximumUdpPayloadSize :: nat
  c_pacingRatePerMillisecond :: nat
  c_pacingMaximumBurst :: nat
  c_pacingLastRefillMs :: u64
  c_pacingTokens :: nat

definition kPacketNumberLength :: u8 where "kPacketNumberLength = 4"
definition kLocalAckDelayExponent :: nat where "kLocalAckDelayExponent = 3"
definition kStreamChunkBytes :: u64 where "kStreamChunkBytes = 1000"
definition kMaxStagedStreamFrames :: nat where "kMaxStagedStreamFrames = 32"

subsection \<open>Staging stream data\<close>

definition unsentAllowance :: "u64 \<Rightarrow> SendStream \<Rightarrow> 'a conn_streams_scheme \<Rightarrow> u64" where
  "unsentAllowance sid tx c =
     (let streamLimit = (if \<not> c_hasPeerParams c then - 1 else peerStreamSendLimit c sid);
          connectionLimit = (if \<not> c_hasPeerParams c then - 1
                             else connection_sendableBytes (c_connectionFlow c) (c_totalStreamBytesSent c));
          allowance = (if streamLimit > tx_nextOffset tx then streamLimit - tx_nextOffset tx else 0)
      in if connectionLimit < allowance then connectionLimit else allowance)"

definition stageChunk :: "u64 \<Rightarrow> SendStream \<Rightarrow> u64 \<Rightarrow> 'a conn_streams_scheme \<Rightarrow> 'a conn_streams_scheme" where
  "stageChunk sid tx chunkSize c =
     (let stored = length (tx_buffer tx);
          n = unat chunkSize;
          chunk = mid (tx_buffer tx) (to_int (tx_bufferOffset tx)) (to_int n);
          drained = (tx_bufferOffset tx + n = stored);
          tx1 = (if drained then tx\<lparr>tx_buffer := [], tx_bufferOffset := 0\<rparr>
                 else tx\<lparr>tx_bufferOffset := tx_bufferOffset tx + n\<rparr>);
          f = (tx_finQueued tx \<and> drained);
          c1 = pushPending LevelApplication (stream sid (tx_nextOffset tx) chunk f)
                 (c\<lparr>c_bufferedStreamSendBytes :=
                      (if n \<le> c_bufferedStreamSendBytes c then c_bufferedStreamSendBytes c - n else 0),
                    c_totalStreamBytesSent := c_totalStreamBytesSent c + chunkSize\<rparr>)
      in setSendStream sid (tx1\<lparr>tx_nextOffset := tx_nextOffset tx + chunkSize, tx_finSent := tx_finSent tx1 \<or> f\<rparr>) c1)"

definition stageOneStreamFrame :: "u64 \<Rightarrow> 'a conn_streams_scheme \<Rightarrow> bool \<times> 'a conn_streams_scheme" where
  "stageOneStreamFrame sid c =
     (let tx = sendStreamAt sid c; remaining = unsentBytes tx in
      if remaining > 0 then
        let allowance = unsentAllowance sid tx c in
        if allowance = 0 then (False, c)
        else
          let c0 = word_of_nat remaining;
              c1 = (if c0 > allowance then allowance else c0);
              chunkSize = (if c1 > kStreamChunkBytes then kStreamChunkBytes else c1)
          in (True, stageChunk sid tx chunkSize c)
      else if tx_finQueued tx \<and> \<not> tx_finSent tx then
        (True, setSendStream sid (tx\<lparr>tx_finSent := True\<rparr>)
                 (pushPending LevelApplication (stream sid (tx_nextOffset tx) [] True) c))
      else (False, c))"

text \<open>The round-robin over the send streams; \<open>cursor\<close> is the position of the iterator.\<close>

function stageLoop ::
  "nat \<Rightarrow> nat \<Rightarrow> nat \<Rightarrow> nat \<Rightarrow> nat \<Rightarrow> 'a conn_streams_scheme \<Rightarrow> 'a conn_streams_scheme" where
  "stageLoop stagingBudget total_streams staged withoutProgress cursor c =
     (if staged < stagingBudget \<and> withoutProgress < total_streams then
        (case stageOneStreamFrame (smap_keys (c_sendStreams c) ! cursor) c of
           (progressed, c1) \<Rightarrow>
             if progressed
             then stageLoop stagingBudget total_streams (staged + 1) 0 ((cursor + 1) mod total_streams) c1
             else stageLoop stagingBudget total_streams staged (withoutProgress + 1) ((cursor + 1) mod total_streams) c1)
      else c\<lparr>c_streamSchedulingCursor := cursor\<rparr>)"
  by pat_completeness auto
termination
  by (relation "measures [\<lambda>(b, n, s, w, _). b - s, \<lambda>(b, n, s, w, _). n - w]") auto

declare stageLoop.simps [simp del]

definition stageStreamFrames :: "'a conn_streams_scheme \<Rightarrow> 'a conn_streams_scheme" where
  "stageStreamFrames c =
     (let queued = length (spc_pendingFrames (c_spaces c LevelApplication));
          total_streams = length (c_sendStreams c) in
      if c_sendStreams c = [] then c
      else if queued \<ge> kMaxStagedStreamFrames then c
      else stageLoop (kMaxStagedStreamFrames - queued) total_streams 0 0 (c_streamSchedulingCursor c mod total_streams) c)"

subsection \<open>The DATAGRAM queue\<close>

definition pendingDatagramLimitExceeded :: "'a conn_sender_scheme \<Rightarrow> nat \<Rightarrow> bool" where
  "pendingDatagramLimitExceeded c nextBytes \<longleftrightarrow>
     (if c_maxPendingDatagramFrames c > 0 \<and> length (c_pendingDatagramFrames c) \<ge> c_maxPendingDatagramFrames c then True
      else c_maxPendingDatagramBytes c > 0 \<and>
        (nextBytes > c_maxPendingDatagramBytes c \<or>
         c_pendingDatagramFrameBytes c > c_maxPendingDatagramBytes c - nextBytes))"

definition dropOldestPendingDatagram :: "'a conn_sender_scheme \<Rightarrow> 'a conn_sender_scheme" where
  "dropOldestPendingDatagram c =
     (case c_pendingDatagramFrames c of
        [] \<Rightarrow> c
      | f # fs \<Rightarrow>
          let n = length (data f)
          in c\<lparr>c_pendingDatagramFrameBytes :=
                 (if n > c_pendingDatagramFrameBytes c then 0 else c_pendingDatagramFrameBytes c - n),
               c_pendingDatagramFrames := fs,
               c_droppedOutgoingDatagramFrames := c_droppedOutgoingDatagramFrames c + 1\<rparr>)"

function enforcePendingDatagramLimits :: "'a conn_sender_scheme \<Rightarrow> 'a conn_sender_scheme" where
  "enforcePendingDatagramLimits c =
     (if c_pendingDatagramFrames c \<noteq> [] \<and>
         (c_maxPendingDatagramFrames c > 0 \<and> length (c_pendingDatagramFrames c) > c_maxPendingDatagramFrames c \<or>
          c_maxPendingDatagramBytes c > 0 \<and> c_pendingDatagramFrameBytes c > c_maxPendingDatagramBytes c)
      then enforcePendingDatagramLimits (dropOldestPendingDatagram c) else c)"
  by pat_completeness auto
termination
  by (relation "measure (\<lambda>c. length (c_pendingDatagramFrames c))")
    (auto simp: dropOldestPendingDatagram_def Let_def split: list.splits)

declare enforcePendingDatagramLimits.simps [simp del]

function reserveLoop :: "nat \<Rightarrow> 'a conn_sender_scheme call" where
  "reserveLoop n c =
     (if pendingDatagramLimitExceeded c n then
        if c_datagramQueueOverflowPolicy c \<noteq> DropOldest \<or> c_pendingDatagramFrames c = []
        then (Some ''QUIC DATAGRAM pending queue is full'',
              c\<lparr>c_droppedOutgoingDatagramFrames := c_droppedOutgoingDatagramFrames c + 1\<rparr>)
        else reserveLoop n (dropOldestPendingDatagram c)
      else (None, c))"
  by pat_completeness auto
termination
  by (relation "measure (\<lambda>(_, c). length (c_pendingDatagramFrames c))")
    (auto simp: dropOldestPendingDatagram_def Let_def split: list.splits)

declare reserveLoop.simps [simp del]

definition reservePendingDatagram :: "nat \<Rightarrow> 'a conn_sender_scheme call" where
  "reservePendingDatagram n c =
     (if c_maxPendingDatagramBytes c > 0 \<and> n > c_maxPendingDatagramBytes c
      then (Some ''QUIC DATAGRAM exceeds the pending queue byte limit'',
            c\<lparr>c_droppedOutgoingDatagramFrames := c_droppedOutgoingDatagramFrames c + 1\<rparr>)
      else reserveLoop n c)"

subsection \<open>Budgets\<close>

definition packetPayloadBudgetForWire :: "'a conn_sender_scheme \<Rightarrow> Level \<Rightarrow> nat \<Rightarrow> nat" where
  "packetPayloadBudgetForWire c level wireBytes =
     (let overhead =
        (if level = LevelApplication
         then 1 + length (c_peerConnectionId c) + unat kPacketNumberLength + kTagLength
         else 1 + 4 + 1 + length (c_peerConnectionId c) + 1 + length (c_localConnectionId c) + 4 +
              unat kPacketNumberLength + kTagLength +
              (if level = LevelInitial then 4 + length (c_initialToken c) else 0))
      in if overhead + 64 \<ge> wireBytes then 64 else wireBytes - overhead)"

definition effectiveMaximumUdpPayloadSize :: "'a conn_sender_scheme \<Rightarrow> nat" where
  "effectiveMaximumUdpPayloadSize c =
     (let maximum = (if c_maximumUdpPayloadSize c = 0 \<or> c_maximumUdpPayloadSize c > maximumUdpPayloadBytes
                     then maximumUdpPayloadBytes else c_maximumUdpPayloadSize c);
          p = unat (maxUdpPayloadSize (c_peerParams c))
      in if c_hasPeerParams c \<and> p \<ge> minimumInitialUdpPayloadBytes \<and> p < maximum then p else maximum)"

definition packetPayloadBudget :: "'a conn_sender_scheme \<Rightarrow> Level \<Rightarrow> nat" where
  "packetPayloadBudget c level = packetPayloadBudgetForWire c level (effectiveMaximumUdpPayloadSize c)"

definition frameEncodedSize :: "SwQuicFrame \<Rightarrow> nat" where
  "frameEncodedSize f =
     (if frameType f = Datagram
      then 1 + fst (VarInt_encodedSize (word_of_nat (length (data f)))) + length (data f)
      else (case encodeFrames [f] [] of (encoded, None) \<Rightarrow> length encoded | (_, Some _) \<Rightarrow> 64))"

definition queueDatagramFrame :: "bytes \<Rightarrow> 'a conn_sender_scheme call" where
  "queueDatagramFrame d c =
     (if c_state c \<noteq> Open then (Some ''QUIC connection is not open for sending'', c)
      else if c_hasPeerParams c \<and> maxDatagramFrameSize (c_peerParams c) = 0
      then (Some ''Peer does not accept QUIC DATAGRAM frames'', c)
      else
        let frameSize = 1 + fst (VarInt_encodedSize (word_of_nat (length d))) + length d in
        if frameSize > packetPayloadBudget c LevelApplication \<or>
           c_hasPeerParams c \<and> frameSize > unat (maxDatagramFrameSize (c_peerParams c))
        then (Some ''QUIC DATAGRAM does not fit the negotiated packet size'', c)
        else (case reservePendingDatagram (length d) c of
                (Some e, c1) \<Rightarrow> (Some e, c1)
              | (None, c1) \<Rightarrow>
                  (None, c1\<lparr>c_pendingDatagramFrames := c_pendingDatagramFrames c1 @ [datagram d],
                            c_pendingDatagramFrameBytes := c_pendingDatagramFrameBytes c1 + length d,
                            c_queuedDatagramFrames := c_queuedDatagramFrames c1 + 1\<rparr>)))"

definition queueFrame :: "Level \<Rightarrow> SwQuicFrame \<Rightarrow> 'a conn_sender_scheme \<Rightarrow> 'a conn_sender_scheme" where
  "queueFrame level f c =
     (if level = LevelApplication \<and> frameType f = Datagram then snd (queueDatagramFrame (data f) c)
      else pushPending level f c)"

subsection \<open>One packet\<close>

definition amplificationBlocked :: "'a conn_sender_scheme \<Rightarrow> nat \<Rightarrow> bool" where
  "amplificationBlocked c nextDatagramSize \<longleftrightarrow>
     (if c_pathValidated c then False
      else c_bytesSentThisPath c + word_of_nat nextDatagramSize > 3 * c_bytesReceivedThisPath c)"

definition containsPathFrame :: "SwQuicFrame list \<Rightarrow> bool" where
  "containsPathFrame fs \<longleftrightarrow> list_ex (\<lambda>f. frameType f = PathChallenge \<or> frameType f = PathResponse) fs"

definition padTo :: "nat \<Rightarrow> bytes \<Rightarrow> bytes" where
  "padTo n payload = payload @ replicate (n - length payload) 0"

function padPath :: "'a conn_sender_scheme \<Rightarrow> nat \<Rightarrow> u64 \<Rightarrow> bytes \<Rightarrow> bytes" where
  "padPath c target maxWireBytes payload =
     (if length payload < target then
        if amplificationBlocked c (length payload + 64) \<or> word_of_nat (length payload) + 64 > maxWireBytes then payload
        else padPath c target maxWireBytes (payload @ [0])
      else payload)"
  by pat_completeness auto
termination by (relation "measure (\<lambda>(_, target, _, payload). target - length payload)") auto

declare padPath.simps [simp del]

definition buildLongHeaderBytes :: "'a conn_sender_scheme \<Rightarrow> Level \<Rightarrow> u64 \<Rightarrow> nat \<Rightarrow> string + bytes" where
  "buildLongHeaderBytes c level pn plaintextPayloadSize =
     (let firstByte = (0xc0 OR (kPacketNumberLength - 1)) OR (if level = LevelHandshake then 0x20 else 0);
          encodedLength = word_of_nat plaintextPayloadSize + ucast kPacketNumberLength + word_of_nat kTagLength
      in case seqW (putW [firstByte])
           (seqW (putW (be_bytes 4 (ucast (c_version c))))
           (seqW (putW (word_of_nat (length (c_peerConnectionId c)) # c_peerConnectionId c))
           (seqW (putW (word_of_nat (length (c_localConnectionId c)) # c_localConnectionId c))
           (seqW (if level = LevelInitial
                  then seqW (VarInt_encode (word_of_nat (length (c_initialToken c)))) (putW (c_initialToken c))
                  else returnW)
           (seqW (VarInt_encode encodedLength)
           (putW (be_bytes 4 pn))))))) [] of
           (header, None) \<Rightarrow> Inr header
         | (_, Some e) \<Rightarrow> Inl e)"

definition protectPayload :: "aes_library \<Rightarrow> 'a conn_sender_scheme \<Rightarrow> Level \<Rightarrow> u64 \<Rightarrow> bytes \<Rightarrow> string + bytes" where
  "protectPayload P c level pn payload =
     (if level = LevelApplication
      then protectShortHeader1Rtt P (c_txKeys c level) (c_peerConnectionId c) pn kPacketNumberLength False (c_keyPhase c) payload
      else if spc_hasTxKeys (c_spaces c level) then
        (case buildLongHeaderBytes c level pn (length payload) of
           Inl e \<Rightarrow> Inl e
         | Inr header \<Rightarrow> protectLongHeader P (c_txKeys c level) pn kPacketNumberLength header payload)
      else
        let h = (makeInitial (c_peerConnectionId c) (c_localConnectionId c))\<lparr>m_version := c_version c, m_token := c_initialToken c\<rparr>
        in (case setPacketNumberLength kPacketNumberLength h of
              Inl e \<Rightarrow> Inl e
            | Inr h1 \<Rightarrow>
                (case setPacketNumber pn h1 of
                   Inl e \<Rightarrow> Inl e
                 | Inr h2 \<Rightarrow>
                     (case encodeInitialPacket h2 payload [] of (packet, None) \<Rightarrow> Inr packet | (_, Some e) \<Rightarrow> Inl e))))"

text \<open>What a packet that ships leaves behind.\<close>

definition commitPacket ::
  "Level \<Rightarrow> SwQuicFrame list \<Rightarrow> bool \<Rightarrow> u64 \<Rightarrow> nat \<Rightarrow> bool \<Rightarrow> 'a conn_sender_scheme \<Rightarrow> 'a conn_sender_scheme" where
  "commitPacket level frames ackEliciting now wireSize trackGlobalLoss c =
     (let pn = spc_nextTxPn (c_spaces c level);
          c1 = onSpace level (\<lambda>s. s\<lparr>spc_nextTxPn := pn + 1\<rparr>) c;
          sent = \<lparr>sp_packetNumber = pn, sp_sentTimeMs = now, sp_ackEliciting = ackEliciting,
                  sp_inFlight = ackEliciting, sp_sentBytes = wireSize\<rparr>;
          entry = \<lparr>sr_retransmittable = filter (\<lambda>f. isRetransmittableFrame (frameType f)) frames,
                 sr_sentBytes = wireSize, sr_sentTimeMs = now, sr_ackEliciting = True\<rparr>;
          c2 = (if ackEliciting \<and> trackGlobalLoss
                then (onSpace level (\<lambda>s. s\<lparr>spc_loss := loss_onPacketSent sent (spc_loss s),
                                        spc_lastAckElicitingSentMs := now, spc_hasAckElicitingInFlight := True,
                                        spc_sentPackets := smap_insert pn entry (spc_sentPackets s)\<rparr>) c1)
                     \<lparr>c_congestion := cc_onPacketSent wireSize (c_congestion c1),
                      c_lastNetworkActivityMs := now, c_hasNetworkActivity := True\<rparr>
                else c1)
      in c2\<lparr>c_encodedDatagramFrames := c_encodedDatagramFrames c2 +
               word_of_nat (length (filter (\<lambda>f. frameType f = Datagram) frames))\<rparr>)"

definition packetPlaintext :: "'a conn_sender_scheme \<Rightarrow> Level \<Rightarrow> SwQuicFrame list \<Rightarrow> bool \<Rightarrow> u64 \<Rightarrow> bytes \<Rightarrow> bytes" where
  "packetPlaintext c level frames ackEliciting maxWireBytes payload =
     (let p1 = (if level = LevelInitial \<and> c_role c = Client \<and> ackEliciting
                then padTo (packetPayloadBudgetForWire c LevelInitial minimumInitialUdpPayloadBytes) payload else payload);
          p2 = (if level = LevelApplication \<and> containsPathFrame frames
                then padPath c (packetPayloadBudgetForWire c LevelApplication minimumInitialUdpPayloadBytes) maxWireBytes p1
                else p1)
      in padTo 4 p2)"

definition mustReachMinimum :: "'a conn_sender_scheme \<Rightarrow> Level \<Rightarrow> SwQuicFrame list \<Rightarrow> bool \<Rightarrow> u64 \<Rightarrow> bool" where
  "mustReachMinimum c level frames ackEliciting maxWireBytes \<longleftrightarrow>
     level = LevelInitial \<and> c_role c = Client \<and> ackEliciting \<or>
     level = LevelApplication \<and> containsPathFrame frames \<and>
       word_of_nat minimumInitialUdpPayloadBytes \<le> maxWireBytes \<and> \<not> amplificationBlocked c minimumInitialUdpPayloadBytes"

definition encodePacket ::
  "aes_library \<Rightarrow> Level \<Rightarrow> SwQuicFrame list \<Rightarrow> bool \<Rightarrow> u64 \<Rightarrow> u64 \<Rightarrow> bool \<Rightarrow> 'a conn_sender_scheme \<Rightarrow>
     (string + bytes option) \<times> 'a conn_sender_scheme" where
  "encodePacket P level frames ackEliciting now maxWireBytes trackGlobalLoss c =
     (case encodeFrames frames [] of
        (_, Some e) \<Rightarrow> (Inl e, c)
      | (payload0, None) \<Rightarrow>
          let payload = packetPlaintext c level frames ackEliciting maxWireBytes payload0;
              pn = spc_nextTxPn (c_spaces c level)
          in case protectPayload P c level pn payload of
               Inl e \<Rightarrow> (Inl e, c)
             | Inr packet0 \<Rightarrow>
                 (case (if mustReachMinimum c level frames ackEliciting maxWireBytes \<and>
                           length packet0 < minimumInitialUdpPayloadBytes
                        then protectPayload P c level pn
                               (payload @ replicate (minimumInitialUdpPayloadBytes - length packet0) 0)
                        else Inr packet0) of
                    Inl e \<Rightarrow> (Inl e, c)
                  | Inr packet \<Rightarrow>
                      if length packet > effectiveMaximumUdpPayloadSize c
                      then (Inl ''Encoded QUIC packet exceeds the UDP payload ceiling'', c)
                      else if amplificationBlocked c (length packet) \<or> word_of_nat (length packet) > maxWireBytes
                      then (Inr None, c)
                      else (Inr (Some packet), commitPacket level frames ackEliciting now (length packet) trackGlobalLoss c)))"

subsection \<open>Filling packets\<close>

definition hasPendingFrames :: "Level \<Rightarrow> 'a conn_sender_scheme \<Rightarrow> bool" where
  "hasPendingFrames level c \<longleftrightarrow>
     spc_pendingFrames (c_spaces c level) \<noteq> [] \<or> level = LevelApplication \<and> c_pendingDatagramFrames c \<noteq> []"

definition nextPending :: "Level \<Rightarrow> 'a conn_sender_scheme \<Rightarrow> SwQuicFrame" where
  "nextPending level c =
     (if spc_pendingFrames (c_spaces c level) = [] then hd (c_pendingDatagramFrames c)
      else hd (spc_pendingFrames (c_spaces c level)))"

definition popPending :: "Level \<Rightarrow> 'a conn_sender_scheme \<Rightarrow> 'a conn_sender_scheme" where
  "popPending level c =
     (if spc_pendingFrames (c_spaces c level) = [] then
        let n = length (data (hd (c_pendingDatagramFrames c)))
        in c\<lparr>c_pendingDatagramFrames := tl (c_pendingDatagramFrames c),
             c_pendingDatagramFrameBytes :=
               (if n > c_pendingDatagramFrameBytes c then 0 else c_pendingDatagramFrameBytes c - n)\<rparr>
      else onSpace level (\<lambda>s. s\<lparr>spc_pendingFrames := tl (spc_pendingFrames s)\<rparr>) c)"

definition queuedFrames :: "Level \<Rightarrow> 'a conn_sender_scheme \<Rightarrow> nat" where
  "queuedFrames level c =
     length (spc_pendingFrames (c_spaces c level)) +
     (if level = LevelApplication then length (c_pendingDatagramFrames c) else 0)"

lemma queuedFrames_pop: "hasPendingFrames level c \<Longrightarrow> queuedFrames level (popPending level c) + 1 = queuedFrames level c"
  by (cases "spc_pendingFrames (c_spaces c level)"; cases "c_pendingDatagramFrames c")
    (auto simp: hasPendingFrames_def queuedFrames_def popPending_def onSpace_def Let_def)

definition spendProbe :: "Level \<Rightarrow> 'a conn_streams_scheme \<Rightarrow> 'a conn_streams_scheme" where
  "spendProbe level = onSpace level (\<lambda>s. s\<lparr>spc_probesPending := spc_probesPending s - 1\<rparr>)"

lemma queuedFrames_spend [simp]: "queuedFrames level (spendProbe level c) = queuedFrames level c"
  by (simp add: queuedFrames_def spendProbe_def onSpace_def)

lemma hasPending_spend [simp]: "hasPendingFrames level (spendProbe level c) = hasPendingFrames level c"
  by (simp add: hasPendingFrames_def spendProbe_def onSpace_def)

text \<open>
  The inner loop: frames are taken until the payload is full or the congestion window closes.
  A probe that is owed goes past the window.
\<close>

function fillPacket ::
  "Level \<Rightarrow> nat \<Rightarrow> SwQuicFrame list \<Rightarrow> nat \<Rightarrow> bool \<Rightarrow> 'a conn_sender_scheme \<Rightarrow>
     string + (SwQuicFrame list \<times> bool \<times> 'a conn_sender_scheme)" where
  "fillPacket level budget frames payloadSize ackEliciting c =
     (if \<not> hasPendingFrames level c then Inr (frames, ackEliciting, c)
      else
        let next = nextPending level c; nextSize = frameEncodedSize next in
        if nextSize > budget \<or> payloadSize > budget - nextSize then
          (if frames = [] then Inl ''Pending QUIC frame exceeds the UDP payload ceiling''
           else Inr (frames, ackEliciting, c))
        else if isAckElicitingFrame (frameType next) then
          if canSend (c_congestion c) (payloadSize + nextSize + 64)
          then fillPacket level budget (frames @ [next]) (payloadSize + nextSize) True (popPending level c)
          else if spc_probesPending (c_spaces c level) = 0 then Inr (frames, ackEliciting, c)
          else fillPacket level budget (frames @ [next]) (payloadSize + nextSize) True
                 (popPending level (spendProbe level c))
        else fillPacket level budget (frames @ [next]) (payloadSize + nextSize) ackEliciting (popPending level c))"
  by pat_completeness auto
termination
proof (relation "measure (\<lambda>(level, _, _, _, _, c). queuedFrames level c)", goal_cases)
  case 1
  then show ?case by simp
next
  case (2 level budget frames payloadSize ackEliciting c)
  then show ?case using queuedFrames_pop [of level c] by simp
next
  case (3 level budget frames payloadSize ackEliciting c)
  then show ?case using queuedFrames_pop [of level "spendProbe level c"] by simp
next
  case (4 level budget frames payloadSize ackEliciting c)
  then show ?case using queuedFrames_pop [of level c] by simp
qed

declare fillPacket.simps [simp del]

definition restorePendingFrame :: "Level \<Rightarrow> SwQuicFrame \<Rightarrow> 'a conn_sender_scheme \<Rightarrow> 'a conn_sender_scheme" where
  "restorePendingFrame level f c =
     (if level = LevelApplication \<and> frameType f = Datagram
      then c\<lparr>c_pendingDatagramFrameBytes := c_pendingDatagramFrameBytes c + length (data f),
             c_pendingDatagramFrames := f # c_pendingDatagramFrames c\<rparr>
      else onSpace level (\<lambda>s. s\<lparr>spc_pendingFrames := f # spc_pendingFrames s\<rparr>) c)"

text \<open>A packet withheld by the anti-amplification limit gives its frames back, except those that are not retransmittable.\<close>

definition withholdFrame :: "Level \<Rightarrow> SwQuicFrame \<Rightarrow> 'a conn_sender_scheme \<Rightarrow> 'a conn_sender_scheme" where
  "withholdFrame level f c =
     (if isRetransmittableFrame (frameType f)
      then onSpace level (\<lambda>s. s\<lparr>spc_pendingFrames := f # spc_pendingFrames s\<rparr>) c
      else if frameType f = Datagram
      then c\<lparr>c_droppedOutgoingDatagramFrames := c_droppedOutgoingDatagramFrames c + 1\<rparr>
      else c)"

definition generatedAck :: "Level \<Rightarrow> u64 \<Rightarrow> 'a conn_sender_scheme \<Rightarrow> string + SwQuicFrame" where
  "generatedAck level now c =
     (let s = c_spaces c level;
          delay0 = (if now \<ge> spc_largestReceivedTimeMs s then now - spc_largestReceivedTimeMs s else 0);
          delayMs = (if delay0 > kLocalMaxAckDelayMs then kLocalMaxAckDelayMs else delay0)
      in buildAckFrame (ackTracker s) (drop_bit kLocalAckDelayExponent (delayMs * 1000)))"

definition ackSent :: "Level \<Rightarrow> 'a conn_streams_scheme \<Rightarrow> 'a conn_streams_scheme" where
  "ackSent level = onSpace level (\<lambda>s. s\<lparr>ackTracker := onAckSent (ackTracker s), spc_hasAckDeadline := False,
                                       spc_ackElicitingSinceAck := 0\<rparr>)"

type_synonym 'c build_state = "bool \<times> bytes list \<times> 'c"
type_synonym 'c build_result = "string option \<times> bytes list \<times> 'c"

definition packetShipped :: "Level \<Rightarrow> bool \<Rightarrow> nat \<Rightarrow> 'a conn_sender_scheme \<Rightarrow> 'a conn_sender_scheme" where
  "packetShipped level carriesGeneratedAck wireSize c =
     (let c1 = (if c_pacingRatePerMillisecond c > 0 \<and> c_pacingTokens c > 0
                then c\<lparr>c_pacingTokens := c_pacingTokens c - 1\<rparr> else c);
          c2 = c1\<lparr>c_bytesSentThisPath := c_bytesSentThisPath c1 + word_of_nat wireSize\<rparr>
      in if carriesGeneratedAck then ackSent level c2 else c2)"

text \<open>
  One round of the outer loop. \<open>Inl\<close> leaves the loop with the result of the function, \<open>Inr\<close> goes
  round again; the state is whether an ACK is wanted, the datagrams so far and the connection.
\<close>

definition buildOne ::
  "aes_library \<Rightarrow> Level \<Rightarrow> u64 \<Rightarrow> 'a conn_sender_scheme build_state \<Rightarrow>
     'a conn_sender_scheme build_result + 'a conn_sender_scheme build_state" where
  "buildOne P level now b =
     (case b of (ackWanted, out, c) \<Rightarrow>
       if \<not> ((hasPendingFrames level c \<or> ackWanted) \<and>
             (c_maxDatagramsPerBuild c = 0 \<or> length out < c_maxDatagramsPerBuild c) \<and>
             (c_pacingRatePerMillisecond c = 0 \<or> c_pacingTokens c > 0))
       then Inl (None, out, c)
       else
         (case (if ackWanted then map_sum id (\<lambda>f. [f]) (generatedAck level now c) else Inr []) of
            Inl e \<Rightarrow> Inl (Some e, out, c)
          | Inr frames0 \<Rightarrow>
              (case fillPacket level (packetPayloadBudget c level) frames0 (sum_list (map frameEncodedSize frames0)) False c of
                 Inl e \<Rightarrow> Inl (Some e, out, c)
               | Inr (frames, ackEliciting, c1) \<Rightarrow>
                   if frames = [] then Inl (None, out, c1)
                   else
                     (case encodePacket P level frames ackEliciting now (- 1) True c1 of
                        (Inl e, c2) \<Rightarrow>
                          Inl (Some e, out, fold (restorePendingFrame level) (rev (if ackWanted then tl frames else frames)) c2)
                      | (Inr None, c2) \<Rightarrow> Inl (None, out, fold (withholdFrame level) (rev frames) c2)
                      | (Inr (Some packet), c2) \<Rightarrow>
                          let c3 = packetShipped level ackWanted (length packet) c2; out' = out @ [packet]
                          in if \<not> hasPendingFrames level c3 then Inl (None, out', c3)
                             else if \<not> canSend (c_congestion c3) 64 \<and> spc_probesPending (c_spaces c3 level) = 0
                             then Inl (None, out', c3)
                             else Inr (False, out', c3)))))"

definition buildMeasure :: "Level \<Rightarrow> 'a conn_sender_scheme build_state \<Rightarrow> nat" where
  "buildMeasure level b = (case b of (ackWanted, out, c) \<Rightarrow> 2 * queuedFrames level c + (if ackWanted then 1 else 0))"

text \<open>
  What filling a packet does, as steps: the next frame moves from its queue to the packet, or
  a probe is spent. Every fact about a filled packet is an invariant of these steps.
\<close>

inductive fill_step ::
  "Level \<Rightarrow> SwQuicFrame list \<times> bool \<times> 'a conn_sender_scheme \<Rightarrow> SwQuicFrame list \<times> bool \<times> 'a conn_sender_scheme \<Rightarrow> bool"
  for level where
  fill_take: "hasPendingFrames level c \<Longrightarrow>
    fill_step level (frames, e, c)
      (frames @ [nextPending level c], e \<or> isAckElicitingFrame (frameType (nextPending level c)), popPending level c)"
| fill_spend: "fill_step level (frames, e, c) (frames, e, spendProbe level c)"

lemma nextPending_spend [simp]: "nextPending level (spendProbe level c) = nextPending level c"
  by (simp add: nextPending_def spendProbe_def onSpace_def)

lemma fillPacket_steps:
  "fillPacket level budget frames sz e c = Inr r \<Longrightarrow> (fill_step level)\<^sup>*\<^sup>* (frames, e, c) r"
proof (induction level budget frames sz e c rule: fillPacket.induct)
  case (1 level budget frames sz e c)
  let ?next = "nextPending level c"
  let ?size = "frameEncodedSize ?next"
  have run: "fillPacket level budget frames sz e c =
     (if \<not> hasPendingFrames level c then Inr (frames, e, c)
      else if ?size > budget \<or> sz > budget - ?size then
        (if frames = [] then Inl ''Pending QUIC frame exceeds the UDP payload ceiling'' else Inr (frames, e, c))
      else if isAckElicitingFrame (frameType ?next) then
        if canSend (c_congestion c) (sz + ?size + 64)
        then fillPacket level budget (frames @ [?next]) (sz + ?size) True (popPending level c)
        else if spc_probesPending (c_spaces c level) = 0 then Inr (frames, e, c)
        else fillPacket level budget (frames @ [?next]) (sz + ?size) True (popPending level (spendProbe level c))
      else fillPacket level budget (frames @ [?next]) (sz + ?size) e (popPending level c))"
    by (subst fillPacket.simps) (simp add: Let_def)
  consider (stop) "r = (frames, e, c)"
    | (fits) "hasPendingFrames level c" "\<not> (?size > budget \<or> sz > budget - ?size)" "isAckElicitingFrame (frameType ?next)"
        "canSend (c_congestion c) (sz + ?size + 64)"
    | (probe) "hasPendingFrames level c" "\<not> (?size > budget \<or> sz > budget - ?size)" "isAckElicitingFrame (frameType ?next)"
        "\<not> canSend (c_congestion c) (sz + ?size + 64)" "spc_probesPending (c_spaces c level) \<noteq> 0"
    | (free) "hasPendingFrames level c" "\<not> (?size > budget \<or> sz > budget - ?size)" "\<not> isAckElicitingFrame (frameType ?next)"
    using "1.prems" run by (auto split: if_splits)
  then show ?case
  proof cases
    case fits
    have "(fill_step level)\<^sup>*\<^sup>* (frames @ [?next], True, popPending level c) r"
      using "1.IH"(1) [OF _ refl refl] fits "1.prems" run by simp
    moreover have "fill_step level (frames, e, c) (frames @ [?next], True, popPending level c)"
      using fill_take [OF fits(1), of frames e] fits(3) by simp
    ultimately show ?thesis by (rule converse_rtranclp_into_rtranclp [rotated])
  next
    case probe
    have "(fill_step level)\<^sup>*\<^sup>* (frames @ [?next], True, popPending level (spendProbe level c)) r"
      using "1.IH"(2) [OF _ refl refl] probe "1.prems" run by simp
    moreover have "fill_step level (frames, e, spendProbe level c) (frames @ [?next], True, popPending level (spendProbe level c))"
      using fill_take [of level "spendProbe level c" frames e] probe(1,3) by simp
    ultimately show ?thesis using fill_spend [of level frames e c] by (metis converse_rtranclp_into_rtranclp)
  next
    case free
    have "(fill_step level)\<^sup>*\<^sup>* (frames @ [?next], e, popPending level c) r"
      using "1.IH"(3) [OF _ refl refl] free "1.prems" run by simp
    moreover have "fill_step level (frames, e, c) (frames @ [?next], e, popPending level c)"
      using fill_take [OF free(1), of frames e] free(3) by simp
    ultimately show ?thesis by (rule converse_rtranclp_into_rtranclp [rotated])
  qed simp
qed

lemma fill_queued:
  "(fill_step level)\<^sup>*\<^sup>* (frames, e, c) (frames', e', c') \<Longrightarrow>
     length frames \<le> length frames' \<and> queuedFrames level c' + length frames' = queuedFrames level c + length frames"
proof (induction "(frames', e', c')" arbitrary: frames' e' c' rule: rtranclp_induct)
  case (step y)
  obtain fs b d where y: "y = (fs, b, d)" by (metis prod_cases3)
  from step(2) show ?case
    using step(3) [OF y] queuedFrames_pop [of level d] unfolding y by cases auto
qed simp

lemma queuedFrames_commit [simp]: "queuedFrames level (commitPacket level' frames e now n t c) = queuedFrames level c"
  by (simp add: queuedFrames_def commitPacket_def onSpace_def Let_def)

lemma queuedFrames_shipped [simp]: "queuedFrames level (packetShipped level' a n c) = queuedFrames level c"
  by (simp add: queuedFrames_def packetShipped_def ackSent_def onSpace_def Let_def)

text \<open>A packet that ships changes the connection by \<open>commitPacket\<close>, one that does not changes nothing.\<close>

lemma encodePacket_shipped:
  assumes "encodePacket P level frames e now mw t c = (Inr (Some packet), c')"
  shows "c' = commitPacket level frames e now (length packet) t c \<and> length packet \<le> effectiveMaximumUdpPayloadSize c \<and>
    \<not> amplificationBlocked c (length packet) \<and>
    (\<exists>payload. protectPayload P c level (spc_nextTxPn (c_spaces c level)) payload = Inr packet)"
proof -
  obtain payload er where en: "encodeFrames frames [] = (payload, er)" by fastforce
  from assms show ?thesis unfolding encodePacket_def en Let_def prod.case
    by (cases er) (auto split: sum.splits if_splits)
qed

lemma encodePacket_kept:
  assumes "encodePacket P level frames e now mw t c = (r, c')" and "\<forall>packet. r \<noteq> Inr (Some packet)"
  shows "c' = c"
proof -
  obtain payload er where en: "encodeFrames frames [] = (payload, er)" by fastforce
  from assms show ?thesis unfolding encodePacket_def en Let_def prod.case
    by (cases er) (auto split: sum.splits if_splits)
qed

definition built :: "'c build_result + 'c build_state \<Rightarrow> 'c" where
  "built r = (case r of Inl (_, _, c) \<Rightarrow> c | Inr (_, _, c) \<Rightarrow> c)"

lemma built_simps [simp]: "built (Inl (e, out, c)) = c" "built (Inr (a, out, c)) = c"
  by (simp_all add: built_def)

definition ack_prefix :: "bool \<Rightarrow> SwQuicFrame list \<Rightarrow> bool" where
  "ack_prefix a fs \<longleftrightarrow> (if a then \<exists>f. fs = [f] \<and> frameType f = Ack else fs = [])"

lemma generatedAck_type: "generatedAck level now c = Inr f \<Longrightarrow> frameType f = Ack"
  by (auto simp: generatedAck_def buildAckFrame_def Let_def ack_def frame_def split: if_splits sum.splits list.splits)

text \<open>The ways a round can end.\<close>

lemma buildOne_cases:
  obtains (idle) error where "buildOne P level now (a, out, c) = Inl (error, out, c)"
  | (empty) e c1 where "(fill_step level)\<^sup>*\<^sup>* ([], False, c) ([], e, c1)" "buildOne P level now (a, out, c) = Inl (None, out, c1)"
  | (failed) frames0 frames e c1 error where "ack_prefix a frames0" "(fill_step level)\<^sup>*\<^sup>* (frames0, False, c) (frames, e, c1)"
      "buildOne P level now (a, out, c) = Inl (Some error, out,
         fold (restorePendingFrame level) (rev (if a then tl frames else frames)) c1)"
  | (withheld) frames0 frames e c1 where "ack_prefix a frames0" "(fill_step level)\<^sup>*\<^sup>* (frames0, False, c) (frames, e, c1)"
      "buildOne P level now (a, out, c) = Inl (None, out, fold (withholdFrame level) (rev frames) c1)"
  | (shipped) frames0 frames e c1 packet where "ack_prefix a frames0" "frames \<noteq> []"
      "(fill_step level)\<^sup>*\<^sup>* (frames0, False, c) (frames, e, c1)" "length packet \<le> effectiveMaximumUdpPayloadSize c1"
      "\<not> amplificationBlocked c1 (length packet)"
      "\<exists>payload. protectPayload P c1 level (spc_nextTxPn (c_spaces c1 level)) payload = Inr packet"
      "built (buildOne P level now (a, out, c)) =
         packetShipped level a (length packet) (commitPacket level frames e now (length packet) True c1)"
      "buildOne P level now (a, out, c) =
         Inr (False, out @ [packet], built (buildOne P level now (a, out, c))) \<or>
       buildOne P level now (a, out, c) = Inl (None, out @ [packet], built (buildOne P level now (a, out, c)))"
proof -
  let ?r = "buildOne P level now (a, out, c)"
  define go where "go \<longleftrightarrow> (hasPendingFrames level c \<or> a) \<and>
             (c_maxDatagramsPerBuild c = 0 \<or> length out < c_maxDatagramsPerBuild c) \<and>
             (c_pacingRatePerMillisecond c = 0 \<or> c_pacingTokens c > 0)"
  define start where "start = (if a then map_sum id (\<lambda>f. [f]) (generatedAck level now c) else Inr [])"
  have run: "?r = (if \<not> go then Inl (None, out, c)
       else
         (case start of
            Inl e \<Rightarrow> Inl (Some e, out, c)
          | Inr frames0 \<Rightarrow>
              (case fillPacket level (packetPayloadBudget c level) frames0 (sum_list (map frameEncodedSize frames0)) False c of
                 Inl e \<Rightarrow> Inl (Some e, out, c)
               | Inr (frames, ackEliciting, c1) \<Rightarrow>
                   if frames = [] then Inl (None, out, c1)
                   else
                     (case encodePacket P level frames ackEliciting now (- 1) True c1 of
                        (Inl e, c2) \<Rightarrow>
                          Inl (Some e, out, fold (restorePendingFrame level) (rev (if a then tl frames else frames)) c2)
                      | (Inr None, c2) \<Rightarrow> Inl (None, out, fold (withholdFrame level) (rev frames) c2)
                      | (Inr (Some packet), c2) \<Rightarrow>
                          let c3 = packetShipped level a (length packet) c2; out' = out @ [packet]
                          in if \<not> hasPendingFrames level c3 then Inl (None, out', c3)
                             else if \<not> canSend (c_congestion c3) 64 \<and> spc_probesPending (c_spaces c3 level) = 0
                             then Inl (None, out', c3)
                             else Inr (False, out', c3)))))"
    unfolding buildOne_def prod.case go_def start_def ..
  show thesis
  proof (cases "go \<and> (\<exists>frames0. start = Inr frames0)")
    case False
    then show thesis using idle run by (cases start) (auto split: if_splits)
  next
    case True
    then obtain frames0 where start: "go" "start = Inr frames0" by blast
    then have pre: "ack_prefix a frames0"
      using generatedAck_type [of level now c] by (cases "generatedAck level now c") (auto simp: start_def ack_prefix_def split: if_splits)
    note run1 = run [unfolded start(2) eqTrueI [OF start(1)] sum.case not_True_eq_False if_False]
    show thesis
    proof (cases "fillPacket level (packetPayloadBudget c level) frames0 (sum_list (map frameEncodedSize frames0)) False c")
      case (Inl e)
      then show thesis using idle run1 by simp
    next
      case (Inr r)
      obtain frames e c1 where r: "r = (frames, e, c1)" by (metis prod_cases3)
      note steps = fillPacket_steps [OF Inr, unfolded r]
      note run2 = run1 [unfolded Inr r sum.case prod.case]
      show thesis
      proof (cases "frames = []")
        case True
        then have "frames0 = []" using fill_queued [OF steps] by simp
        then show thesis using empty steps run2 True by simp
      next
        case ne: False
        obtain er c2 where en: "encodePacket P level frames e now (- 1) True c1 = (er, c2)" by fastforce
        note run3 = run2 [unfolded if_not_P [OF ne] en prod.case]
        show thesis
        proof (cases "\<exists>packet. er = Inr (Some packet)")
          case True
          then obtain packet where er: "er = Inr (Some packet)" by blast
          note sh = encodePacket_shipped [OF en [unfolded er]]
          show thesis
            by (rule shipped [OF pre ne steps]) (use sh run3 er in \<open>auto simp: Let_def\<close>)
        next
          case False
          then have c2: "c2 = c1" using encodePacket_kept [OF en] by blast
          show thesis
            using False run3 failed [OF pre steps] withheld [OF pre steps] unfolding c2 by (auto split: sum.splits option.splits)
        qed
      qed
    qed
  qed
qed

lemma buildOne_less: "buildOne P level now b = Inr b' \<Longrightarrow> buildMeasure level b' < buildMeasure level b"
proof -
  assume run: "buildOne P level now b = Inr b'"
  obtain a out c where b: "b = (a, out, c)" by (metis prod_cases3)
  show ?thesis
  proof (cases rule: buildOne_cases [of P level now a out c])
    case (shipped frames0 frames e c1 packet)
    let ?c = "built (buildOne P level now (a, out, c))"
    have "queuedFrames level ?c = queuedFrames level c1" unfolding shipped(7) by simp
    moreover have "length frames0 = (if a then 1 else 0)" using shipped(1) by (auto simp: ack_prefix_def)
    moreover have "b' = (False, out @ [packet], ?c)" using shipped(8) run b by auto
    ultimately show ?thesis using fill_queued [OF shipped(3)] shipped(2) by (cases frames) (auto simp: buildMeasure_def b split: if_splits)
  qed (use run b in auto)
qed

text \<open>The outer loop ends, since a packet that ships takes a frame from the queues or the ACK that was wanted.\<close>

function buildLoop ::
  "aes_library \<Rightarrow> Level \<Rightarrow> u64 \<Rightarrow> 'a conn_sender_scheme build_state \<Rightarrow> 'a conn_sender_scheme build_result" where
  "buildLoop P level now b = (case buildOne P level now b of Inl r \<Rightarrow> r | Inr b' \<Rightarrow> buildLoop P level now b')"
  by pat_completeness auto
termination
  by (relation "measure (\<lambda>(_, level, _, b). buildMeasure level b)") (auto intro: buildOne_less)

declare buildLoop.simps [simp del]

subsection \<open>Datagrams\<close>

definition levelCanSend :: "'a conn_sender_scheme \<Rightarrow> Level \<Rightarrow> bool" where
  "levelCanSend c level \<longleftrightarrow>
     (if spc_hasTxKeys (c_spaces c level) then True else level = LevelInitial \<and> c_plaintextInitialTx c)"

definition ackWantedNow :: "Level \<Rightarrow> u64 \<Rightarrow> 'a conn_sender_scheme \<Rightarrow> bool" where
  "ackWantedNow level now c \<longleftrightarrow>
     (let s = c_spaces c level;
          ackDue = (spc_hasAckDeadline s \<and> spc_ackDeadlineMs s \<le> now \<and> \<not> tracker_isEmpty (ackTracker s))
      in \<not> tracker_isEmpty (ackTracker s) \<and> ackElicitingPending (ackTracker s) \<and>
         (ackDue \<or> level \<noteq> LevelApplication \<or> hasPendingFrames level c))"

definition buildDatagramsForLevel ::
  "aes_library \<Rightarrow> Level \<Rightarrow> u64 \<Rightarrow> bytes list \<Rightarrow> 'a conn_sender_scheme \<Rightarrow> 'a conn_sender_scheme build_result" where
  "buildDatagramsForLevel P level now out c =
     (if \<not> levelCanSend c level then (None, out, c)
      else
        let c1 = (if level = LevelApplication then stageStreamFrames c else c)
        in buildLoop P level now (ackWantedNow level now c1, out, c1))"

definition buildCloseDatagram ::
  "(rat \<Rightarrow> rat) \<Rightarrow> aes_library \<Rightarrow> u64 \<Rightarrow> bytes list \<Rightarrow> 'a conn_sender_scheme \<Rightarrow> 'a conn_sender_scheme build_result" where
  "buildCloseDatagram rnd P now out c =
     (if \<not> c_closeQueued c \<or> c_closeSent c then (None, out, c)
      else if \<not> levelCanSend c LevelApplication \<and> \<not> levelCanSend c LevelHandshake \<and> \<not> levelCanSend c LevelInitial
      then (Some ''QUIC connection has no keys to send CONNECTION_CLOSE'', out, c)
      else
        let level = (if levelCanSend c LevelApplication then LevelApplication
                     else if levelCanSend c LevelHandshake then LevelHandshake else LevelInitial);
            f = (if c_closeIsApplication c \<and> level = LevelApplication
                 then applicationClose (c_closeErrorCode c) (c_closeReason c)
                 else if c_closeIsApplication c then connectionClose 0x0c 0 []
                 else connectionClose (c_closeErrorCode c) 0 (c_closeReason c))
        in (case encodePacket P level [f] False now (- 1) True c of
              (Inl e, c1) \<Rightarrow> (Some e, out, c1)
            | (Inr packet, c1) \<Rightarrow>
                (None, (case packet of None \<Rightarrow> out | Some d \<Rightarrow> out @ [d]), armDrainTimer rnd now (c1\<lparr>c_closeSent := True\<rparr>))))"

definition refillPacing :: "u64 \<Rightarrow> 'a conn_sender_scheme \<Rightarrow> 'a conn_sender_scheme" where
  "refillPacing now c =
     (if c_pacingRatePerMillisecond c > 0 then
        if c_pacingLastRefillMs c = 0 then c\<lparr>c_pacingLastRefillMs := now, c_pacingTokens := c_pacingMaximumBurst c\<rparr>
        else if now > c_pacingLastRefillMs c then
          let elapsed = now - c_pacingLastRefillMs c;
              added = elapsed * word_of_nat (c_pacingRatePerMillisecond c);
              available = unat (word_of_nat (c_pacingTokens c) + added)
          in c\<lparr>c_pacingTokens := (if available > c_pacingMaximumBurst c then c_pacingMaximumBurst c else available),
               c_pacingLastRefillMs := now\<rparr>
        else c
      else c)"

fun buildLevels ::
  "aes_library \<Rightarrow> u64 \<Rightarrow> Level list \<Rightarrow> bytes list \<Rightarrow> 'a conn_sender_scheme \<Rightarrow> 'a conn_sender_scheme build_result" where
  "buildLevels P now [] out c = (None, out, c)"
| "buildLevels P now (level # levels) out c =
     (if c_maxDatagramsPerBuild c > 0 \<and> length out \<ge> c_maxDatagramsPerBuild c then (None, out, c)
      else (case buildDatagramsForLevel P level now out c of
              (Some e, out1, c1) \<Rightarrow> (Some e, out1, c1)
            | (None, out1, c1) \<Rightarrow> buildLevels P now levels out1 c1))"

definition buildDatagrams ::
  "(rat \<Rightarrow> rat) \<Rightarrow> aes_library \<Rightarrow> u64 \<Rightarrow> 'a conn_sender_scheme \<Rightarrow> 'a conn_sender_scheme build_result" where
  "buildDatagrams rnd P now c =
     (let c1 = refillPacing now c in
      if c_state c1 = Draining \<or> c_state c1 = Closed then (None, [], c1)
      else if c_state c1 = Closing then buildCloseDatagram rnd P now [] c1
      else buildLevels P now allLevels [] c1)"

definition buildPathControlDatagram ::
  "aes_library \<Rightarrow> bool \<Rightarrow> bytes \<Rightarrow> u64 \<Rightarrow> u64 \<Rightarrow> 'a conn_sender_scheme \<Rightarrow> (string + bytes) \<times> 'a conn_sender_scheme" where
  "buildPathControlDatagram P response controlData now maxWireBytes c =
     (if c_state c \<noteq> Open \<or> length controlData \<noteq> 8 \<or> \<not> spc_hasTxKeys (c_spaces c LevelApplication)
      then (Inl ''Cannot build QUIC path control packet'', c)
      else (case encodePacket P LevelApplication [if response then pathResponse controlData else pathChallenge controlData]
                   True now maxWireBytes False c of
              (Inl e, c1) \<Rightarrow> (Inl e, c1)
            | (Inr None, c1) \<Rightarrow> (Inr [], c1)
            | (Inr (Some packet), c1) \<Rightarrow> (Inr packet, c1)))"

subsection \<open>Keys and paths\<close>

definition dropLevelKeys :: "Level \<Rightarrow> 'a conn_sender_scheme \<Rightarrow> 'a conn_sender_scheme" where
  "dropLevelKeys level c =
     (let c1 = (onSpace level (\<lambda>s. s\<lparr>spc_hasRxKeys := False, spc_hasTxKeys := False, spc_pendingFrames := []\<rparr>) c)
                 \<lparr>c_rxKeys := (c_rxKeys c)(level := noKeys), c_txKeys := (c_txKeys c)(level := noKeys)\<rparr>;
          c2 = (if level = LevelApplication
                then c1\<lparr>c_droppedOutgoingDatagramFrames := c_droppedOutgoingDatagramFrames c1 +
                            word_of_nat (length (c_pendingDatagramFrames c1)),
                        c_pendingDatagramFrames := [], c_pendingDatagramFrameBytes := 0, c_hasNextKeys := False,
                        c_hasPrevRxKeys := False, c_nextRxKeys := noKeys, c_nextTxKeys := noKeys, c_prevRxKeys := noKeys\<rparr>
                else c1)
      in onSpace level (\<lambda>s. s\<lparr>spc_sentPackets := [], ackTracker := clearTracker (ackTracker s),
                             spc_hasAckDeadline := False\<rparr>) c2)"

definition commitPathMigration :: "'a conn_sender_scheme \<Rightarrow> 'a conn_sender_scheme" where
  "commitPathMigration c =
     (onSpace LevelApplication (\<lambda>s. s\<lparr>spc_loss := setHandshakeConfirmed (c_handshakeConfirmed c) newLossRecovery\<rparr>) c)
       \<lparr>c_congestion := newCongestionControl, c_pathValidated := True,
        c_awaitingPathResponse := False, c_resetCcOnValidation := False, c_bytesReceivedThisPath := 0, c_bytesSentThisPath := 0\<rparr>"

end
