(* ===== verification/Quic_Receiver.thy ===== *)
theory Quic_Receiver
  imports Quic_Sender
begin

text \<open>
  The receiving half of \<open>SwQuicConnection\<close> (\<open>src/core/io/quic/SwQuicConnection.h\<close>): the packets
  of a datagram and their protection, 1-RTT key updates, the dispatch of the frames of a packet,
  the DATAGRAM queue, connection ids, stateless resets and path validation.

  The arguments are the cipher \<open>P\<close>, HKDF-Expand-Label \<open>H\<close> (the TLS key schedule) and the
  rounding \<open>rnd\<close>. A diagnostic trace that an environment variable turns on is left out.
\<close>

unbundle bit_operations_syntax

subsection \<open>State\<close>

record PathControlEvents =
  pce_challenges :: "bytes list"
  pce_responses :: "bytes list"

definition noPathEvents :: PathControlEvents where
  "noPathEvents = \<lparr>pce_challenges = [], pce_responses = []\<rparr>"

text \<open>\<open>c_pathControlEventsOut\<close> is the object the pointer member points to, \<open>None\<close> the null pointer.\<close>

record conn_receiver = conn_sender +
  c_lastInitialHeader :: SwQuicPacketHeader
  c_datagrams :: "bytes list"
  c_receivedDatagramBytes :: nat
  c_maxReceivedDatagrams :: nat
  c_maxReceivedDatagramBytes :: nat
  c_droppedReceivedDatagrams :: u64
  c_receivedDatagramFrames :: u64
  c_newTokens :: "bytes list"
  c_peerIssuedConnectionIds :: "(u64, bytes) smap"
  c_peerStatelessResetTokens :: "(u64, bytes) smap"
  c_currentPeerConnectionIdSequence :: u64
  c_cryptoReassembly :: "Level \<Rightarrow> SwQuicStream"
  c_cryptoAssembled :: "Level \<Rightarrow> bytes"
  c_lastPathChallenge :: bytes
  c_receivedPingCount :: nat
  c_sawVersionNegotiation :: bool
  c_sawRetry :: bool
  c_nextLocalCidSequence :: u64
  c_issuedConnectionIds :: "(u64, bytes) smap"
  c_pathControlEventsOut :: "PathControlEvents option"
  c_inspectPathControlOnly :: bool
  c_inspectedNonPathFrames :: bool
  c_inspectedPathPacketReplay :: bool
  c_hasLargestInspectedPathPacketNumber :: bool
  c_largestInspectedPathPacketNumber :: u64
  c_inspectedPathPacketNumbers :: "u64 list"

definition kMaxPathControlEvents :: nat where "kMaxPathControlEvents = 4"
definition kMaxInspectedPathPacketNumbers :: nat where "kMaxInspectedPathPacketNumbers = 256"
definition kMaxNewTokens :: nat where "kMaxNewTokens = 64"

text \<open>The constructor, with the member initialisers.\<close>

definition newConnection :: "Role \<Rightarrow> conn_receiver" where
  "newConnection role = conn_streams.extend (newConnStreams role)
     \<lparr>c_congestion = newCongestionControl, c_handshakeConfirmed = False, c_peerAckDelayExponent = 3,
      c_peerMaxAckDelayMs = 25, c_effectiveIdleTimeoutMs = 0, c_lastNetworkActivityMs = 0, c_hasNetworkActivity = False,
      c_drainDeadlineMs = 0, c_hasDrainDeadline = False, c_ptoCount = 0, c_closeQueued = False, c_closeReason = [],
      c_closeIsApplication = False, c_currentPhaseTxAcked = False, c_currentPhaseFirstTxPn = 0,
      c_version = 1, c_plaintextInitialTx = False, c_rxKeys = (\<lambda>_. noKeys), c_txKeys = (\<lambda>_. noKeys), c_nextRxKeys = noKeys,
      c_nextTxKeys = noKeys, c_prevRxKeys = noKeys, c_hasNextKeys = False, c_hasPrevRxKeys = False, c_keyPhase = False,
      c_keyUpdateCount = 0, c_localConnectionId = [], c_peerConnectionId = [], c_initialToken = [], c_closeSent = False,
      c_pathValidated = True, c_awaitingPathResponse = False, c_resetCcOnValidation = False, c_pathChallengeData = [],
      c_bytesReceivedThisPath = 0, c_bytesSentThisPath = 0, c_pendingDatagramFrames = [], c_pendingDatagramFrameBytes = 0,
      c_queuedDatagramFrames = 0, c_encodedDatagramFrames = 0, c_droppedOutgoingDatagramFrames = 0, c_maxDatagramsPerBuild = 0,
      c_maxPendingDatagramFrames = 0, c_maxPendingDatagramBytes = 0, c_datagramQueueOverflowPolicy = RejectNewest,
      c_maximumUdpPayloadSize = maximumUdpPayloadBytes, c_pacingRatePerMillisecond = 0, c_pacingMaximumBurst = 0,
      c_pacingLastRefillMs = 0, c_pacingTokens = 0,
      c_lastInitialHeader = newHeader, c_datagrams = [], c_receivedDatagramBytes = 0, c_maxReceivedDatagrams = 1024,
      c_maxReceivedDatagramBytes = 4194304, c_droppedReceivedDatagrams = 0, c_receivedDatagramFrames = 0, c_newTokens = [],
      c_peerIssuedConnectionIds = [], c_peerStatelessResetTokens = [], c_currentPeerConnectionIdSequence = 0,
      c_cryptoReassembly = (\<lambda>_. newStream 0 1048576 1024), c_cryptoAssembled = (\<lambda>_. []), c_lastPathChallenge = [],
      c_receivedPingCount = 0, c_sawVersionNegotiation = False, c_sawRetry = False, c_nextLocalCidSequence = 1,
      c_issuedConnectionIds = [], c_pathControlEventsOut = None, c_inspectPathControlOnly = False,
      c_inspectedNonPathFrames = False, c_inspectedPathPacketReplay = False, c_hasLargestInspectedPathPacketNumber = False,
      c_largestInspectedPathPacketNumber = 0, c_inspectedPathPacketNumbers = []\<rparr>"

subsection \<open>Keys\<close>

type_synonym hkdf = "bytes \<Rightarrow> string \<Rightarrow> nat \<Rightarrow> string + bytes"

definition deriveAes128 :: "hkdf \<Rightarrow> bytes \<Rightarrow> string + SwQuicInitialKeys" where
  "deriveAes128 H secret =
     (case H secret ''quic key'' 16 of
        Inl e \<Rightarrow> Inl e
      | Inr key \<Rightarrow>
          (case H secret ''quic iv'' 12 of
             Inl e \<Rightarrow> Inl e
           | Inr iv \<Rightarrow>
               (case H secret ''quic hp'' 16 of
                  Inl e \<Rightarrow> Inl e
                | Inr hp \<Rightarrow> Inr \<lparr>ik_secret = secret, ik_key = key, ik_iv = iv, ik_headerProtectionKey = hp\<rparr>)))"

definition nextGeneration :: "hkdf \<Rightarrow> bytes \<Rightarrow> string + bytes" where
  "nextGeneration H secret = H secret ''quic ku'' 32"

definition deriveNextGenerationKeys :: "hkdf \<Rightarrow> SwQuicInitialKeys \<Rightarrow> string + SwQuicInitialKeys" where
  "deriveNextGenerationKeys H current =
     (if ik_secret current = [] then Inl ''QUIC traffic secret unavailable for key update''
      else (case nextGeneration H (ik_secret current) of
              Inl e \<Rightarrow> Inl e
            | Inr nextSecret \<Rightarrow>
                (case deriveAes128 H nextSecret of
                   Inl e \<Rightarrow> Inl e
                 | Inr keys \<Rightarrow> Inr (keys\<lparr>ik_headerProtectionKey := ik_headerProtectionKey current\<rparr>))))"

text \<open>
  A derivation that fails leaves the keys of the next generation as they were; the source may
  have overwritten them in part, but reads them only when \<open>m_hasNextKeys\<close> is set.
\<close>

definition setLevelKeys ::
  "hkdf \<Rightarrow> Level \<Rightarrow> SwQuicInitialKeys \<Rightarrow> SwQuicInitialKeys \<Rightarrow> 'a conn_receiver_scheme \<Rightarrow> 'a conn_receiver_scheme" where
  "setLevelKeys H level rx tx c =
     (let c1 = (onSpace level (\<lambda>s. s\<lparr>spc_hasRxKeys := True, spc_hasTxKeys := True\<rparr>) c)
                 \<lparr>c_rxKeys := (c_rxKeys c)(level := rx), c_txKeys := (c_txKeys c)(level := tx)\<rparr>
      in if level = LevelApplication then
           let c2 = c1\<lparr>c_keyPhase := False, c_hasPrevRxKeys := False,
                       c_currentPhaseFirstTxPn := spc_nextTxPn (c_spaces c1 level), c_currentPhaseTxAcked := False,
                       c_keyUpdateCount := 0\<rparr>
           in (case (deriveNextGenerationKeys H rx, deriveNextGenerationKeys H tx) of
                 (Inr nextRx, Inr nextTx) \<Rightarrow> c2\<lparr>c_nextRxKeys := nextRx, c_nextTxKeys := nextTx, c_hasNextKeys := True\<rparr>
               | _ \<Rightarrow> c2\<lparr>c_hasNextKeys := False\<rparr>)
         else c1)"

definition advanceKeyPhase :: "hkdf \<Rightarrow> 'a conn_receiver_scheme call" where
  "advanceKeyPhase H c =
     (case deriveNextGenerationKeys H (c_nextRxKeys c) of
        Inl e \<Rightarrow> (Some e, c)
      | Inr followingRx \<Rightarrow>
          (case deriveNextGenerationKeys H (c_nextTxKeys c) of
             Inl e \<Rightarrow> (Some e, c)
           | Inr followingTx \<Rightarrow>
               (None, c\<lparr>c_prevRxKeys := c_rxKeys c LevelApplication, c_hasPrevRxKeys := True,
                        c_rxKeys := (c_rxKeys c)(LevelApplication := c_nextRxKeys c),
                        c_txKeys := (c_txKeys c)(LevelApplication := c_nextTxKeys c),
                        c_nextRxKeys := followingRx, c_nextTxKeys := followingTx, c_keyPhase := \<not> c_keyPhase c,
                        c_keyUpdateCount := c_keyUpdateCount c + 1,
                        c_currentPhaseFirstTxPn := spc_nextTxPn (c_spaces c LevelApplication),
                        c_currentPhaseTxAcked := False\<rparr>)))"

definition initiateKeyUpdate :: "hkdf \<Rightarrow> 'a conn_receiver_scheme call" where
  "initiateKeyUpdate H c =
     (if \<not> c_handshakeConfirmed c then (Some ''QUIC key update before handshake confirmation'', c)
      else if \<not> spc_hasRxKeys (c_spaces c LevelApplication) \<or> \<not> spc_hasTxKeys (c_spaces c LevelApplication) \<or> \<not> c_hasNextKeys c
      then (Some ''QUIC key update requires 1-RTT keys derived from traffic secrets'', c)
      else if \<not> c_currentPhaseTxAcked c
      then (Some ''QUIC key update requires an acknowledged packet in the current key phase'', c)
      else advanceKeyPhase H c)"

subsection \<open>Frames\<close>

definition processCryptoFrame :: "Level \<Rightarrow> SwQuicFrame \<Rightarrow> 'a conn_receiver_scheme call" where
  "processCryptoFrame level f c =
     (case receive (c_cryptoReassembly c level) (offset f) (data f) False of
        Inl e \<Rightarrow> (Some e, c)
      | Inr s \<Rightarrow>
          (case readContiguous s of
             (contiguous, s1) \<Rightarrow>
               (None, c\<lparr>c_cryptoReassembly := (c_cryptoReassembly c)(level := s1),
                        c_cryptoAssembled := (c_cryptoAssembled c)(level := c_cryptoAssembled c level @ contiguous)\<rparr>)))"

definition processConnectionClose ::
  "(rat \<Rightarrow> rat) \<Rightarrow> u64 \<Rightarrow> SwQuicFrame \<Rightarrow> 'a conn_receiver_scheme \<Rightarrow> 'a conn_receiver_scheme" where
  "processConnectionClose rnd now f c =
     armDrainTimer rnd now (c\<lparr>c_state := Draining, c_closeErrorCode := errorCode f, c_closeReason := reasonPhrase f\<rparr>)"

definition processDatagramFrame :: "SwQuicFrame \<Rightarrow> 'a conn_receiver_scheme call" where
  "processDatagramFrame f c =
     (let limit = maxDatagramFrameSize (c_localParams c); dataSize = length (data f) in
      if limit = 0 \<or> 1 + fst (VarInt_encodedSize (word_of_nat dataSize)) + dataSize > unat limit
      then (Some ''Peer sent an unnegotiated or oversized QUIC DATAGRAM'', c)
      else if c_maxReceivedDatagrams c > 0 \<and> length (c_datagrams c) \<ge> c_maxReceivedDatagrams c \<or>
              c_maxReceivedDatagramBytes c > 0 \<and>
                (c_receivedDatagramBytes c > c_maxReceivedDatagramBytes c \<or>
                 dataSize > c_maxReceivedDatagramBytes c - c_receivedDatagramBytes c)
      then (None, c\<lparr>c_droppedReceivedDatagrams := c_droppedReceivedDatagrams c + 1\<rparr>)
      else (None, c\<lparr>c_receivedDatagramBytes := c_receivedDatagramBytes c + dataSize,
                    c_datagrams := c_datagrams c @ [data f], c_receivedDatagramFrames := c_receivedDatagramFrames c + 1\<rparr>))"

text \<open>What the two vectors of events take in.\<close>

definition pushEvent :: "bytes \<Rightarrow> bytes list \<Rightarrow> bytes list" where
  "pushEvent d es = (if length es < kMaxPathControlEvents then es @ [d] else es)"

definition levelForPathResponse :: "'a conn_receiver_scheme \<Rightarrow> Level \<Rightarrow> Level" where
  "levelForPathResponse c receivedLevel =
     (if spc_hasTxKeys (c_spaces c LevelApplication) then LevelApplication else receivedLevel)"

definition processPathChallenge :: "Level \<Rightarrow> SwQuicFrame \<Rightarrow> 'a conn_receiver_scheme \<Rightarrow> 'a conn_receiver_scheme" where
  "processPathChallenge level f c =
     (let c1 = c\<lparr>c_lastPathChallenge := data f\<rparr> in
      case c_pathControlEventsOut c1 of
        Some ev \<Rightarrow> c1\<lparr>c_pathControlEventsOut := Some (ev\<lparr>pce_challenges := pushEvent (data f) (pce_challenges ev)\<rparr>)\<rparr>
      | None \<Rightarrow> pushPending (levelForPathResponse c1 level) (pathResponse (data f)) c1)"

definition processPathResponse :: "SwQuicFrame \<Rightarrow> 'a conn_receiver_scheme \<Rightarrow> 'a conn_receiver_scheme" where
  "processPathResponse f c =
     (case c_pathControlEventsOut c of
        Some ev \<Rightarrow> c\<lparr>c_pathControlEventsOut := Some (ev\<lparr>pce_responses := pushEvent (data f) (pce_responses ev)\<rparr>)\<rparr>
      | None \<Rightarrow>
          if c_awaitingPathResponse c \<and> data f = c_pathChallengeData c then
            let c1 = c\<lparr>c_awaitingPathResponse := False, c_pathValidated := True\<rparr>;
                c2 = (if c_resetCcOnValidation c1
                      then (onSpace LevelApplication
                              (\<lambda>s. s\<lparr>spc_loss := setHandshakeConfirmed (c_handshakeConfirmed c1) newLossRecovery\<rparr>) c1)
                             \<lparr>c_congestion := newCongestionControl, c_resetCcOnValidation := False\<rparr>
                      else c1)
            in c2\<lparr>c_bytesReceivedThisPath := 0, c_bytesSentThisPath := 0\<rparr>
          else c)"

definition processNewToken :: "SwQuicFrame \<Rightarrow> 'a conn_receiver_scheme \<Rightarrow> 'a conn_receiver_scheme" where
  "processNewToken f c =
     (if length (c_newTokens c) < kMaxNewTokens then c\<lparr>c_newTokens := c_newTokens c @ [data f]\<rparr> else c)"

definition retirePeerConnectionId :: "u64 \<Rightarrow> 'a conn_receiver_scheme \<Rightarrow> 'a conn_receiver_scheme" where
  "retirePeerConnectionId retired c =
     pushPending LevelApplication (retireConnectionId retired)
       (c\<lparr>c_peerIssuedConnectionIds := fst (smap_erase retired (c_peerIssuedConnectionIds c)),
          c_peerStatelessResetTokens := fst (smap_erase retired (c_peerStatelessResetTokens c))\<rparr>)"

definition adoptPeerConnectionIdIfRetired :: "SwQuicFrame \<Rightarrow> 'a conn_receiver_scheme \<Rightarrow> 'a conn_receiver_scheme" where
  "adoptPeerConnectionIdIfRetired f c =
     (if c_currentPeerConnectionIdSequence c \<ge> retirePriorTo f then c
      else (case cid_fromBytes (connectionId f) of
              Inl _ \<Rightarrow> c
            | Inr replacement \<Rightarrow>
                c\<lparr>c_peerConnectionId := replacement, c_currentPeerConnectionIdSequence := sequenceNumber f\<rparr>))"

definition processNewConnectionId :: "SwQuicFrame \<Rightarrow> 'a conn_receiver_scheme call" where
  "processNewConnectionId f c =
     (let sn = sequenceNumber f in
      if connectionId f = [] \<or> retirePriorTo f > sn then (Some ''Invalid NEW_CONNECTION_ID frame'', c)
      else
        let c1 = fold retirePeerConnectionId (filter (\<lambda>k. k < retirePriorTo f) (smap_keys (c_peerIssuedConnectionIds c))) c;
            c2 = c1\<lparr>c_peerStatelessResetTokens := smap_insert sn (statelessResetToken f) (c_peerStatelessResetTokens c1)\<rparr>
        in (case smap_find (c_peerIssuedConnectionIds c1) sn of
              Some existing \<Rightarrow>
                if existing \<noteq> connectionId f then (Some ''NEW_CONNECTION_ID sequence changed its connection ID'', c1)
                else if smap_find (c_peerStatelessResetTokens c1) sn \<notin> {None, Some (statelessResetToken f)}
                then (Some ''NEW_CONNECTION_ID sequence changed its reset token'', c1)
                else (None, adoptPeerConnectionIdIfRetired f c2)
            | None \<Rightarrow>
                if word_of_nat (length (c_peerIssuedConnectionIds c1)) \<ge> activeConnectionIdLimit (c_localParams c1)
                then (Some ''Peer exceeded active_connection_id_limit'', c1)
                else (None, adoptPeerConnectionIdIfRetired f
                              (c2\<lparr>c_peerIssuedConnectionIds := smap_insert sn (connectionId f) (c_peerIssuedConnectionIds c2)\<rparr>))))"

definition processRetireConnectionId :: "SwQuicFrame \<Rightarrow> 'a conn_receiver_scheme call" where
  "processRetireConnectionId f c =
     (if sequenceNumber f \<ge> c_nextLocalCidSequence c
      then (Some ''Peer retired a connection ID that was never issued'', c)
      else (None, c\<lparr>c_issuedConnectionIds := fst (smap_erase (sequenceNumber f) (c_issuedConnectionIds c))\<rparr>))"

definition processFrame :: "(rat \<Rightarrow> rat) \<Rightarrow> Level \<Rightarrow> u64 \<Rightarrow> SwQuicFrame \<Rightarrow> 'a conn_receiver_scheme call" where
  "processFrame rnd level now f c =
     (case frameType f of
        Padding \<Rightarrow> (None, c)
      | Ping \<Rightarrow> (None, c\<lparr>c_receivedPingCount := c_receivedPingCount c + 1\<rparr>)
      | Ack \<Rightarrow> processAckFrame rnd level f now c
      | Crypto \<Rightarrow> processCryptoFrame level f c
      | Stream \<Rightarrow> processStreamFrame f c
      | ConnectionClose \<Rightarrow> (None, processConnectionClose rnd now f c)
      | Datagram \<Rightarrow> processDatagramFrame f c
      | PathChallenge \<Rightarrow> (None, processPathChallenge level f c)
      | PathResponse \<Rightarrow> (None, processPathResponse f c)
      | MaxData \<Rightarrow> (None, processMaxData f c)
      | MaxStreamData \<Rightarrow> processMaxStreamData f c
      | MaxStreams \<Rightarrow> (None, processMaxStreams f c)
      | ResetStream \<Rightarrow> processResetStreamFrame f c
      | ResetStreamAt \<Rightarrow>
          if \<not> resetStreamAtFlag (c_localParams c) then (Some ''Peer sent RESET_STREAM_AT without negotiation'', c)
          else processResetStreamAtFrame f c
      | StopSending \<Rightarrow> processStopSending f c
      | NewToken \<Rightarrow> (None, processNewToken f c)
      | NewConnectionId \<Rightarrow> processNewConnectionId f c
      | RetireConnectionId \<Rightarrow> processRetireConnectionId f c
      | DataBlocked \<Rightarrow> (None, c)
      | StreamDataBlocked \<Rightarrow> (None, c)
      | StreamsBlocked \<Rightarrow> (None, c)
      | HandshakeDone \<Rightarrow>
          (None, if c_role c = Client then dropLevelKeys LevelHandshake (connSetHandshakeConfirmed True c) else c))"

subsection \<open>Packets\<close>

text \<open>
  What the path inspection notes of a packet; \<open>isInspectedReplay\<close> is its replay test, and
  nothing else of the connection changes.
\<close>

definition isInspectedReplay :: "u64 \<Rightarrow> 'a conn_receiver_scheme \<Rightarrow> bool" where
  "isInspectedReplay pn c \<longleftrightarrow>
     c_hasLargestInspectedPathPacketNumber c \<and> pn \<le> c_largestInspectedPathPacketNumber c \<and>
       c_largestInspectedPathPacketNumber c - pn \<ge> word_of_nat kMaxInspectedPathPacketNumbers \<or>
     pn \<in> set (c_inspectedPathPacketNumbers c)"

definition inspectFrame :: "SwQuicFrame \<Rightarrow> 'a conn_receiver_scheme \<Rightarrow> 'a conn_receiver_scheme" where
  "inspectFrame f c =
     (if frameType f = Padding then c
      else if frameType f = PathChallenge then
        c\<lparr>c_pathControlEventsOut :=
            map_option (\<lambda>ev. ev\<lparr>pce_challenges := pushEvent (data f) (pce_challenges ev)\<rparr>) (c_pathControlEventsOut c)\<rparr>
      else if frameType f = PathResponse then
        c\<lparr>c_pathControlEventsOut :=
            map_option (\<lambda>ev. ev\<lparr>pce_responses := pushEvent (data f) (pce_responses ev)\<rparr>) (c_pathControlEventsOut c)\<rparr>
      else c\<lparr>c_inspectedNonPathFrames := True\<rparr>)"

definition retainInspected :: "u64 \<Rightarrow> 'a conn_receiver_scheme \<Rightarrow> 'a conn_receiver_scheme" where
  "retainInspected pn c =
     (let largest = c_largestInspectedPathPacketNumber c
      in c\<lparr>c_inspectedPathPacketNumbers :=
             filter (\<lambda>i. \<not> (i \<le> largest \<and> largest - i \<ge> word_of_nat kMaxInspectedPathPacketNumbers))
               (c_inspectedPathPacketNumbers c) @ [pn]\<rparr>)"

definition inspectPacket :: "u64 \<Rightarrow> SwQuicFrame list \<Rightarrow> 'a conn_receiver_scheme \<Rightarrow> 'a conn_receiver_scheme" where
  "inspectPacket pn frames c =
     (if isInspectedReplay pn c then c\<lparr>c_inspectedPathPacketReplay := True\<rparr>
      else
        let c1 = c\<lparr>c_inspectedPathPacketReplay := False\<rparr>;
            c2 = (if \<not> c_hasLargestInspectedPathPacketNumber c1 \<or> pn > c_largestInspectedPathPacketNumber c1
                  then c1\<lparr>c_largestInspectedPathPacketNumber := pn, c_hasLargestInspectedPathPacketNumber := True\<rparr> else c1)
        in retainInspected pn (fold inspectFrame frames c2))"

text \<open>The bookkeeping of a packet that is not inspected only: the ACK tracker and the ACK deadline.\<close>

definition notePacket :: "Level \<Rightarrow> u64 \<Rightarrow> bool \<Rightarrow> u64 \<Rightarrow> Space \<Rightarrow> Space" where
  "notePacket level pn ackEliciting now s =
     (let outOfOrder = (hasLargestReceivedPn s \<and> pn \<noteq> largestReceivedPn s + 1);
          isNew = (\<not> hasLargestReceivedPn s \<or> pn > largestReceivedPn s);
          s1 = registerPacket s pn ackEliciting;
          s2 = (if isNew then s1\<lparr>spc_largestReceivedTimeMs := now\<rparr> else s1)
      in if ackEliciting then
           let s3 = s2\<lparr>spc_ackElicitingSinceAck := spc_ackElicitingSinceAck s2 + 1\<rparr>;
               immediate = (level \<noteq> LevelApplication \<or> spc_ackElicitingSinceAck s3 \<ge> 2 \<or> outOfOrder)
           in if \<not> spc_hasAckDeadline s3
              then s3\<lparr>spc_ackDeadlineMs := (if immediate then now else now + kLocalMaxAckDelayMs), spc_hasAckDeadline := True\<rparr>
              else if immediate then s3\<lparr>spc_ackDeadlineMs := now\<rparr> else s3
         else s2)"

fun processFrames :: "(rat \<Rightarrow> rat) \<Rightarrow> Level \<Rightarrow> u64 \<Rightarrow> SwQuicFrame list \<Rightarrow> 'a conn_receiver_scheme call" where
  "processFrames rnd level now [] c = (None, c)"
| "processFrames rnd level now (f # fs) c =
     (case processFrame rnd level now f c of (Some e, c1) \<Rightarrow> (Some e, c1) | (None, c1) \<Rightarrow> processFrames rnd level now fs c1)"

definition processDecodedPacket :: "(rat \<Rightarrow> rat) \<Rightarrow> Level \<Rightarrow> u64 \<Rightarrow> bytes \<Rightarrow> u64 \<Rightarrow> 'a conn_receiver_scheme call" where
  "processDecodedPacket rnd level pn payload now c =
     (case decodeFrames payload of
        (_, Some e) \<Rightarrow> (Some e, c)
      | (frames, None) \<Rightarrow>
          if c_inspectPathControlOnly c then (None, inspectPacket pn frames c)
          else processFrames rnd level now frames
                 (onSpace level (notePacket level pn (list_ex (\<lambda>f. isAckElicitingFrame (frameType f)) frames) now) c))"

definition largestReceived :: "Level \<Rightarrow> 'a conn_receiver_scheme \<Rightarrow> u64 option" where
  "largestReceived level c =
     (let s = c_spaces c level in if hasLargestReceivedPn s then Some (largestReceivedPn s) else None)"

definition skipLongHeaderPacket :: "bool \<Rightarrow> nat reader" where
  "skipLongHeaderPacket hasToken buf start =
     (case pkt_readByte buf (start + 5) of
        (Inl e, off) \<Rightarrow> (Inl e, off)
      | (Inr dcidLength, off1) \<Rightarrow>
          (case pkt_readByte buf (off1 + unat dcidLength) of
             (Inl e, off) \<Rightarrow> (Inl e, off)
           | (Inr scidLength, off2) \<Rightarrow>
               (case (if hasToken
                      then (case VarInt_decode buf (off2 + unat scidLength) of
                              (Inl e, off) \<Rightarrow> (Inl e, off)
                            | (Inr tokenLength, off) \<Rightarrow> (Inr (), off + unat tokenLength))
                      else (Inr (), off2 + unat scidLength)) of
                  (Inl e, off) \<Rightarrow> (Inl e, off)
                | (Inr _, off3) \<Rightarrow>
                    (case (if off3 \<ge> length buf then (Inl '''', off3) else VarInt_decode buf off3) of
                       (Inl _, off) \<Rightarrow> (Inl ''QUIC long header packet is truncated'', off)
                     | (Inr payloadLength, off4) \<Rightarrow>
                         if payloadLength > word_of_nat (size_sub (length buf) off4)
                         then (Inl ''QUIC long header payload is truncated'', off4)
                         else (Inr (off4 + unat payloadLength), off4)))))"

definition openShort :: "aes_library \<Rightarrow> SwQuicInitialKeys \<Rightarrow> 'a conn_receiver_scheme \<Rightarrow> bytes \<Rightarrow> string + u64 \<times> bool \<times> bytes" where
  "openShort P keys c packet =
     unprotectShortHeader1Rtt P keys packet (length (c_localConnectionId c)) (largestReceived LevelApplication c)"

text \<open>
  The three generations of keys a 1-RTT packet is tried with; the last component of the result
  tells that the peer has gone on to the next one.
\<close>

definition decryptShort :: "aes_library \<Rightarrow> 'a conn_receiver_scheme \<Rightarrow> bytes \<Rightarrow> (u64 \<times> bytes \<times> bool) option" where
  "decryptShort P c packet =
     (let other = (\<lambda>allowed keys advanced.
            if \<not> allowed then None
            else (case openShort P keys c packet of
                    Inl _ \<Rightarrow> None
                  | Inr (pn, phase, plaintext) \<Rightarrow> if phase = c_keyPhase c then None else Some (pn, plaintext, advanced)))
      in case openShort P (c_rxKeys c LevelApplication) c packet of
           Inr (pn, phase, plaintext) \<Rightarrow> Some (pn, plaintext, False)
         | Inl _ \<Rightarrow>
             (case other (c_hasNextKeys c \<and> c_handshakeConfirmed c) (c_nextRxKeys c) True of
                Some r \<Rightarrow> Some r
              | None \<Rightarrow> other (c_hasPrevRxKeys c) (c_prevRxKeys c) False))"

text \<open>The result of \<open>receivePacket_\<close>: the error, the bytes consumed, and whether the packet was authenticated.\<close>

type_synonym 'c receipt = "(string option \<times> nat \<times> bool) \<times> 'c"

definition processAuthenticated ::
  "(rat \<Rightarrow> rat) \<Rightarrow> Level \<Rightarrow> u64 \<Rightarrow> bytes \<Rightarrow> u64 \<Rightarrow> nat \<Rightarrow> bool \<Rightarrow> 'a conn_receiver_scheme \<Rightarrow> 'a conn_receiver_scheme receipt" where
  "processAuthenticated rnd level pn plaintext now consumed authenticated c =
     (case processDecodedPacket rnd level pn plaintext now c of (e, c1) \<Rightarrow> ((e, consumed, authenticated), c1))"

definition receiveShortPacket ::
  "(rat \<Rightarrow> rat) \<Rightarrow> aes_library \<Rightarrow> hkdf \<Rightarrow> bytes \<Rightarrow> u64 \<Rightarrow> 'a conn_receiver_scheme \<Rightarrow> 'a conn_receiver_scheme receipt" where
  "receiveShortPacket rnd P H packet now c =
     (let s = c_spaces c LevelApplication; consumed = length packet in
      if \<not> spc_hasRxKeys s then ((None, consumed, False), c)
      else (case decryptShort P c packet of
              None \<Rightarrow> ((None, consumed, False), c)
            | Some (pn, plaintext, peerAdvancedKeyPhase) \<Rightarrow>
                if packetNumberAlreadyConsumed s pn then ((None, consumed, False), c)
                else (case (if peerAdvancedKeyPhase then advanceKeyPhase H c else (None, c)) of
                        (Some e, c1) \<Rightarrow> ((Some e, consumed, False), c1)
                      | (None, c1) \<Rightarrow> processAuthenticated rnd LevelApplication pn plaintext now consumed True c1)))"

definition skipOr :: "bytes \<Rightarrow> bool \<Rightarrow> nat" where
  "skipOr packet hasToken = (case fst (skipLongHeaderPacket hasToken packet 0) of Inl _ \<Rightarrow> length packet | Inr n \<Rightarrow> n)"

definition receiveInitial ::
  "(rat \<Rightarrow> rat) \<Rightarrow> aes_library \<Rightarrow> bytes \<Rightarrow> u64 \<Rightarrow> 'a conn_receiver_scheme \<Rightarrow> 'a conn_receiver_scheme receipt" where
  "receiveInitial rnd P packet now c =
     (let s = c_spaces c LevelInitial in
      if spc_hasRxKeys s then
        (case unprotectInitial P (c_rxKeys c LevelInitial) packet (largestReceived LevelInitial c) of
           Inl _ \<Rightarrow> ((None, skipOr packet True, False), c)
         | Inr (header, plaintext, consumed) \<Rightarrow>
             if packetNumberAlreadyConsumed s (m_packetNumber header) then ((None, consumed, False), c)
             else processAuthenticated rnd LevelInitial (m_packetNumber header) plaintext now consumed True
                    (c\<lparr>c_lastInitialHeader := header\<rparr>))
      else
        (case fst (decodeInitialPacket True packet 0) of
           Inl e \<Rightarrow> ((Some e, 0, False), c)
         | Inr (header, plaintext, consumed) \<Rightarrow>
             processAuthenticated rnd LevelInitial (m_packetNumber header) plaintext now consumed False
               (c\<lparr>c_lastInitialHeader := header\<rparr>)))"

definition skipLong :: "bytes \<Rightarrow> 'a conn_receiver_scheme \<Rightarrow> 'a conn_receiver_scheme receipt" where
  "skipLong packet c =
     (case fst (skipLongHeaderPacket False packet 0) of Inl e \<Rightarrow> ((Some e, 0, False), c) | Inr n \<Rightarrow> ((None, n, False), c))"

definition receiveHandshake ::
  "(rat \<Rightarrow> rat) \<Rightarrow> aes_library \<Rightarrow> bytes \<Rightarrow> u64 \<Rightarrow> 'a conn_receiver_scheme \<Rightarrow> 'a conn_receiver_scheme receipt" where
  "receiveHandshake rnd P packet now c =
     (let s = c_spaces c LevelHandshake in
      if \<not> spc_hasRxKeys s then skipLong packet c
      else
        (case unprotectHandshake P (c_rxKeys c LevelHandshake) packet (largestReceived LevelHandshake c) of
           Inl _ \<Rightarrow> ((None, skipOr packet False, False), c)
         | Inr (header, plaintext, consumed) \<Rightarrow>
             if packetNumberAlreadyConsumed s (m_packetNumber header) then ((None, consumed, False), c)
             else processAuthenticated rnd LevelHandshake (m_packetNumber header) plaintext now consumed True c))"

definition receivePacket ::
  "(rat \<Rightarrow> rat) \<Rightarrow> aes_library \<Rightarrow> hkdf \<Rightarrow> bytes \<Rightarrow> u64 \<Rightarrow> 'a conn_receiver_scheme \<Rightarrow> 'a conn_receiver_scheme receipt" where
  "receivePacket rnd P H packet now c =
     (if packet = [] then ((None, 0, False), c)
      else if packet ! 0 AND 0x80 = 0 then receiveShortPacket rnd P H packet now c
      else if length packet \<ge> 5 \<and> take 4 (drop 1 packet) = [0, 0, 0, 0]
      then ((None, length packet, False), c\<lparr>c_sawVersionNegotiation := True\<rparr>)
      else if packet ! 0 AND 0x30 = 0x30 then ((None, length packet, False), c\<lparr>c_sawRetry := True\<rparr>)
      else if packet ! 0 AND 0x30 = 0 then receiveInitial rnd P packet now c
      else if packet ! 0 AND 0x30 = 0x20 then receiveHandshake rnd P packet now c
      else skipLong packet c)"

subsection \<open>Datagrams\<close>

definition kMinResetLength :: nat where "kMinResetLength = 21"
definition kTokenLength :: nat where "kTokenLength = 16"

definition matchesToken :: "bytes \<Rightarrow> bytes \<Rightarrow> bool" where
  "matchesToken dgram token =
     (if length token \<noteq> kTokenLength \<or> length dgram < kMinResetLength then False
      else
        let tail = drop (length dgram - kTokenLength) dgram
        in foldl (\<lambda>difference i. difference OR (tail ! i XOR token ! i)) 0 [0..<kTokenLength] = 0)"

definition isPeerStatelessReset :: "bytes \<Rightarrow> 'a conn_receiver_scheme \<Rightarrow> bool" where
  "isPeerStatelessReset dgram c \<longleftrightarrow>
     (if length dgram < kMinResetLength then False
      else if c_hasPeerParams c \<and> hasStatelessResetToken (c_peerParams c) \<and>
              matchesToken dgram (statelessResetTokenValue (c_peerParams c)) then True
      else list_ex (matchesToken dgram) (smap_values (c_peerStatelessResetTokens c)))"

text \<open>The coalesced packets of a datagram; the number is that of the authenticated bytes.\<close>

function receiveCoalesced ::
  "(rat \<Rightarrow> rat) \<Rightarrow> aes_library \<Rightarrow> hkdf \<Rightarrow> bytes \<Rightarrow> u64 \<Rightarrow> nat \<Rightarrow> nat \<Rightarrow> 'a conn_receiver_scheme \<Rightarrow>
     (string option \<times> nat) \<times> 'a conn_receiver_scheme" where
  "receiveCoalesced rnd P H dgram now off authenticatedBytes c =
     (if off < length dgram then
        let remainder = (if off > 0 then mid dgram (to_int off) (to_int (length dgram - off)) else dgram) in
        (case receivePacket rnd P H remainder now c of
           ((Some e, _, _), c1) \<Rightarrow> ((Some e, authenticatedBytes), c1)
         | ((None, consumed, authenticated), c1) \<Rightarrow>
             let authenticatedBytes1 = (if authenticated then authenticatedBytes + consumed else authenticatedBytes)
             in if consumed = 0 then ((None, authenticatedBytes1), c1)
                else receiveCoalesced rnd P H dgram now (off + consumed) authenticatedBytes1 c1)
      else ((None, authenticatedBytes), c))"
  by pat_completeness auto
termination by (relation "measure (\<lambda>(_, _, _, dgram, _, off, _). length dgram - off)") auto

declare receiveCoalesced.simps [simp del]

definition networkActivity :: "u64 \<Rightarrow> 'a conn_receiver_scheme \<Rightarrow> 'a conn_receiver_scheme" where
  "networkActivity now c = c\<lparr>c_lastNetworkActivityMs := now, c_hasNetworkActivity := True\<rparr>"

definition creditPath :: "nat \<Rightarrow> 'a conn_receiver_scheme \<Rightarrow> 'a conn_receiver_scheme" where
  "creditPath n c =
     (if \<not> c_pathValidated c \<and> \<not> c_inspectPathControlOnly c
      then c\<lparr>c_bytesReceivedThisPath := c_bytesReceivedThisPath c + word_of_nat n\<rparr> else c)"

text \<open>The result is the error, whether the datagram was authenticated, and how many of its bytes were.\<close>

definition receiveShortDatagram ::
  "(rat \<Rightarrow> rat) \<Rightarrow> aes_library \<Rightarrow> hkdf \<Rightarrow> bytes \<Rightarrow> u64 \<Rightarrow> 'a conn_receiver_scheme \<Rightarrow>
     (string option \<times> bool \<times> nat) \<times> 'a conn_receiver_scheme" where
  "receiveShortDatagram rnd P H dgram now c =
     (case receivePacket rnd P H dgram now c of
        ((Some e, _, _), c1) \<Rightarrow> ((Some e, False, 0), c1)
      | ((None, _, authenticated), c1) \<Rightarrow>
          if \<not> authenticated \<and> isPeerStatelessReset dgram c1 then
            ((Some ''QUIC stateless reset received'', False, 0),
             armDrainTimer rnd now (c1\<lparr>c_state := Draining, c_closeErrorCode := 0,
               c_closeReason := map of_char ''QUIC stateless reset received''\<rparr>))
          else
            let c2 = (if authenticated then creditPath (length dgram) c1 else c1);
                c3 = (if authenticated \<and> \<not> c_inspectPathControlOnly c2 then networkActivity now c2 else c2)
            in ((None, authenticated,
                 if authenticated \<and> \<not> (c_inspectPathControlOnly c1 \<and> c_inspectedPathPacketReplay c1) then length dgram else 0),
                c3))"

definition receiveDatagramImpl ::
  "(rat \<Rightarrow> rat) \<Rightarrow> aes_library \<Rightarrow> hkdf \<Rightarrow> bytes \<Rightarrow> u64 \<Rightarrow> 'a conn_receiver_scheme \<Rightarrow>
     (string option \<times> bool \<times> nat) \<times> 'a conn_receiver_scheme" where
  "receiveDatagramImpl rnd P H dgram now c =
     (let c0 = (if c_inspectPathControlOnly c then c else c\<lparr>c_touchedStreams := []\<rparr>) in
      if c_state c0 = Closed then ((Some ''Cannot receive QUIC packet on a closed connection'', False, 0), c0)
      else if dgram \<noteq> [] \<and> dgram ! 0 AND 0x80 = 0 then receiveShortDatagram rnd P H dgram now c0
      else
        (case receiveCoalesced rnd P H dgram now 0 0 c0 of
           ((Some e, _), c1) \<Rightarrow> ((Some e, False, 0), c1)
         | ((None, authenticatedBytes), c1) \<Rightarrow>
             let c2 = (if authenticatedBytes > 0 then creditPath authenticatedBytes c1 else c1);
                 c3 = (if authenticatedBytes > 0 \<and> \<not> c_inspectPathControlOnly c2 then networkActivity now c2 else c2)
             in ((None, authenticatedBytes > 0, authenticatedBytes), c3)))"

definition receiveDatagram ::
  "(rat \<Rightarrow> rat) \<Rightarrow> aes_library \<Rightarrow> hkdf \<Rightarrow> bytes \<Rightarrow> u64 \<Rightarrow> 'a conn_receiver_scheme call" where
  "receiveDatagram rnd P H dgram now c =
     (case receiveDatagramImpl rnd P H dgram now c of ((e, _), c1) \<Rightarrow> (e, c1))"

text \<open>
  The variants for a path that is not yet validated hand the path events to the driver; the
  result is the error, the events, whether there were other frames, and the authenticated bytes.
\<close>

definition receiveDatagramWithPathEvents ::
  "(rat \<Rightarrow> rat) \<Rightarrow> aes_library \<Rightarrow> hkdf \<Rightarrow> bytes \<Rightarrow> u64 \<Rightarrow> 'a conn_receiver_scheme \<Rightarrow>
     (string option \<times> PathControlEvents \<times> bool \<times> nat) \<times> 'a conn_receiver_scheme" where
  "receiveDatagramWithPathEvents rnd P H dgram now c =
     (case receiveDatagramImpl rnd P H dgram now (c\<lparr>c_pathControlEventsOut := Some noPathEvents\<rparr>) of
        ((e, authenticated, n), c1) \<Rightarrow>
          ((e, if e \<noteq> None \<or> \<not> authenticated then noPathEvents else the (c_pathControlEventsOut c1), authenticated, n),
           c1\<lparr>c_pathControlEventsOut := c_pathControlEventsOut c\<rparr>))"

definition inspectDatagramPathEvents ::
  "(rat \<Rightarrow> rat) \<Rightarrow> aes_library \<Rightarrow> hkdf \<Rightarrow> bytes \<Rightarrow> u64 \<Rightarrow> 'a conn_receiver_scheme \<Rightarrow>
     (string option \<times> PathControlEvents \<times> bool \<times> bool \<times> nat) \<times> 'a conn_receiver_scheme" where
  "inspectDatagramPathEvents rnd P H dgram now c =
     (if dgram = [] \<or> dgram ! 0 AND 0x80 \<noteq> 0
      then ((Some ''Path inspection requires a 1-RTT short header'', noPathEvents, False, False, 0), c)
      else
        (case receiveDatagramImpl rnd P H dgram now
                (c\<lparr>c_pathControlEventsOut := Some noPathEvents, c_inspectPathControlOnly := True,
                   c_inspectedNonPathFrames := False, c_inspectedPathPacketReplay := False\<rparr>) of
           ((e, authenticated, n), c1) \<Rightarrow>
             let bad = (e \<noteq> None \<or> \<not> authenticated)
             in ((e, if bad then noPathEvents else the (c_pathControlEventsOut c1),
                  \<not> bad \<and> c_inspectedNonPathFrames c1, authenticated, n),
                 c1\<lparr>c_pathControlEventsOut := c_pathControlEventsOut c, c_inspectPathControlOnly := c_inspectPathControlOnly c,
                    c_inspectedNonPathFrames := c_inspectedNonPathFrames c,
                    c_inspectedPathPacketReplay := c_inspectedPathPacketReplay c\<rparr>)))"

definition receiveInitialPacket :: "(rat \<Rightarrow> rat) \<Rightarrow> bytes \<Rightarrow> 'a conn_receiver_scheme call" where
  "receiveInitialPacket rnd packet c =
     (if c_state c = Closed then (Some ''Cannot receive QUIC packet on a closed connection'', c)
      else (case fst (decodeInitialPacket False packet 0) of
              Inl e \<Rightarrow> (Some e, c)
            | Inr (header, payload, _) \<Rightarrow>
                processDecodedPacket rnd LevelInitial (m_packetNumber header) payload 0 (c\<lparr>c_lastInitialHeader := header\<rparr>)))"

subsection \<open>Calls of the driver\<close>

text \<open>The result of the random generator is the argument \<open>random\<close>.\<close>

definition setPeerConnectionId :: "SwQuicConnectionId \<Rightarrow> 'a conn_receiver_scheme \<Rightarrow> 'a conn_receiver_scheme" where
  "setPeerConnectionId cid c =
     (let c1 = c\<lparr>c_peerConnectionId := cid, c_currentPeerConnectionIdSequence := 0\<rparr>
      in if cid = [] then c1
         else c1\<lparr>c_peerIssuedConnectionIds := smap_insert 0 cid (c_peerIssuedConnectionIds c1)\<rparr>)"

definition setNextTxPacketNumber :: "Level \<Rightarrow> u64 \<Rightarrow> 'a conn_receiver_scheme \<Rightarrow> 'a conn_receiver_scheme" where
  "setNextTxPacketNumber level pn = onSpace level (\<lambda>s. s\<lparr>spc_nextTxPn := pn\<rparr>)"

definition beginPathValidation :: "string + bytes \<Rightarrow> 'a conn_receiver_scheme \<Rightarrow> (string + bytes) \<times> 'a conn_receiver_scheme" where
  "beginPathValidation random c =
     (case random of
        Inl e \<Rightarrow> (Inl e, c)
      | Inr challenge \<Rightarrow>
          (Inr challenge, c\<lparr>c_pathChallengeData := challenge, c_awaitingPathResponse := True, c_resetCcOnValidation := True\<rparr>))"

definition matchesPathResponse :: "bytes \<Rightarrow> 'a conn_receiver_scheme \<Rightarrow> bool" where
  "matchesPathResponse d c \<longleftrightarrow> c_awaitingPathResponse c \<and> d = c_pathChallengeData c"

definition cancelPathValidation :: "'a conn_receiver_scheme \<Rightarrow> 'a conn_receiver_scheme" where
  "cancelPathValidation c = c\<lparr>c_awaitingPathResponse := False, c_resetCcOnValidation := False, c_pathChallengeData := []\<rparr>"

definition onPeerAddressChanged :: "string + bytes \<Rightarrow> u64 \<Rightarrow> 'a conn_receiver_scheme call" where
  "onPeerAddressChanged random receivedBytesOnNewPath c =
     (if c_state c \<noteq> Open then (None, c)
      else (case beginPathValidation random c of
              (Inl e, c1) \<Rightarrow> (Some e, c1)
            | (Inr challenge, c1) \<Rightarrow>
                (None, pushPending LevelApplication (pathChallenge challenge)
                   (c1\<lparr>c_pathValidated := False, c_bytesSentThisPath := 0, c_bytesReceivedThisPath := receivedBytesOnNewPath\<rparr>))))"

definition issueNewConnectionId ::
  "string + bytes \<Rightarrow> string + bytes \<Rightarrow> 'a conn_receiver_scheme \<Rightarrow> bytes \<times> 'a conn_receiver_scheme" where
  "issueNewConnectionId randomCid randomToken c =
     (case (randomCid, randomToken) of
        (Inr cid, Inr token) \<Rightarrow>
          let sn = c_nextLocalCidSequence c
          in (cid, pushPending LevelApplication (newConnectionId sn 0 cid token)
                (c\<lparr>c_nextLocalCidSequence := sn + 1, c_issuedConnectionIds := smap_insert sn cid (c_issuedConnectionIds c)\<rparr>))
      | _ \<Rightarrow> ([], c))"

definition takeDatagram :: "'a conn_receiver_scheme \<Rightarrow> bytes \<times> 'a conn_receiver_scheme" where
  "takeDatagram c =
     (case c_datagrams c of
        [] \<Rightarrow> ([], c)
      | d # ds \<Rightarrow>
          (d, c\<lparr>c_receivedDatagramBytes :=
                  (if length d \<le> c_receivedDatagramBytes c then c_receivedDatagramBytes c - length d else 0),
                c_datagrams := ds\<rparr>))"

function trimDatagrams :: "'a conn_receiver_scheme \<Rightarrow> 'a conn_receiver_scheme" where
  "trimDatagrams c =
     (if c_datagrams c \<noteq> [] \<and>
         (c_maxReceivedDatagrams c > 0 \<and> length (c_datagrams c) > c_maxReceivedDatagrams c \<or>
          c_maxReceivedDatagramBytes c > 0 \<and> c_receivedDatagramBytes c > c_maxReceivedDatagramBytes c)
      then trimDatagrams ((snd (takeDatagram c))\<lparr>c_droppedReceivedDatagrams := c_droppedReceivedDatagrams c + 1\<rparr>)
      else c)"
  by pat_completeness auto
termination
  by (relation "measure (\<lambda>c. length (c_datagrams c))") (auto simp: takeDatagram_def split: list.splits)

declare trimDatagrams.simps [simp del]

definition setMaxReceivedDatagrams :: "nat \<Rightarrow> nat \<Rightarrow> 'a conn_receiver_scheme \<Rightarrow> 'a conn_receiver_scheme" where
  "setMaxReceivedDatagrams maximumCount maximumBytes c =
     trimDatagrams (c\<lparr>c_maxReceivedDatagrams := maximumCount, c_maxReceivedDatagramBytes := maximumBytes\<rparr>)"

definition takeCryptoData :: "Level \<Rightarrow> 'a conn_receiver_scheme \<Rightarrow> bytes \<times> 'a conn_receiver_scheme" where
  "takeCryptoData level c =
     (c_cryptoAssembled c level, c\<lparr>c_cryptoAssembled := (c_cryptoAssembled c)(level := [])\<rparr>)"

definition takeTouchedStreamIds :: "'a conn_receiver_scheme \<Rightarrow> u64 list \<times> 'a conn_receiver_scheme" where
  "takeTouchedStreamIds c = (c_touchedStreams c, c\<lparr>c_touchedStreams := []\<rparr>)"

definition setDatagramPacing :: "nat \<Rightarrow> nat \<Rightarrow> 'a conn_sender_scheme \<Rightarrow> 'a conn_sender_scheme" where
  "setDatagramPacing rate maximumBurst c =
     (let burst = (if maximumBurst < rate then rate else maximumBurst)
      in c\<lparr>c_pacingRatePerMillisecond := rate, c_pacingMaximumBurst := burst, c_pacingLastRefillMs := 0,
           c_pacingTokens := burst\<rparr>)"

definition setMaxPendingDatagramFrames :: "nat \<Rightarrow> 'a conn_sender_scheme \<Rightarrow> 'a conn_sender_scheme" where
  "setMaxPendingDatagramFrames n c = enforcePendingDatagramLimits (c\<lparr>c_maxPendingDatagramFrames := n\<rparr>)"

definition setMaxPendingDatagramBytes :: "nat \<Rightarrow> 'a conn_sender_scheme \<Rightarrow> 'a conn_sender_scheme" where
  "setMaxPendingDatagramBytes n c = enforcePendingDatagramLimits (c\<lparr>c_maxPendingDatagramBytes := n\<rparr>)"

definition setMaximumUdpPayloadSize :: "nat \<Rightarrow> 'a conn_sender_scheme \<Rightarrow> bool \<times> 'a conn_sender_scheme" where
  "setMaximumUdpPayloadSize n c =
     (if n < minimumInitialUdpPayloadBytes \<or> n > maximumUdpPayloadBytes then (False, c)
      else
        let p = unat (maxUdpPayloadSize (c_peerParams c));
            effective = (if c_hasPeerParams c \<and> p \<ge> minimumInitialUdpPayloadBytes \<and> p < n then p else n);
            budget = packetPayloadBudgetForWire c LevelApplication effective
        in if list_ex (\<lambda>f. frameEncodedSize f > budget) (spc_pendingFrames (c_spaces c LevelApplication)) \<or>
              list_ex (\<lambda>f. frameEncodedSize f > budget) (c_pendingDatagramFrames c)
           then (False, c) else (True, c\<lparr>c_maximumUdpPayloadSize := n\<rparr>))"

end
