(* ===== verification/Quic_ConnectionRuns.thy ===== *)
theory Quic_ConnectionRuns
  imports Quic_ConnectionFlow Quic_Receiver
begin

text \<open>
  Runs of a whole connection (\<open>SwQuicConnection.h\<close>) and their flow control: the dispatch of every
  frame, the application's reads and sending calls, acknowledgements, timers and the building of
  packets. The functions that do not concern flow control are shown to leave alone what the
  invariant of \<open>Quic_ConnectionFlow\<close> speaks of; a run carries the ledger of what each stream
  received and was credited.
\<close>

subsection \<open>What flow control does not see\<close>

text \<open>
  Everything the invariant speaks of, but of the send streams only whether they are released, and
  of the connection's window only the receiving side. A function that leaves this alone keeps
  the invariant with the same ledger.
\<close>

definition seen where
  "seen c = (c_role c, c_localParams c, c_streamFlow c, c_streams c, c_resetStreams c, c_pendingReliableResets c,
     c_streamFinalSize c, c_retiredPeerBidiRanges c, released_in (c_sendStreams c), cfc_initialWindow (c_connectionFlow c),
     cfc_maxDataLimit (c_connectionFlow c), cfc_bytesReceived (c_connectionFlow c), cfc_bytesConsumed (c_connectionFlow c))"

lemma flow_ok_seen:
  assumes "seen c' = seen c"
  shows "flow_ok H K L c' = flow_ok H K L c"
proof -
  note s = assms [unfolded seen_def prod.inject]
  have p: "credit_pending c' = credit_pending c" using s by (simp add: credit_pending_def released_in_def fun_eq_iff)
  note r = retire_viewD [of c' c, unfolded retire_view_def prod.inject]
  show ?thesis using s p r
    by (simp add: flow_ok_def maps_ok_def windows_small_def entry_at_def ledger_at_def connection_window.covered_def
        cong: option.case_cong)
qed

lemma seen_fold: "(\<And>x c. seen (g x c) = seen c) \<Longrightarrow> seen (fold g xs c) = seen c"
  by (induction xs arbitrary: c) simp_all

lemma seen_steps [simp]:
  "seen (onSpace l g c) = seen c" "seen (pushPending l f c) = seen c" "seen (markStreamTouched sid c) = seen c"
  "seen (registerLocalStream sid c) = seen c" "seen (c\<lparr>c_bufferedStreamSendBytes := n\<rparr>) = seen c"
  "seen (c\<lparr>c_localOpenedStreams := o'\<rparr>) = seen c" "seen (removePendingSendFramesForStream sid b c) = seen c"
  "seen (removePendingSendFramesAfterReliableSize sid k c) = seen c" "seen (c\<lparr>c_streamSchedulingCursor := n\<rparr>) = seen c"
  "seen (c\<lparr>c_totalStreamBytesSent := w\<rparr>) = seen c"
  by (simp_all add: seen_def pushPending_def markStreamTouched_def registerLocalStream_def
      removePendingSendFramesForStream_def removePendingSendFramesAfterReliableSize_def)

lemma smap_find_assigned: "smap_find (smap_insert k v m) x = (if x = k then Some v else smap_find m x)"
  by (induction k v m rule: smap_insert.induct) auto

lemma seen_setSendStream:
  "tx_peerCreditPending tx = tx_peerCreditPending (sendStreamAt sid c) \<Longrightarrow> seen (setSendStream sid tx c) = seen c"
  by (auto simp: seen_def setSendStream_def released_in_def smap_find_assigned sendStreamAt_def newSendStream_def fun_eq_iff
      split: option.splits)

lemma sendStreamAt_steps [simp]:
  "sendStreamAt sid (onSpace l g c) = sendStreamAt sid c" "sendStreamAt sid (pushPending l f c) = sendStreamAt sid c"
  "sendStreamAt sid (c\<lparr>c_bufferedStreamSendBytes := n\<rparr>) = sendStreamAt sid c"
  "sendStreamAt sid (c\<lparr>c_totalStreamBytesSent := w\<rparr>) = sendStreamAt sid c"
  "sendStreamAt sid (c\<lparr>c_localOpenedStreams := o'\<rparr>) = sendStreamAt sid c"
  by (simp_all add: sendStreamAt_def pushPending_def)

subsection \<open>Calls of the application\<close>

lemma compactBuffer_released [simp]: "tx_peerCreditPending (compactBuffer tx) = tx_peerCreditPending tx"
  by (simp add: compactBuffer_def)

lemma validate_seen:
  assumes "validateSendStreamState sid c = (e, c1)"
  shows "seen c1 = seen c" and "sendStreamAt sid' c1 = sendStreamAt sid' c"
  using assms by (auto simp: validateSendStreamState_def split: if_splits)

lemma sending_seen [simp]:
  "seen (snd (sendStreamData sid d f c)) = seen c"
  "seen (snd (conn_resetStream sid code c)) = seen c"
  "seen (snd (conn_resetStreamAt sid code rel c)) = seen c"
  "seen (snd (stopReceivingStream sid code c)) = seen c"
proof -
  obtain e c1 where r: "validateSendStreamState sid c = (e, c1)" by fastforce
  note V = validate_seen [OF r]
  show "seen (snd (sendStreamData sid d f c)) = seen c"
    by (simp add: sendStreamData_def r V seen_setSendStream Let_def split: option.split)
  show "seen (snd (conn_resetStream sid code c)) = seen c"
    by (simp add: conn_resetStream_def dropUnsent_def r V seen_setSendStream Let_def split: option.split)
  show "seen (snd (conn_resetStreamAt sid code rel c)) = seen c"
    by (simp add: conn_resetStreamAt_def dropUnsent_def r V seen_setSendStream Let_def split: option.split)
  show "seen (snd (stopReceivingStream sid code c)) = seen c"
    by (simp add: stopReceivingStream_def)
qed

lemma release_flow: "flow_ok H K L c \<Longrightarrow> flow_ok H K L (snd (releasePeerBidirectionalStream sid c))"
proof -
  assume ok: "flow_ok H K L c"
  show ?thesis
  proof (cases "isPeerInitiatedBidirectional c sid \<and> smap_find (c_sendStreams c) sid \<noteq> None")
    case True
    then obtain tx where tx: "smap_find (c_sendStreams c) sid = Some tx" and b: "isPeerInitiatedBidirectional c sid" by blast
    let ?T = "smap_insert sid (tx\<lparr>tx_peerCreditPending := True\<rparr>) (c_sendStreams c)"
    have "flow_ok H K L (c\<lparr>c_sendStreams := ?T\<rparr>)"
    proof (rule flow_ok_sending [OF ok])
      fix x
      assume "credit_pending (c\<lparr>c_sendStreams := ?T\<rparr>) x"
      then have "credit_pending c x \<or> x = sid" by (auto simp: credit_pending_def released_in_def smap_find_assigned split: if_splits)
      then show "isPeerInitiatedBidirectional c x" using b ok by (auto simp: flow_ok_def retiring_ok_def)
    qed
    then show ?thesis using ok retire_flow by (auto simp: releasePeerBidirectionalStream_def tx)
  next
    case False
    then have "snd (releasePeerBidirectionalStream sid c) = c"
      by (auto simp: releasePeerBidirectionalStream_def isPeerInitiatedBidirectional_def isUnidirectional_def split: option.split)
    with ok show ?thesis by simp
  qed
qed

subsection \<open>Acknowledgements and timers\<close>

lemma acknowledgeRange_released [simp]: "tx_peerCreditPending (acknowledgeSendStreamRange off n tx) = tx_peerCreditPending tx"
  by (simp add: acknowledgeSendStreamRange_def Let_def split: prod.split)

lemma updateSendStream_seen:
  "(\<And>tx. tx_peerCreditPending (g tx) = tx_peerCreditPending tx) \<Longrightarrow> seen (updateSendStream sid g c) = seen c"
  using seen_setSendStream [of _ sid c] by (simp add: updateSendStream_def sendStreamAt_def split: option.split)

lemma acknowledgeFrame_seen [simp]: "seen (acknowledgeFrame f c) = seen c"
  by (simp add: acknowledgeFrame_def updateSendStream_seen Let_def)

lemma requeue_seen [simp]: "seen (requeueFrames l fs c) = seen c" "seen (requeueOldest_loop l m c) = seen c"
proof -
  show r: "seen (requeueFrames l fs c) = seen c" for l fs and c :: "'a conn_streams_scheme" by (simp add: requeueFrames_def seen_fold)
  show "seen (requeueOldest_loop l m c) = seen c" by (induction l m c rule: requeueOldest_loop.induct) (simp_all add: r)
qed

lemma seen_recovery_fields [simp]:
  "seen (c\<lparr>c_congestion := cc\<rparr>) = seen c" "seen (c\<lparr>c_ptoCount := n\<rparr>) = seen c" "seen (erasePacket l pn c) = seen c"
  "seen (notePhaseAcked l pns c) = seen c" "seen (refreshInFlightFlag l c) = seen c"
  by (simp_all add: seen_def erasePacket_def notePhaseAcked_def refreshInFlightFlag_def)

lemma packets_seen [simp]: "seen (acknowledgePacket l pn c) = seen c" "seen (snd (losePacket l now pn (sp, c))) = seen c"
  by (auto simp: acknowledgePacket_def losePacket_def seen_fold Let_def split: option.splits prod.splits)

lemma losses_seen [simp]: "seen (snd (fold (losePacket l now) pns (sp, c))) = seen c"
proof (induction pns arbitrary: sp c)
  case (Cons pn pns)
  obtain sp1 c1 where s: "losePacket l now pn (sp, c) = (sp1, c1)" by fastforce
  show ?case using Cons.IH [of sp1 c1] packets_seen(2) [of l now pn sp c] by (simp add: s)
qed simp

lemma processAck_flow:
  fixes c :: "'a conn_recovery_scheme"
  assumes ok: "flow_ok H K L c"
  shows "flow_ok H K L (snd (processAckFrame rnd l f now c))"
proof -
  have "flow_ok H K L (applyAckResult rnd l now res d)" if d: "seen d = seen c" for res and d :: "'a conn_recovery_scheme"
  proof -
    let ?d1 = "fold (acknowledgePacket l) (newlyAcked res) (notePhaseAcked l (newlyAcked res) d)"
    obtain sp d2 where f: "fold (losePacket l now) (lost res) (noLostSpan, ?d1) = (sp, d2)" by fastforce
    have s: "seen d2 = seen c" using losses_seen [of l now "lost res" noLostSpan ?d1] by (simp add: f seen_fold d)
    define d3 where "d3 = (if persistentCongestion rnd (spc_loss (c_spaces d2 l)) (c_peerMaxAckDelayMs d2) sp
                then d2\<lparr>c_congestion := onPersistentCongestion (c_congestion d2)\<rparr> else d2)"
    have "seen d3 = seen c" by (simp add: d3_def s)
    then have "flow_ok H K L (retireAcknowledgedPeerStreams d3)" using retire_flow ok flow_ok_seen by blast
    then show ?thesis
      unfolding applyAckResult_def f Let_def prod.case d3_def [symmetric]
      using flow_ok_seen [OF seen_recovery_fields(5)] by blast
  qed
  then show ?thesis using ok by (auto simp: processAckFrame_def split: sum.split)
qed

lemma timers_seen [simp]: "seen (onTimeout rnd now c) = seen c" "seen (armDrainTimer rnd now c) = seen c"
  "seen (close_connection code r app c) = seen c" "seen (connSetHandshakeConfirmed b c) = seen c"
  "seen (applyPeerTransportParameters ps c) = seen c"
proof -
  have "seen (probeLevel rnd now l c) = seen c" for l and c :: "'a conn_recovery_scheme"
    by (auto simp: probeLevel_def requeueOldestUnacked_def Let_def split: option.split)
  then show "seen (onTimeout rnd now c) = seen c"
    by (auto simp: onTimeout_def seen_fold) (simp_all add: seen_def)
qed (simp_all add: seen_def armDrainTimer_def close_connection_def connSetHandshakeConfirmed_def applyPeerTransportParameters_def
      connection_setPeerMaxData_def Let_def)

lemma peer_limits_seen [simp]: "seen (processMaxData f c) = seen c" "seen (snd (processMaxStreamData f c)) = seen c"
  "seen (processMaxStreams f c) = seen c" "seen (snd (processStopSending f c)) = seen c"
proof -
  obtain e c1 where r: "conn_resetStream (streamId f) (errorCode f) c = (e, c1)" by fastforce
  have "seen c1 = seen c" using sending_seen(2) [of "streamId f" "errorCode f" c] by (simp add: r)
  then show "seen (snd (processStopSending f c)) = seen c" by (simp add: processStopSending_def r split: option.split)
qed (simp_all add: seen_def processMaxData_def connection_setPeerMaxData_def processMaxStreamData_def processMaxStreams_def Let_def
      split: option.split)

subsection \<open>The other frames\<close>

lemma other_frames_seen [simp]: "seen (snd (processCryptoFrame l f c)) = seen c" "seen (processConnectionClose rnd now f c) = seen c"
  "seen (snd (processDatagramFrame f c)) = seen c" "seen (processPathChallenge l f c) = seen c" "seen (processPathResponse f c) = seen c"
  "seen (processNewToken f c) = seen c" "seen (retirePeerConnectionId k c) = seen c" "seen (adoptPeerConnectionIdIfRetired f c) = seen c"
  "seen (snd (processRetireConnectionId f c)) = seen c" "seen (dropLevelKeys l c) = seen c"
  by (auto simp: seen_def processCryptoFrame_def processConnectionClose_def processDatagramFrame_def processPathChallenge_def
      processPathResponse_def processNewToken_def retirePeerConnectionId_def adoptPeerConnectionIdIfRetired_def armDrainTimer_def
      processRetireConnectionId_def dropLevelKeys_def pushPending_def Let_def split: sum.splits prod.splits option.splits)

lemma newCid_seen [simp]: "seen (snd (processNewConnectionId f c)) = seen c"
proof -
  have f: "seen (c\<lparr>c_peerStatelessResetTokens := m\<rparr>) = seen c" "seen (c\<lparr>c_peerIssuedConnectionIds := m\<rparr>) = seen c"
    for m and c :: "'a conn_receiver_scheme" by (simp_all add: seen_def)
  show ?thesis by (auto simp: processNewConnectionId_def seen_fold f Let_def split: option.split)
qed

lemma inspect_seen [simp]: "seen (inspectPacket pn fs c) = seen c"
proof -
  have "seen (inspectFrame f c) = seen c" for f and c :: "'a conn_receiver_scheme" by (simp add: inspectFrame_def seen_def)
  then have "seen (fold inspectFrame fs c) = seen c" for fs and c :: "'a conn_receiver_scheme" by (rule seen_fold)
  then show ?thesis by (simp add: inspectPacket_def retainInspected_def Let_def) (simp add: seen_def)
qed

subsection \<open>Building packets\<close>

lemma stage_seen [simp]: "seen (snd (stageOneStreamFrame sid c)) = seen c"
proof -
  have "seen (stageChunk sid (sendStreamAt sid c) n c) = seen c" for n
    by (simp add: stageChunk_def seen_setSendStream Let_def)
  then show ?thesis by (simp add: stageOneStreamFrame_def seen_setSendStream Let_def)
qed

lemma stageLoop_seen [simp]: "seen (stageLoop b n s w k c) = seen c"
proof (induction b n s w k c rule: stageLoop.induct)
  case (1 b n s w k c)
  obtain p c1 where r: "stageOneStreamFrame (smap_keys (c_sendStreams c) ! k) c = (p, c1)" by fastforce
  then have "seen c1 = seen c" using stage_seen [of "smap_keys (c_sendStreams c) ! k" c] by simp
  then show ?case using "1.IH" [OF _ r [symmetric]] by (subst stageLoop.simps) (simp add: r)
qed

lemma stageAll_seen [simp]: "seen (stageStreamFrames c) = seen c"
  by (simp add: stageStreamFrames_def Let_def)

lemma queue_seen [simp]: "seen (popPending l c) = seen c" "seen (spendProbe l c) = seen c" "seen (restorePendingFrame l f c) = seen c"
  "seen (withholdFrame l f c) = seen c" "seen (commitPacket l fs e now n t c) = seen c" "seen (packetShipped l a n c) = seen c"
  "seen (refillPacing now c) = seen c"
  by (simp_all add: seen_def popPending_def spendProbe_def restorePendingFrame_def withholdFrame_def commitPacket_def
      packetShipped_def ackSent_def refillPacing_def Let_def)

lemma fill_seen: "(fill_step l)\<^sup>*\<^sup>* (fs, e, c) (fs', e', c') \<Longrightarrow> seen c' = seen c"
proof (induction "(fs', e', c')" arbitrary: fs' e' c' rule: rtranclp_induct)
  case (step y)
  obtain gs b d where y: "y = (gs, b, d)" by (metis prod_cases3)
  from step(2) show ?case using step(3) [OF y] unfolding y by cases auto
qed simp

lemma buildOne_seen: "seen (built (buildOne P l now (a, out, c))) = seen c"
  by (cases rule: buildOne_cases [of P l now a out c]) (use fill_seen in \<open>fastforce simp: seen_fold\<close>)+

lemma buildLoop_seen: "seen (snd (snd (buildLoop P l now b))) = seen (snd (snd b))"
proof (induction P l now b rule: buildLoop.induct)
  case (1 P l now b)
  obtain a out c where b: "b = (a, out, c)" by (metis prod_cases3)
  note one = buildOne_seen [of P l now a out c]
  show ?case
  proof (cases "buildOne P l now b")
    case (Inl r)
    then show ?thesis using one by (subst buildLoop.simps) (cases r, simp add: b)
  next
    case (Inr b')
    then show ?thesis using one "1.IH" [OF Inr] by (subst buildLoop.simps) (cases b', simp add: b)
  qed
qed

lemma buildLevel_seen: "seen (snd (snd (buildDatagramsForLevel P l now out c))) = seen c"
  by (simp add: buildDatagramsForLevel_def buildLoop_seen Let_def)

lemma buildLevels_seen: "seen (snd (snd (buildLevels P now ls out c))) = seen c"
proof (induction ls arbitrary: out c)
  case (Cons l ls)
  obtain e out1 c1 where r: "buildDatagramsForLevel P l now out c = (e, out1, c1)" by (metis prod_cases3)
  have "seen c1 = seen c" using buildLevel_seen [of P l now out c] by (simp add: r)
  then show ?case using Cons.IH [of out1 c1] by (simp add: r split: option.split)
qed simp

lemma encodePacket_seen: "seen (snd (encodePacket P l fs e now mw t c)) = seen c"
proof -
  obtain r c1 where run: "encodePacket P l fs e now mw t c = (r, c1)" by fastforce
  show ?thesis
  proof (cases "\<exists>packet. r = Inr (Some packet)")
    case True
    then show ?thesis using encodePacket_shipped run by fastforce
  next
    case False
    then show ?thesis using encodePacket_kept [OF run] run by simp
  qed
qed

lemma build_seen [simp]: "seen (snd (snd (buildDatagrams rnd P now c))) = seen c"
  "seen (snd (buildPathControlDatagram P b d now mw c)) = seen c"
proof -
  have close: "seen (snd (snd (buildCloseDatagram rnd P now [] d))) = seen d" for d :: "'a conn_sender_scheme"
  proof -
    have sent: "seen (d\<lparr>c_closeSent := True\<rparr>) = seen d" for d :: "'a conn_sender_scheme" by (simp add: seen_def)
    have "seen (snd (snd (case encodePacket P l fs False now (- 1) True d of
              (Inl e, c1) \<Rightarrow> (Some e, [], c1)
            | (Inr packet, c1) \<Rightarrow>
                (None, (case packet of None \<Rightarrow> [] | Some x \<Rightarrow> [] @ [x]), armDrainTimer rnd now (c1\<lparr>c_closeSent := True\<rparr>))))) = seen d"
      for l fs
      using encodePacket_seen [of P l fs False now "- 1" True d] by (auto simp: sent split: prod.split sum.split)
    then show ?thesis by (simp only: buildCloseDatagram_def Let_def split: if_split) simp
  qed
  show "seen (snd (snd (buildDatagrams rnd P now c))) = seen c"
    by (simp add: buildDatagrams_def close buildLevels_seen Let_def)
  show "seen (snd (buildPathControlDatagram P b d now mw c)) = seen c"
    using encodePacket_seen [of P LevelApplication "[if b then pathResponse d else pathChallenge d]" True now mw False c]
    by (auto simp: buildPathControlDatagram_def split: prod.split sum.split option.split)
qed

subsection \<open>The other calls of the driver\<close>

lemma datagram_queue_seen [simp]: "seen (dropOldestPendingDatagram c) = seen c" "seen (enforcePendingDatagramLimits c) = seen c"
  "seen (snd (reserveLoop n c)) = seen c"
proof -
  show drop: "seen (dropOldestPendingDatagram c) = seen c" for c :: "'a conn_sender_scheme"
    by (simp add: seen_def dropOldestPendingDatagram_def Let_def split: list.split)
  show "seen (enforcePendingDatagramLimits c) = seen c"
  proof (induction c rule: enforcePendingDatagramLimits.induct)
    case (1 c)
    then show ?case by (subst enforcePendingDatagramLimits.simps) (auto simp: drop)
  qed
  show "seen (snd (reserveLoop n c)) = seen c"
  proof (induction n c rule: reserveLoop.induct)
    case (1 n c)
    have "seen (c\<lparr>c_droppedOutgoingDatagramFrames := w\<rparr>) = seen c" for w by (simp add: seen_def)
    with 1 show ?case by (subst reserveLoop.simps) (auto simp: drop)
  qed
qed

lemma queueFrame_seen [simp]: "seen (queueFrame l f c) = seen c"
proof -
  obtain e c1 where r: "reservePendingDatagram (length (data f)) c = (e, c1)" by fastforce
  have "seen c1 = seen c"
    using r datagram_queue_seen(3) [of "length (data f)" c] by (auto simp: reservePendingDatagram_def seen_def split: if_splits)
  moreover have "seen (c1\<lparr>c_pendingDatagramFrames := a, c_pendingDatagramFrameBytes := n, c_queuedDatagramFrames := w\<rparr>) = seen c1"
    for a n w by (simp add: seen_def)
  ultimately have "seen (snd (queueDatagramFrame (data f) c)) = seen c"
    by (auto simp: queueDatagramFrame_def r Let_def split: option.split)
  then show ?thesis by (simp add: queueFrame_def)
qed

lemma trimDatagrams_seen [simp]: "seen (trimDatagrams c) = seen c"
proof (induction c rule: trimDatagrams.induct)
  case (1 c)
  have "seen ((snd (takeDatagram c))\<lparr>c_droppedReceivedDatagrams := w\<rparr>) = seen c" for w
    by (simp add: seen_def takeDatagram_def split: list.split)
  with 1 show ?case by (subst trimDatagrams.simps) auto
qed

lemma driver_seen [simp]: "seen (setLevelKeys H l rx tx c) = seen c" "seen (snd (advanceKeyPhase H c)) = seen c"
  "seen (snd (initiateKeyUpdate H c)) = seen c" "seen (commitPathMigration c) = seen c" "seen (setPeerConnectionId cid c) = seen c"
  "seen (snd (beginPathValidation random c)) = seen c" "seen (cancelPathValidation c) = seen c"
  "seen (snd (onPeerAddressChanged random w c)) = seen c" "seen (snd (issueNewConnectionId random random' c)) = seen c"
  "seen (snd (takeDatagram c)) = seen c" "seen (setMaxReceivedDatagrams n m c) = seen c" "seen (snd (takeCryptoData l c)) = seen c"
  "seen (snd (takeTouchedStreamIds c)) = seen c" "seen (setDatagramPacing n m c) = seen c"
  "seen (setMaxPendingDatagramFrames n c) = seen c" "seen (setMaxPendingDatagramBytes n c) = seen c"
  "seen (snd (setMaximumUdpPayloadSize n c)) = seen c" "seen (networkActivity now c) = seen c" "seen (creditPath n c) = seen c"
proof -
  have f: "seen (c\<lparr>c_maxReceivedDatagrams := n, c_maxReceivedDatagramBytes := m\<rparr>) = seen c"
    for n m and c :: "'a conn_receiver_scheme" by (simp add: seen_def)
  have g: "seen (c\<lparr>c_maxPendingDatagramFrames := n\<rparr>) = seen c" "seen (c\<lparr>c_maxPendingDatagramBytes := n\<rparr>) = seen c"
    for n and c :: "'b conn_sender_scheme" by (simp_all add: seen_def)
  show "seen (setMaxReceivedDatagrams n m c) = seen c" for c :: "'a conn_receiver_scheme" by (simp add: setMaxReceivedDatagrams_def f)
  show "seen (setMaxPendingDatagramFrames n c) = seen c" "seen (setMaxPendingDatagramBytes n c) = seen c" for c :: "'b conn_sender_scheme"
    by (simp_all add: setMaxPendingDatagramFrames_def setMaxPendingDatagramBytes_def g)
qed (auto simp: seen_def setLevelKeys_def advanceKeyPhase_def initiateKeyUpdate_def commitPathMigration_def setPeerConnectionId_def
      beginPathValidation_def cancelPathValidation_def onPeerAddressChanged_def issueNewConnectionId_def takeDatagram_def
      takeCryptoData_def takeTouchedStreamIds_def setDatagramPacing_def setMaximumUdpPayloadSize_def
      networkActivity_def creditPath_def pushPending_def Let_def split: sum.split list.split option.split prod.split)

subsection \<open>Runs of a connection\<close>

text \<open>
  The entries a frame makes in the ledger. A STREAM frame and the two resets name how far the
  stream extends; RESET\_STREAM credits the stream up to its final size, and so does
  RESET\_STREAM\_AT when nothing of the stream is to be delivered. A frame of a retired stream is
  ignored.
\<close>

definition extends_to :: "SwQuicFrame \<Rightarrow> nat" where
  "extends_to f =
     (if frameType f = Stream then unat (offset f) + length (data f)
      else if frameType f = ResetStream \<or> frameType f = ResetStreamAt then unat (finalSize f)
      else 0)"

definition resets_to :: "SwQuicFrame \<Rightarrow> nat" where
  "resets_to f =
     (if frameType f = ResetStream \<or> frameType f = ResetStreamAt \<and> reliableSize f = 0 then unat (finalSize f) else 0)"

definition enter :: "SwQuicFrame \<Rightarrow> nat \<Rightarrow> 'a conn_streams_scheme \<Rightarrow> (u64 \<Rightarrow> nat) \<Rightarrow> u64 \<Rightarrow> nat" where
  "enter f n c X = (if isRetiredPeerBidirectional c (streamId f) then X else X(streamId f := max (X (streamId f)) n))"

text \<open>
  What else a connection does between two frames: the calls of the application on its streams,
  the DATAGRAM queues, the timers, the building of packets, the calls of the driver that concern
  keys, paths, connection ids and limits, and the bookkeeping of a packet that is received.
\<close>

inductive other_step :: "'a conn_receiver_scheme \<Rightarrow> 'a conn_receiver_scheme \<Rightarrow> bool" where
  step_release: "other_step c (snd (releasePeerBidirectionalStream sid c))"
| step_send: "other_step c (snd (sendStreamData sid d b c))"
| step_sendReset: "other_step c (snd (conn_resetStream sid code c))"
| step_sendResetAt: "other_step c (snd (conn_resetStreamAt sid code rel c))"
| step_stop: "other_step c (snd (stopReceivingStream sid code c))"
| step_open: "other_step c (registerLocalStream sid c)"
| step_peerParams: "other_step c (applyPeerTransportParameters ps c)"
| step_timeout: "other_step c (onTimeout rnd now c)"
| step_build: "other_step c (snd (snd (buildDatagrams rnd P now c)))"
| step_pathControl: "other_step c (snd (buildPathControlDatagram P response d now maxWireBytes c))"
| step_close: "other_step c (close_connection code reason isApplication c)"
| step_queue: "other_step c (queueFrame level f c)"
| step_takeDatagram: "other_step c (snd (takeDatagram c))"
| step_takeCrypto: "other_step c (snd (takeCryptoData level c))"
| step_takeTouched: "other_step c (snd (takeTouchedStreamIds c))"
| step_setKeys: "other_step c (setLevelKeys hk level rx tx c)"
| step_dropKeys: "other_step c (dropLevelKeys level c)"
| step_keyUpdate: "other_step c (snd (initiateKeyUpdate hk c))"
| step_peerKeyUpdate: "other_step c (snd (advanceKeyPhase hk c))"
| step_confirm: "other_step c (connSetHandshakeConfirmed confirmed c)"
| step_peerId: "other_step c (setPeerConnectionId cid c)"
| step_newId: "other_step c (snd (issueNewConnectionId random random' c))"
| step_addressChanged: "other_step c (snd (onPeerAddressChanged random n c))"
| step_beginValidation: "other_step c (snd (beginPathValidation random c))"
| step_cancelValidation: "other_step c (cancelPathValidation c)"
| step_migrate: "other_step c (commitPathMigration c)"
| step_pacing: "other_step c (setDatagramPacing rate burst c)"
| step_pendingFrames: "other_step c (setMaxPendingDatagramFrames n c)"
| step_pendingBytes: "other_step c (setMaxPendingDatagramBytes m c)"
| step_receivedDatagrams: "other_step c (setMaxReceivedDatagrams n m c)"
| step_payloadSize: "other_step c (snd (setMaximumUdpPayloadSize payload c))"
| step_inspect: "other_step c (inspectPacket pn fs c)"
| step_activity: "other_step c (networkActivity now c)"
| step_creditPath: "other_step c (creditPath n' c)"
| step_header: "other_step c (c\<lparr>c_lastInitialHeader := header\<rparr>)"
| step_space: "other_step c (onSpace level g c)"

text \<open>
  A run with its ledger \<open>H\<close>, \<open>K\<close>, \<open>L\<close>: every frame that is accepted, every read of the
  application, and the steps above. Nothing is asked of the peer or of the application; the
  frames have the length of a datagram, and the bytes received stay below \<open>2 ^ 62\<close>, the largest
  limit a MAX\_DATA frame can grant.
\<close>

abbreviation received_small :: "'a conn_streams_scheme \<Rightarrow> bool" where
  "received_small c \<equiv> unat (cfc_bytesReceived (c_connectionFlow c)) < 2 ^ 62"

inductive flow_run :: "SwQuicTransportParameters \<Rightarrow> Role \<Rightarrow> (u64 \<Rightarrow> nat) \<Rightarrow> (u64 \<Rightarrow> nat) \<Rightarrow> (u64 \<Rightarrow> nat) \<Rightarrow> conn_receiver \<Rightarrow> bool"
  for p role where
  run_start: "flow_run p role (\<lambda>_. 0) (\<lambda>_. 0) (\<lambda>_. 0) (applyLocalTransportParameters p (newConnection role))"
| run_frame: "flow_run p role H K L c \<Longrightarrow> processFrame rnd level now f c = (None, c') \<Longrightarrow> length (data f) < 2 ^ 31 \<Longrightarrow>
    received_small c' \<Longrightarrow> flow_run p role (enter f (extends_to f) c H) (enter f (resets_to f) c K) L c'"
| run_read: "flow_run p role H K L c \<Longrightarrow> received_small c \<Longrightarrow> n = length (fst (readStream sid c)) \<Longrightarrow>
    flow_run p role H (K(sid := max (K sid + n) (reset_reached c sid))) (L(sid := read_late c sid n (L sid))) (snd (readStream sid c))"
| run_other: "flow_run p role H K L c \<Longrightarrow> other_step c c' \<Longrightarrow> flow_run p role H K L c'"

lemma other_step_flow: "other_step c c' \<Longrightarrow> flow_ok H K L c \<Longrightarrow> flow_ok H K L c'"
proof (induction rule: other_step.induct)
  case (step_release c sid)
  then show ?case by (rule release_flow)
next
  case (step_header c header)
  have "seen (c\<lparr>c_lastInitialHeader := header\<rparr>) = seen c" by (simp add: seen_def)
  then show ?case using step_header flow_ok_seen by blast
qed (rule flow_ok_seen [THEN iffD2], simp, assumption)+

lemma enter_zero [simp]: "enter f 0 c X = X"
  by (auto simp: enter_def)

lemma enter_live: "\<not> isRetiredPeerBidirectional c (streamId f) \<Longrightarrow> enter f n c X = X(streamId f := max (X (streamId f)) n)"
  by (simp add: enter_def)

lemma retired_frame:
  assumes "isRetiredPeerBidirectional c (streamId f)" and "processFrame rnd level now f c = (None, c')"
    and "frameType f \<in> {Stream, ResetStream, ResetStreamAt}"
  shows "c' = c"
  using assms
  by (auto simp: processFrame_def processStreamFrame_def processResetStreamFrame_def processResetStreamAtFrame_def Let_def
      split: if_splits)

lemma frame_flow:
  assumes ok: "flow_ok H K L c" and run: "processFrame rnd level now f c = (None, c')"
    and f: "length (data f) < 2 ^ 31" and small: "received_small c'"
  shows "flow_ok (enter f (extends_to f) c H) (enter f (resets_to f) c K) L c'"
proof (cases "frameType f \<in> {Stream, ResetStream, ResetStreamAt}")
  case False
  have "flow_ok H K L c'"
  proof (cases "frameType f = Ack")
    case True
    then show ?thesis using processAck_flow [OF ok, of rnd level f now] run by (simp add: processFrame_def)
  next
    case other: False
    have "seen (snd (processFrame rnd level now f c)) = seen c"
      using False other by (cases "frameType f") (simp_all add: processFrame_def, simp add: seen_def)
    then show ?thesis using ok flow_ok_seen [of c' c H K L] run by simp
  qed
  then show ?thesis using False by (simp add: extends_to_def resets_to_def)
next
  case stream: True
  show ?thesis
  proof (cases "isRetiredPeerBidirectional c (streamId f)")
    case True
    then show ?thesis using retired_frame [OF True run stream] ok by (simp add: enter_def)
  next
    case live: False
    note S = small [folded small_flow_def]
    consider "frameType f = Stream" | "frameType f = ResetStream" | "frameType f = ResetStreamAt" using stream by blast
    then show ?thesis
    proof cases
      case 1
      then have "processStreamFrame f c = (None, c')" using run by (simp add: processFrame_def)
      from processStreamFrame_flow [OF ok 1 f this live] show ?thesis
        using 1 by (simp add: enter_live [OF live] extends_to_def resets_to_def)
    next
      case 2
      then have "processResetStreamFrame f c = (None, c')" using run by (simp add: processFrame_def)
      from processResetStreamFrame_flow [OF ok this S live] show ?thesis
        using 2 by (simp add: enter_live [OF live] extends_to_def resets_to_def max_absorb2)
    next
      case 3
      then have "processResetStreamAtFrame f c = (None, c')" using run by (simp add: processFrame_def split: if_splits)
      from processResetStreamAtFrame_flow [OF ok this S live] show ?thesis
        using 3 by (simp add: enter_live [OF live] extends_to_def resets_to_def max_absorb2 split: if_splits)
    qed
  qed
qed

definition params_small :: "SwQuicTransportParameters \<Rightarrow> bool" where
  "params_small p \<longleftrightarrow> unat (initialMaxData p) < 2 ^ 62 \<and> unat (initialMaxStreamDataUni p) < 2 ^ 62 \<and>
     unat (initialMaxStreamDataBidiLocal p) < 2 ^ 62 \<and> unat (initialMaxStreamDataBidiRemote p) < 2 ^ 62"

lemma flow_initial: "params_small p \<Longrightarrow> flow_ok (\<lambda>_. 0) (\<lambda>_. 0) (\<lambda>_. 0) (applyLocalTransportParameters p (newConnection role))"
  using covered_new(2) [of "initialMaxData p"]
  by (simp add: flow_ok_def maps_ok_def windows_small_def retiring_ok_def entry_at_def ledger_at_def credit_pending_def released_in_def
      params_small_def applyLocalTransportParameters_def newConnection_def conn_streams.defs
      newConnStreams_def streams_ok_def newConnectionFlowControl_def)

lemma flow_run_ok:
  assumes "params_small p"
  shows "flow_run p role H K L c \<Longrightarrow> flow_ok H K L c"
proof (induction rule: flow_run.induct)
  case run_start
  then show ?case using flow_initial [OF assms] .
next
  case (run_frame H K L c rnd level now f c')
  then show ?case using frame_flow by blast
next
  case (run_read H K L c n sid)
  obtain bs m where r: "smap_readContiguous (c_streams c) sid = (bs, m)" by fastforce
  then have "fst (readStream sid c) = bs" by (simp add: readStream_def Let_def)
  then show ?case using readStream_flow [OF run_read.IH _ r] run_read.hyps by (simp add: small_flow_def fun_upd_def)
next
  case (run_other H K L c c')
  then show ?case using other_step_flow by blast
qed

text \<open>
  C36.
  Connection-level and stream-level flow control agree, and agree with what happened. In every
  run of a connection with announced windows of a legal size - any accepted frames, among them
  retransmitted and reordered data, resets and acknowledgements, any reads of the application, those of
  reset streams included, its other calls, timers and packets built - the bytes the connection counts as received are exactly the
  sum, over all streams ever seen, of how far each one extends, and the bytes it counts as
  consumed are exactly the sum of what was credited for each; both hold for retired streams too.
  No more is received than granted, and no more granted than one window beyond what was
  consumed. The counters of every live stream are its entries of the ledger, within its own
  window. What is credited for a stream is what was read until the stream is reset, never more than it
  received; after the reset it is the final size plus what was read later. So the credits exceed the bytes
  received by at most the bytes that were read from streams already reset.
\<close>

theorem connection_flow_consistent:
  assumes "params_small p" and "flow_run p role H K L c"
  shows "unat (cfc_bytesReceived (c_connectionFlow c)) = sum H UNIV \<and>
         unat (cfc_bytesConsumed (c_connectionFlow c)) = sum K UNIV \<and>
         cfc_bytesReceived (c_connectionFlow c) \<le> cfc_maxDataLimit (c_connectionFlow c) \<and>
         unat (cfc_maxDataLimit (c_connectionFlow c)) \<le>
           unat (cfc_bytesConsumed (c_connectionFlow c)) + unat (cfc_initialWindow (c_connectionFlow c)) \<and>
         sum K UNIV \<le> sum H UNIV + sum L UNIV \<and>
         (\<forall>sid. K sid \<le> H sid + L sid \<and> L sid \<le> H sid) \<and>
         (\<forall>sid flow. smap_find (c_streamFlow c) sid = Some flow \<longrightarrow>
            unat (sfc_highestReceivedOffset flow) = H sid \<and> unat (sfc_bytesConsumed flow) = K sid \<and>
            sfc_highestReceivedOffset flow \<le> sfc_maxDataLimit flow \<and>
            unat (sfc_maxDataLimit flow) \<le> unat (sfc_bytesConsumed flow) + unat (sfc_initialWindow flow) \<and>
            (smap_find (c_resetStreams c) sid \<noteq> None \<longrightarrow> K sid = H sid + L sid) \<and>
            (smap_find (c_resetStreams c) sid = None \<longrightarrow> L sid = 0 \<and>
               (\<forall>s. smap_find (c_streams c) sid = Some s \<longrightarrow> unat (m_readOffset s) = K sid)))"
proof -
  have ok: "flow_ok H K L c" by (rule flow_run_ok [OF assms])
  have conn: "connection_window.covered (c_connectionFlow c)" using ok by (simp add: flow_ok_def)
  have all: "K sid \<le> H sid + L sid \<and> L sid \<le> H sid" for sid using ok by (simp add: flow_ok_def ledger_at_def)
  have str: "unat (sfc_highestReceivedOffset flow) = H sid \<and> unat (sfc_bytesConsumed flow) = K sid \<and>
            sfc_highestReceivedOffset flow \<le> sfc_maxDataLimit flow \<and>
            unat (sfc_maxDataLimit flow) \<le> unat (sfc_bytesConsumed flow) + unat (sfc_initialWindow flow) \<and>
            (smap_find (c_resetStreams c) sid \<noteq> None \<longrightarrow> K sid = H sid + L sid) \<and>
            (smap_find (c_resetStreams c) sid = None \<longrightarrow> L sid = 0 \<and>
               (\<forall>s. smap_find (c_streams c) sid = Some s \<longrightarrow> unat (m_readOffset s) = K sid))"
    if "smap_find (c_streamFlow c) sid = Some flow" for sid flow
    using flow_entry(3-5) [OF ok that] by (auto simp: entry_Some stream_window.covered_def split: option.splits)
  have t: "unat (cfc_bytesReceived (c_connectionFlow c)) = sum H UNIV" "unat (cfc_bytesConsumed (c_connectionFlow c)) = sum K UNIV"
    using ok by (simp_all add: flow_ok_def)
  show ?thesis
    using t conn [unfolded connection_window.covered_def] flow_totals(1) [OF ok] all str by blast
qed

subsection \<open>Examples\<close>

lemmas stream_eval = processStreamFrame_def stream_def frame_def isRetiredPeerBidirectional_def isPeerInitiatedBidirectional_def
  isPeerInitiated_def rangeBelow_def enforceStreamLimit_def hasStream_def isUnidirectional_def finalSizeConflict_def
  streamFlowControl_def localStreamWindow_def newStreamFlowControl_def setStreamFlow_def stream_onDataReceived_def
  connection_onDataReceived_def newConnectionFlowControl_def deliverStreamFrame_def smap_receiveFrame_with_def smap_emplace_def
  markStreamTouched_def stream_receiveFrame_def receive_def storeFragment_def setFin_def newStream_def addWouldOverflow_def
  byteArraySliceFits_def mid_def slice_def sanitizePosition_def int_max_def to_int_def size_max_def processFrame_def
  defaultLocalParams_def newTransportParameters_def Let_def
lemmas reset_eval = processResetStreamFrame_def resetStream_def resetConflict_def countToFinalSize_def creditToFinalSize_def
  creditFlowControl_def stream_consume_def connection_consume_def shouldSendMaxStreamData_def shouldSendMaxData_def
  retireAcknowledgedPeerStreams_def smap_keys_def
lemmas read_eval = readStream_def smap_readContiguous_def streamAt_def readContiguous_def size_sub_def

definition flow_example0 :: conn_receiver where
  "flow_example0 = applyLocalTransportParameters defaultLocalParams (newConnection Server)"

definition flow_example1 :: conn_receiver where
  "flow_example1 = flow_example0
     \<lparr>c_streams := [(0, (newStream 0 262144 1024)\<lparr>m_bufferedBytes := 3, m_fragments := [(0, [1, 2, 3])]\<rparr>)],
      c_streamFlow := [(0, (newStreamFlowControl 262144)\<lparr>sfc_highestReceivedOffset := 3\<rparr>)],
      c_connectionFlow := (newConnectionFlowControl 262144)\<lparr>cfc_bytesReceived := 3\<rparr>, c_touchedStreams := [0]\<rparr>"

definition flow_example2 :: conn_receiver where
  "flow_example2 = flow_example1
     \<lparr>c_resetStreams := [(0, 9)], c_streamFinalSize := [(0, 3)],
      c_streamFlow := [(0, (newStreamFlowControl 262144)\<lparr>sfc_highestReceivedOffset := 3, sfc_bytesConsumed := 3\<rparr>)],
      c_connectionFlow := (newConnectionFlowControl 262144)\<lparr>cfc_bytesReceived := 3, cfc_bytesConsumed := 3\<rparr>\<rparr>"

lemma flow_example0_fields [simp]:
  "c_role flow_example0 = Server" "c_localParams flow_example0 = defaultLocalParams"
  "c_connectionFlow flow_example0 = newConnectionFlowControl 262144" "c_streamFlow flow_example0 = []"
  "c_streams flow_example0 = []" "c_sendStreams flow_example0 = []" "c_resetStreams flow_example0 = []"
  "c_pendingReliableResets flow_example0 = []" "c_streamFinalSize flow_example0 = []" "c_retiredPeerBidiRanges flow_example0 = []"
  "c_touchedStreams flow_example0 = []" "c_localMaxStreamsBidi flow_example0 = 100" "c_streamSchedulingCursor flow_example0 = 0"
  "c_maxStreamReassemblyBytes flow_example0 = 1048576" "c_maxStreamReassemblyFragments flow_example0 = 1024"
  by (simp_all add: flow_example0_def applyLocalTransportParameters_def newConnection_def newConnStreams_def conn_streams.defs
      defaultLocalParams_def newTransportParameters_def)

lemma flow_example0_cursor [simp]: "flow_example0\<lparr>c_streamSchedulingCursor := 0\<rparr> = flow_example0"
  using flow_example0_fields(13) by (cases flow_example0) simp

lemma flow_example_stream: "processFrame rnd LevelApplication 0 (stream 0 0 [1, 2, 3] False) flow_example0 = (None, flow_example1)"
  by (simp add: flow_example1_def stream_eval)

lemma flow_example_reset: "processFrame rnd LevelApplication 0 (resetStream 0 9 3) flow_example1 = (None, flow_example2)"
  by (simp add: flow_example1_def flow_example2_def stream_eval reset_eval)

lemma flow_example_read:
  "fst (readStream 0 flow_example2) = [1, 2, 3]" "reset_reached flow_example2 0 = 0"
  "c_connectionFlow (snd (readStream 0 flow_example2)) =
     (newConnectionFlowControl 262144)\<lparr>cfc_bytesReceived := 3, cfc_bytesConsumed := 6\<rparr>"
  by (simp_all add: flow_example1_def flow_example2_def stream_eval reset_eval read_eval reset_reached_def)

definition example_ledger :: "nat \<Rightarrow> u64 \<Rightarrow> nat" where
  "example_ledger n = (\<lambda>_. 0)(0 := n)"

lemma example_ledger_simps [simp]: "(example_ledger n)(0 := m) = example_ledger m" "example_ledger n 0 = n"
  by (simp_all add: example_ledger_def)

lemma example_ledger_zero: "(\<lambda>_. 0) = example_ledger 0"
  by (simp add: example_ledger_def fun_eq_iff)

lemma sum_example_ledger [simp]: "sum (example_ledger n) UNIV = n"
  using sum_update [of "\<lambda>_. 0" 0 n] unfolding example_ledger_def by simp

lemma example_entries:
  "extends_to (stream 0 0 [1, 2, 3] False) = 3" "resets_to (stream 0 0 [1, 2, 3] False) = 0"
  "extends_to (resetStream 0 9 3) = 3" "resets_to (resetStream 0 9 3) = 3"
  "enter (stream 0 0 [1, 2, 3] False) n flow_example0 (example_ledger k) = example_ledger (max k n)"
  "enter (resetStream 0 9 3) n flow_example1 (example_ledger k) = example_ledger (max k n)"
  by (simp_all add: extends_to_def resets_to_def enter_def stream_def resetStream_def frame_def isRetiredPeerBidirectional_def
      rangeBelow_def flow_example1_def)

lemma flow_example_run:
  "flow_run defaultLocalParams Server (example_ledger 3) (example_ledger 6) (example_ledger 3) (snd (readStream 0 flow_example2))"
proof -
  have small: "received_small flow_example1" "received_small flow_example2"
    by (simp_all add: flow_example1_def flow_example2_def)
  have len: "length (data (stream 0 0 [1, 2, 3] False)) < 2 ^ 31" "length (data (resetStream 0 9 3)) < 2 ^ 31"
    by (simp_all add: stream_def resetStream_def frame_def)
  have run: "flow_run defaultLocalParams Server (example_ledger 0) (example_ledger 0) (example_ledger 0) flow_example0"
    unfolding flow_example0_def example_ledger_zero [symmetric] by (rule run_start)
  note run1 = run_frame [OF run flow_example_stream [of "\<lambda>x. x"] len(1) small(1), unfolded example_entries]
  note run2 = run_frame [OF run1 flow_example_reset [of "\<lambda>x. x"] len(2) small(2), unfolded example_entries]
  have reset: "smap_find (c_resetStreams flow_example2) 0 = Some 9" by (simp add: flow_example2_def)
  have n: "length (fst (readStream 0 flow_example2)) = 3" by (simp add: flow_example_read(1))
  from run_read [OF run2 small(2) n [symmetric]] show ?thesis
    by (simp add: read_late_def reset flow_example_read(2))
qed

theorem connection_flow_consistent_witness:
  "unat (cfc_bytesReceived (c_connectionFlow (snd (readStream 0 flow_example2)))) = sum (example_ledger 3) UNIV \<and>
   unat (cfc_bytesConsumed (c_connectionFlow (snd (readStream 0 flow_example2)))) = sum (example_ledger 6) UNIV \<and>
   cfc_bytesReceived (c_connectionFlow (snd (readStream 0 flow_example2))) = 3 \<and>
   cfc_bytesConsumed (c_connectionFlow (snd (readStream 0 flow_example2))) = 6"
proof -
  have "params_small defaultLocalParams" by (simp add: params_small_def defaultLocalParams_def newTransportParameters_def)
  from connection_flow_consistent [OF this flow_example_run] show ?thesis using flow_example_read(3) by simp
qed

text \<open>
  The credits of the example are too many: the reset credits the three bytes that are buffered, and
  the application, which reads every stream a datagram touched, reads them afterwards and credits
  them again. Three bytes are received, and six are counted as consumed.
\<close>

theorem read_after_reset_overcredits:
  "processFrame rnd LevelApplication 0 (stream 0 0 [1, 2, 3] False) flow_example0 = (None, flow_example1) \<and>
   processFrame rnd LevelApplication 0 (resetStream 0 9 3) flow_example1 = (None, flow_example2) \<and>
   fst (readStream 0 flow_example2) = [1, 2, 3] \<and>
   cfc_bytesReceived (c_connectionFlow (snd (readStream 0 flow_example2))) = 3 \<and>
   cfc_bytesConsumed (c_connectionFlow (snd (readStream 0 flow_example2))) = 6"
  using flow_example_stream flow_example_reset flow_example_read by simp

end
