(* ===== verification/Spec2Isabelle.thy ===== *)
theory Spec2Isabelle
  imports Quic_FrameCodec Quic_Replay Quic_FlowControl Quic_Dplpmtud Quic_Congestion Quic_StreamMap Quic_Packet
    Quic_TransportParameters Http3_FrameCodec Quic_LossRecovery Sw_RingBuffer Qpack_Codec Quic_ConnectionRuns
begin

text \<open>
  Verification of the transport core of SwStack: the QUIC stack of \<open>src/core/io/quic\<close>, the
  HTTP/3 framing and field compression of \<open>src/core/io/http3\<close>, and the containers of
  \<open>src/core/types\<close> they stand on. Paths are relative to the root of the repository.

  \<^bold>\<open>The program.\<close> A \<open>SwQuicConnection\<close> takes datagrams from its driver (\<open>receiveDatagram\<close>),
  opens the packets in them (\<open>SwQuicPacketProtector\<close>, \<open>SwQuicPacketCodec\<close>), decodes their frames
  (\<open>SwQuicFrameCodec\<close>, \<open>SwQuicVarIntCodec\<close>) and dispatches each one (\<open>processFrame_\<close>): stream data
  goes through flow control (\<open>SwQuicFlowControl\<close>) to the reassembly of its stream
  (\<open>SwQuicStreamMap\<close>, \<open>SwQuicStream\<close>), ACK frames go to loss recovery and congestion control
  (\<open>SwQuicLossRecovery\<close>, \<open>SwQuicCongestionControl\<close>), and the packet number of every packet to the
  ACK tracker (\<open>SwQuicAckTracker\<close>). The application reads and writes streams; \<open>buildDatagrams\<close> turns
  the queued frames, retransmissions and probes into packets, within the congestion window and
  the anti-amplification limit; \<open>onTimeout\<close> runs the timers. The connection is one object
  without locks or callbacks, so that a run is the sequence of the calls of its driver.

  \<^bold>\<open>Theories and sources.\<close>

  \<^item> \<open>Sw_Prelude\<close>: words, byte buffers, and the two calling conventions of the C++ code (writers
    into a buffer, readers at an offset) with the facts shared by all codecs. \<open>Sw_ByteArray\<close>:
    \<open>SwByteArray::mid\<close>. \<open>Sw_Map\<close>: \<open>SwMap\<close>, a sorted list of entries, behind the locale
    \<open>ordered_map\<close>. \<open>Sw_Ranges\<close>: merging of ranges, behind the locale \<open>touching_ranges\<close>, which the
    acknowledged bytes of a stream and the retired streams both use.
    \<open>Sw_RingBuffer\<close>: \<open>SwByteRingBuffer\<close>.
  \<^item> \<open>Quic_VarInt\<close>, \<open>Quic_Frame\<close>, \<open>Quic_FrameCodec\<close>, \<open>Quic_Packet\<close>, \<open>Quic_TransportParameters\<close>,
    \<open>Http3_FrameCodec\<close>: the codecs of the wire formats, one theory per header of the same name.
    \<open>Hpack_Huffman\<close>, \<open>Qpack_Codec\<close>: the Huffman code, with its table of 257 entries, and the QPACK
    encoder and decoder, with the static table.
  \<^item> \<open>Quic_AckTracker\<close>, \<open>Quic_Replay\<close>: the received packet numbers, the ACK frame made of them,
    the rebuilding of its ranges by the peer, and the replay test.
  \<^item> \<open>Quic_FlowControl\<close>, \<open>Quic_Dplpmtud\<close>, \<open>Quic_Congestion\<close>, \<open>Quic_LossRecovery\<close>, \<open>Quic_Stream\<close>,
    \<open>Quic_StreamMap\<close>: the classes of the same names.
  \<^item> \<open>Quic_Protector\<close>: \<open>SwQuicPacketProtector\<close>.
  \<^item> \<open>SwQuicConnection.h\<close> is split by subject, and its state grows with the theories as one
    extensible record: \<open>Quic_SendStream\<close> (\<open>SendStream_\<close>), \<open>Quic_Connection\<close> (\<open>conn_streams\<close>: streams,
    resets, credit, retirement), \<open>Quic_Recovery\<close> (\<open>conn_recovery\<close>: acknowledgements, losses, timers,
    limits of the peer), \<open>Quic_Sender\<close> (\<open>conn_sender\<close>: staging, packets, datagrams) and
    \<open>Quic_Receiver\<close> (\<open>conn_receiver\<close>: packets, keys, dispatch, paths). The record \<open>conn_receiver\<close> is
    the whole object, \<open>newConnection\<close> its constructor.
  \<^item> \<open>Quic_ConnectionFlow\<close> and \<open>Quic_ConnectionRuns\<close>: flow control of a whole connection, the
    invariant of its handlers and the runs. This theory: an acknowledgement from end to end.

  \<^bold>\<open>How the state corresponds.\<close> A class is a record with the members of the class; a method is a
  function of the same name from the state to the new state, with its result; a member function
  whose name ends in an underscore loses it. \<open>uint64_t\<close> and the other fixed widths are words and wrap
  as in C++; \<open>size_t\<close> is a natural number, where the code subtracts or converts it
  explicitly modulo \<open>2 ^ 64\<close> (\<open>size_sub\<close>, \<open>to_int\<close>). \<open>SwByteArray\<close> and the sequence containers are lists,
  \<open>SwMap\<close> is \<open>smap\<close>. \<open>bool\<close> with an error string is a sum, or the error beside the state
  where the code keeps what it changed before it failed. Loops are recursive functions that are
  proved to terminate; there is no fuel anywhere. Preconditions of size (a buffer below \<open>2 ^ 31\<close> bytes,
  the \<open>int\<close> of the \<open>SwByteArray\<close> interface) are hypotheses of the theorems that need them.

  \<^bold>\<open>What the lemmas show.\<close>

  \<^item> Codecs: encoding and decoding are inverse on well-formed values, at any place of a buffer;
    what is decoded from arbitrary bytes is within the buffer, within the limits the code
    checks, and well formed. The Huffman decoder accepts exactly the encodings: the table is a
    prefix code, by computation, and the locale \<open>prefix_code\<close> does the rest.
  \<^item> Packet numbers: the tracker holds exactly what was received within its window, the ACK
    frame names exactly that, the peer rebuilds it, and no packet is accepted twice. Loss recovery splits the
    outstanding packets into acknowledged, lost and kept ones by the exact conditions.
  \<^item> Streams: reassembly delivers a prefix of what was sent, whatever the order and overlap of
    the frames, all of it when all arrived, within the budget. A sending stream
    takes for acknowledged exactly the bytes that were.
  \<^item> Flow control: the locale \<open>credit_window\<close> states the contract of a window; both
    classes are interpretations of it. In a whole connection the counters are exactly the sums
    over the streams of what each received and was credited.
  \<^item> Congestion control and path MTU discovery: the bytes in flight are exactly those of the
    packets in flight, one reduction per flight; the search ends in logarithmically
    many rounds at the size the path carries.
  \<^item> Protection: what one side protects the other opens, for Initial, Handshake and 1-RTT
    packets.

  The interfaces are locales: \<open>wire_format\<close> and \<open>wire_sequence\<close> of the codecs, \<open>ordered_map\<close>,
  \<open>touching_ranges\<close>, \<open>packet_history\<close> of the replay test, \<open>credit_window\<close>, \<open>prefix_code\<close> and
  \<open>byte_queue\<close> of the ring buffer. Each is interpreted on the definitions of the model.

  \<^bold>\<open>Parameters.\<close> The AES library is a record of functions, whose documented behaviour is a
  named hypothesis (\<open>aes_ok\<close>; a concrete instance satisfies it); HKDF-Expand-Label and the
  random generator are arguments that only pass results through. A \<open>double\<close> is a rational number and every operation on
  it is rounded by the argument \<open>rnd\<close>, of which only what IEEE 754 promises is assumed.

  \<^bold>\<open>What the model shows to be wrong in the code.\<close> \<open>decodeInteger_\<close> of QPACK accepts integers above
  \<open>2 ^ 64\<close> modulo \<open>2 ^ 64\<close> (\<open>Qpack_Codec\<close>). Data that is buffered when its stream is reset is credited
  twice when the application reads it (\<open>read_after_reset_overcredits\<close> in \<open>Quic_ConnectionRuns\<close>). Transport
  parameters above some of the limits of RFC 9000 are accepted (\<open>unchecked_limits\<close> in
  \<open>Quic_TransportParameters\<close>).

  \<^bold>\<open>What is not modelled.\<close> The TLS 1.3 handshake, certificates, key schedule, Retry packets and
  session tickets, which rest on cryptographic libraries; the endpoints, that is UDP sockets, the routing of
  datagrams and the event loop; the request layers of HTTP/3 and WebTransport. Of \<open>SwQuicConnection\<close>
  only diagnostic traces and counters are left out. Outside the transport core
  nothing is modelled: HTTP/1.1, WebSocket, mail, devices, runtime, storage, remote
  objects, media, GUI, tools and third-party code.
\<close>

section \<open>An acknowledgement from the receiver to the sender\<close>

lemma length_varint: "vi v \<Longrightarrow> length (varint_bytes v) \<le> 8"
  by (simp add: varint_bytes_length VarInt_encodedSize_def)

lemma length_ackRanges_bytes:
  "list_all (\<lambda>r. vi (gap r) \<and> vi (rangeLength r)) rs \<Longrightarrow> length (ackRanges_bytes rs) \<le> 16 * length rs"
proof (induction rs)
  case (Cons r rs)
  then show ?case using length_varint [of "gap r"] length_varint [of "rangeLength r"]
    by (simp add: ackRanges_bytes_def)
qed (simp add: ackRanges_bytes_def)

lemma length_ack_bytes:
  fixes rs :: "AckRange list"
  assumes [simp]: "vi a" "vi b" "vi c" and len: "length rs \<le> 8192"
    and rs: "list_all (\<lambda>r. vi (gap r) \<and> vi (rangeLength r)) rs"
  shows "length (frame_bytes (ack a b c rs)) < 2 ^ 31"
proof -
  let ?n = "word_of_nat (length rs) :: u64"
  have un: "unat ?n = length rs" using len by (simp add: unsigned_of_nat take_bit_nat_eq_self)
  have [simp]: "vi ?n" "\<not> 8192 < ?n"
    using len un by (simp_all add: maxValue_def word_le_nat_alt word_less_nat_alt)
  let ?bs = "varint_bytes a @ varint_bytes b @ varint_bytes ?n @ varint_bytes c @ ackRanges_bytes rs @ []"
  note enc = appends_seqW [OF appends_ackRanges [OF rs]]
  note [simp del] = unsigned_of_nat append_Nil2
  note [simp] = codec_simps codec_pieces enc
  have "appends (encodeFrame (ack a b c rs)) (0x02 # ?bs)" by simp
  then have "frame_bytes (ack a b c rs) = 0x02 # ?bs" by (simp only: frame_bytes_def appends_fst)
  moreover have "length ?bs \<le> 32 + 16 * 8192"
    using length_varint [OF assms(1)] length_varint [OF assms(2)] length_varint [OF assms(3)] length_varint [of ?n]
      length_ackRanges_bytes [OF rs] len by simp
  ultimately show ?thesis by simp
qed

lemma inRange_range_pair: "ranges_ok rs \<Longrightarrow> r \<in> set rs \<Longrightarrow> inRange (range_pair r) pn \<longleftrightarrow> low r \<le> pn \<and> pn \<le> high r"
  by (induction rs) (auto simp: ranges_ok_Cons range_pair_def inRange_def range_low_def range_high_def)

text \<open>
  C39. The receiver acknowledges what it received: for every reachable tracker with a packet
  number that fits, the ACK frame is built, its encoding decodes to it, the ranges the sender
  rebuilds name exactly the packets the tracker holds, and the loss recovery of the sender
  takes exactly those off its list of outstanding packets and declares none of them lost.
\<close>

theorem acknowledgement_end_to_end:
  assumes "tracker_reachable t" and "\<not> tracker_isEmpty t"
    and "largestReceivedPacket t \<le> maxValue" and "delay \<le> maxValue" and "smap_ok (m_sent l)"
  shows "\<exists>f payload ranges. buildAckFrame t delay = Inr f \<and> encodeFrames [f] [] = (payload, None) \<and>
    decodeFrames payload = ([f], None) \<and> rebuildAckRanges f = Inr ranges \<and>
    (\<forall>rnd d now out l'. onAckReceived rnd (largestAcknowledged f) d ranges now l = Inr (out, l') \<longrightarrow>
      set (newlyAcked out) = {pn \<in> fst ` set (m_sent l). containsReceivedPacket t pn} \<and>
      (\<forall>pn\<in>set (lost out). \<not> containsReceivedPacket t pn))"
proof -
  have inv: "tracker_inv t" using assms(1) by (rule reachable_inv)
  then have ok: "ranges_ok (m_ranges t)" by (simp add: tracker_inv_def)
  have ne: "m_ranges t \<noteq> []" using assms(2) by (simp add: tracker_isEmpty_def)
  obtain f where f: "buildAckFrame t delay = Inr f" "wf_frame f" "frameType f = Ack" "\<not> hasEcn f"
      "largestAcknowledged f = largestReceivedPacket t" "rebuildAckRanges f = Inr (map range_pair (m_ranges t))"
    using inv assms(2-4) by (rule buildAckFrame_ok)
  have "length (frame_bytes f) < 2 ^ 31"
    using f(2-4) length_ack_bytes [of "largestAcknowledged f" "ackDelay f" "firstAckRange f" "ackRanges f"]
    by (simp add: wf_frame_def)
  then have "encodeFrames [f] [] = (frame_bytes f, None)" "decodeFrames (frame_bytes f) = ([f], None)"
    using f(2) encodeFrames_wf [of "[f]" "[]"] decodeFrames_separated [of "[f]"] by simp_all
  moreover have acked: "isAcked pn (largestAcknowledged f) (map range_pair (m_ranges t)) \<longleftrightarrow> containsReceivedPacket t pn" for pn
    using f(5) ok ne hd_in_rset [OF ok ne]
    by (auto simp: isAcked_iff inRange_range_pair [OF ok] rset_def containsReceivedPacket_def contains_loop_iff largest_hd)
  ultimately show ?thesis
    using f(1,6) onAckReceived_Inr(1,3) [OF assms(5), where la = "largestAcknowledged f" and rs = "map range_pair (m_ranges t)"]
    by (intro exI [of _ f] exI [of _ "frame_bytes f"] exI [of _ "map range_pair (m_ranges t)"]) (auto simp: acked)
qed

theorem acknowledgement_end_to_end_witness:
  "\<exists>f payload ranges.
    buildAckFrame (recordReceivedPacket 9 False (recordReceivedPacket 7 True (recordReceivedPacket 4 True newAckTracker))) 25 = Inr f \<and>
    decodeFrames payload = ([f], None) \<and> rebuildAckRanges f = Inr ranges \<and>
    (\<forall>now out l'. onAckReceived (\<lambda>x. x) (largestAcknowledged f) 0 ranges now example_sent = Inr (out, l') \<longrightarrow>
      set (newlyAcked out) = {4})"
proof -
  let ?t = "recordReceivedPacket 9 False (recordReceivedPacket 7 True (recordReceivedPacket 4 True newAckTracker))"
  have "\<not> tracker_isEmpty ?t" "largestReceivedPacket ?t \<le> maxValue" "(25 :: u64) \<le> maxValue"
    unfolding example_tracker by (simp_all add: tracker_isEmpty_def largestReceivedPacket_def maxValue_def)
  note E = acknowledgement_end_to_end [OF reachable_example this example_sent_ok]
  have "{pn \<in> fst ` set (m_sent example_sent). containsReceivedPacket ?t pn} =
      set (filter (containsReceivedPacket ?t) (map fst (m_sent example_sent)))" by auto
  also have "filter (containsReceivedPacket ?t) (map fst (m_sent example_sent)) = [4]"
    unfolding example_tracker by (simp add: example_sent_packets containsReceivedPacket_def word_le_nat_alt)
  finally have "{pn \<in> fst ` set (m_sent example_sent). containsReceivedPacket ?t pn} = {4}" by simp
  from E [unfolded this] show ?thesis by blast
qed

end
